(* ===== verification/Prelude.thy ===== *)
theory Prelude
  imports Main "HOL-Library.Word" "HOL-Library.AList" "HOL-Library.List_Lexorder" "HOL-Library.Char_ord"
    "HOL-Library.Product_Lexorder"
begin

unbundle bit_operations_syntax

text \<open>
  Shared vocabulary of the ZLayer development: machine integers at their Rust width,
  Rust results, byte strings, decimal rendering of integers, and the generic lemmas on lists,
  maps and words that the component theories use.

  A Rust \<open>String\<close> is a HOL \<open>string\<close> whose characters are its UTF-8 bytes; the well-formedness of
  that encoding, which the Rust type guarantees and \<open>String::from_utf8\<close> checks, is the predicate
  \<open>is_utf8\<close>. A \<open>Result<T, E>\<close> is the sum \<open>E + T\<close>, with \<open>Inl\<close> for \<open>Err\<close>. A \<open>HashMap\<close> or
  \<open>DashMap\<close> is a map, or an association list where the code iterates over it.
\<close>

section \<open>Types and collections of facts\<close>

type_synonym u8 = "8 word"
type_synonym u16 = "16 word"
type_synonym u32 = "32 word"
type_synonym u64 = "64 word"
type_synonym u128 = "128 word"
type_synonym ('a, 'e) result = "'e + 'a"

named_theorems wire_simps "evaluation of the big-endian wire encodings"
named_theorems inv_intros "preservation of the component invariants"

section \<open>Results\<close>

definition and_then :: "'e + 'a \<Rightarrow> ('a \<Rightarrow> 'e + 'b) \<Rightarrow> 'e + 'b" where
  "and_then r f = (case r of Inl e \<Rightarrow> Inl e | Inr x \<Rightarrow> f x)"

lemma and_then_simps [simp]:
  "and_then (Inl e) f = Inl e"
  "and_then (Inr x) f = f x"
  by (simp_all add: and_then_def)

lemma and_then_Inr_iff: "and_then r f = Inr y \<longleftrightarrow> (\<exists>x. r = Inr x \<and> f x = Inr y)"
  by (cases r) simp_all

definition ok_or :: "'a option \<Rightarrow> 'e \<Rightarrow> 'e + 'a" where
  "ok_or x e = (case x of None \<Rightarrow> Inl e | Some y \<Rightarrow> Inr y)"

lemma ok_or_simps [simp]:
  "ok_or None e = Inl e"
  "ok_or (Some y) e = Inr y"
  by (simp_all add: ok_or_def)

lemma ok_or_Inr_iff [simp]: "ok_or x e = Inr y \<longleftrightarrow> x = Some y"
  by (cases x) simp_all

lemma ok_or_Inl_iff: "ok_or x e = Inl d \<longleftrightarrow> x = None \<and> d = e"
  by (cases x) auto

section \<open>Saturating and checked arithmetic\<close>

definition sat_add :: "'a::len word \<Rightarrow> 'a word \<Rightarrow> 'a word" where
  "sat_add a b = (if unat a + unat b < 2 ^ LENGTH('a) then a + b else - 1)"

definition sat_mul :: "'a::len word \<Rightarrow> 'a word \<Rightarrow> 'a word" where
  "sat_mul a b = (if unat a * unat b < 2 ^ LENGTH('a) then a * b else - 1)"

definition sat_sub :: "'a::len word \<Rightarrow> 'a word \<Rightarrow> 'a word" where
  "sat_sub a b = (if b \<le> a then a - b else 0)"

definition checked_add :: "'a::len word \<Rightarrow> 'a word \<Rightarrow> 'a word option" where
  "checked_add a b = (if unat a + unat b < 2 ^ LENGTH('a) then Some (a + b) else None)"

definition checked_mul :: "'a::len word \<Rightarrow> 'a word \<Rightarrow> 'a word option" where
  "checked_mul a b = (if unat a * unat b < 2 ^ LENGTH('a) then Some (a * b) else None)"

lemma unat_bound: "unat w < 2 ^ LENGTH('a)"
  for w :: "'a::len word"
  by (rule unsigned_less)

lemma unat_max_word: "unat (- 1 :: 'a::len word) = 2 ^ LENGTH('a) - 1"
  by (simp add: unsigned_minus_1_eq_mask mask_eq_exp_minus_1)

lemma unat_sat_add: "unat (sat_add a b) = min (unat a + unat b) (2 ^ LENGTH('a) - 1)"
  for a b :: "'a::len word"
proof (cases "unat a + unat b < 2 ^ LENGTH('a)")
  case True
  then show ?thesis
    by (simp add: sat_add_def unat_word_ariths)
next
  case False
  then show ?thesis
    by (simp add: sat_add_def unat_max_word)
qed

lemma unat_sat_mul: "unat (sat_mul a b) = min (unat a * unat b) (2 ^ LENGTH('a) - 1)"
  for a b :: "'a::len word"
proof (cases "unat a * unat b < 2 ^ LENGTH('a)")
  case True
  then show ?thesis
    by (simp add: sat_mul_def unat_word_ariths)
next
  case False
  then show ?thesis
    by (simp add: sat_mul_def unat_max_word)
qed

lemma unat_sat_sub: "unat (sat_sub a b) = unat a - unat b"
  by (simp add: sat_sub_def unat_sub word_le_nat_alt)

lemma checked_add_Some_iff:
  "checked_add a b = Some c \<longleftrightarrow> unat a + unat b < 2 ^ LENGTH('a) \<and> c = a + b"
  for a b :: "'a::len word"
  by (auto simp: checked_add_def)

section \<open>Byte strings\<close>

definition byte_of_char :: "char \<Rightarrow> u8" where
  "byte_of_char c = word_of_nat (of_char c)"

definition char_of_byte :: "u8 \<Rightarrow> char" where
  "char_of_byte b = char_of (unat b)"

definition as_bytes :: "string \<Rightarrow> u8 list" where
  "as_bytes s = map byte_of_char s"

definition of_bytes :: "u8 list \<Rightarrow> string" where
  "of_bytes bs = map char_of_byte bs"

lemma char_of_byte_of_char [simp]: "char_of_byte (byte_of_char c) = c"
proof -
  have "unat (byte_of_char c) = (of_char c :: nat)"
    unfolding byte_of_char_def by (simp add: unat_of_nat take_bit_nat_eq_self)
  then show ?thesis by (simp add: char_of_byte_def)
qed

lemma byte_of_char_of_byte [simp]: "byte_of_char (char_of_byte b) = b"
proof -
  have "unat b < 256"
    using unat_bound [of b] by simp
  then show ?thesis
    by (simp add: byte_of_char_def char_of_byte_def)
qed

lemma of_bytes_as_bytes [simp]: "of_bytes (as_bytes s) = s"
  by (induction s) (simp_all add: of_bytes_def as_bytes_def)

lemma as_bytes_of_bytes [simp]: "as_bytes (of_bytes bs) = bs"
  by (induction bs) (simp_all add: of_bytes_def as_bytes_def)

lemma length_as_bytes [simp]: "length (as_bytes s) = length s"
  by (simp add: as_bytes_def)

lemma length_of_bytes [simp]: "length (of_bytes bs) = length bs"
  by (simp add: of_bytes_def)

text \<open>
  The check of \<open>String::from_utf8\<close>: the well-formed UTF-8 byte sequences (one to four bytes,
  shortest form, no surrogate, at most U+10FFFF).
\<close>

abbreviation byte_in :: "u8 \<Rightarrow> u8 \<Rightarrow> u8 \<Rightarrow> bool" where
  "byte_in lo hi b \<equiv> lo \<le> b \<and> b \<le> hi"

abbreviation cont_byte :: "u8 \<Rightarrow> bool" where
  "cont_byte b \<equiv> byte_in 0x80 0xBF b"

definition utf8_two :: "u8 \<Rightarrow> u8 \<Rightarrow> bool" where
  "utf8_two a b \<longleftrightarrow> byte_in 0xC2 0xDF a \<and> cont_byte b"

definition utf8_three :: "u8 \<Rightarrow> u8 \<Rightarrow> u8 \<Rightarrow> bool" where
  "utf8_three a b c \<longleftrightarrow> cont_byte c \<and>
     (a = 0xE0 \<and> byte_in 0xA0 0xBF b \<or>
      byte_in 0xE1 0xEC a \<and> cont_byte b \<or>
      a = 0xED \<and> byte_in 0x80 0x9F b \<or>
      byte_in 0xEE 0xEF a \<and> cont_byte b)"

definition utf8_four :: "u8 \<Rightarrow> u8 \<Rightarrow> u8 \<Rightarrow> u8 \<Rightarrow> bool" where
  "utf8_four a b c d \<longleftrightarrow> cont_byte c \<and> cont_byte d \<and>
     (a = 0xF0 \<and> byte_in 0x90 0xBF b \<or>
      byte_in 0xF1 0xF3 a \<and> cont_byte b \<or>
      a = 0xF4 \<and> byte_in 0x80 0x8F b)"

fun utf8_wf :: "u8 list \<Rightarrow> bool" where
  "utf8_wf [] = True"
| "utf8_wf (a # bs) =
     (if a \<le> 0x7F then utf8_wf bs
      else (case bs of
              [] \<Rightarrow> False
            | b # bs1 \<Rightarrow>
                if utf8_two a b then utf8_wf bs1
                else (case bs1 of
                        [] \<Rightarrow> False
                      | c # bs2 \<Rightarrow>
                          if utf8_three a b c then utf8_wf bs2
                          else (case bs2 of
                                  [] \<Rightarrow> False
                                | d # bs3 \<Rightarrow> utf8_four a b c d \<and> utf8_wf bs3))))"

definition from_utf8 :: "u8 list \<Rightarrow> string option" where
  "from_utf8 bs = (if utf8_wf bs then Some (of_bytes bs) else None)"

definition is_utf8 :: "string \<Rightarrow> bool" where
  "is_utf8 s = utf8_wf (as_bytes s)"

lemma from_utf8_as_bytes [simp]: "is_utf8 s \<Longrightarrow> from_utf8 (as_bytes s) = Some s"
  by (simp add: from_utf8_def is_utf8_def)

lemma from_utf8_SomeD: "from_utf8 bs = Some s \<Longrightarrow> is_utf8 s \<and> as_bytes s = bs"
  by (auto simp: from_utf8_def is_utf8_def split: if_splits)

section \<open>Big-endian encodings\<close>

primrec to_be_bytes :: "nat \<Rightarrow> 'a::len word \<Rightarrow> u8 list" where
  "to_be_bytes 0 w = []"
| "to_be_bytes (Suc n) w = ucast (drop_bit (8 * n) w) # to_be_bytes n w"

definition from_be_bytes :: "u8 list \<Rightarrow> 'a::len word" where
  "from_be_bytes bs = foldl (\<lambda>acc b. push_bit 8 acc OR ucast b) 0 bs"

lemma length_to_be_bytes [simp]: "length (to_be_bytes n w) = n"
  by (induction n) simp_all

lemma ucast_byte_drop_bit:
  "ucast (ucast (drop_bit k w) :: u8) = take_bit 8 (drop_bit k w)"
  for w :: "'a::len word"
  by (rule bit_word_eqI) (auto simp: bit_ucast_iff bit_take_bit_iff dest: bit_imp_le_length)

lemma push_bit_take_bit_join:
  "push_bit k (take_bit 8 (drop_bit k w)) OR take_bit k w = take_bit (8 + k) w"
  for w :: "'a::len word"
  by (rule bit_word_eqI) (auto simp: bit_simps not_less)

lemma foldl_to_be_bytes:
  "foldl (\<lambda>acc b. push_bit 8 acc OR ucast b) acc (to_be_bytes n w)
     = push_bit (8 * n) acc OR take_bit (8 * n) w"
  for w :: "'a::len word"
proof (induction n arbitrary: acc)
  case 0
  then show ?case by simp
next
  case (Suc n)
  have "push_bit (8 * n) (push_bit 8 acc OR take_bit 8 (drop_bit (8 * n) w)) OR take_bit (8 * n) w
      = push_bit (8 * n + 8) acc OR
        (push_bit (8 * n) (take_bit 8 (drop_bit (8 * n) w)) OR take_bit (8 * n) w)"
    by (simp add: push_bit_or or.assoc)
  also have "\<dots> = push_bit (8 * Suc n) acc OR take_bit (8 * Suc n) w"
    by (simp only: push_bit_take_bit_join) (simp add: add.commute)
  finally show ?case
    by (simp only: to_be_bytes.simps foldl_Cons Suc.IH ucast_byte_drop_bit)
qed

lemma from_be_to_be_bytes: "LENGTH('a) \<le> 8 * n \<Longrightarrow> from_be_bytes (to_be_bytes n w) = w"
  for w :: "'a::len word"
  by (simp add: from_be_bytes_def foldl_to_be_bytes take_bit_word_eq_self)

lemma from_be_to_be_bytes_u16 [simp]: "from_be_bytes (to_be_bytes 2 w) = w" for w :: u16
  by (rule from_be_to_be_bytes) simp

lemma from_be_to_be_bytes_u32 [simp]: "from_be_bytes (to_be_bytes 4 w) = w" for w :: u32
  by (rule from_be_to_be_bytes) simp

lemma from_be_to_be_bytes_u64 [simp]: "from_be_bytes (to_be_bytes 8 w) = w" for w :: u64
  by (rule from_be_to_be_bytes) simp

lemma to_be_bytes_u8: "to_be_bytes (Suc 0) w = [w]" for w :: u8
  by simp

section \<open>Decimal rendering of unsigned integers\<close>

definition digit_char :: "nat \<Rightarrow> char" where
  "digit_char d = char_of (48 + d)"

fun show_nat :: "nat \<Rightarrow> string" where
  "show_nat n = (if n < 10 then [digit_char n] else show_nat (n div 10) @ [digit_char (n mod 10)])"

declare show_nat.simps [simp del]

abbreviation show_word :: "'a::len word \<Rightarrow> string" where
  "show_word w \<equiv> show_nat (unat w)"

definition is_digit :: "char \<Rightarrow> bool" where
  "is_digit c \<longleftrightarrow> 48 \<le> (of_char c :: nat) \<and> (of_char c :: nat) \<le> 57"

definition digit_val :: "char \<Rightarrow> nat" where
  "digit_val c = of_char c - 48"

definition read_nat :: "string \<Rightarrow> nat" where
  "read_nat s = foldl (\<lambda>acc c. 10 * acc + digit_val c) 0 s"

lemma digit_char_val [simp]: "d < 10 \<Longrightarrow> digit_val (digit_char d) = d"
  by (simp add: digit_val_def digit_char_def)

lemma is_digit_char [simp]: "d < 10 \<Longrightarrow> is_digit (digit_char d)"
  by (simp add: is_digit_def digit_char_def)

lemma show_nat_digits: "c \<in> set (show_nat n) \<Longrightarrow> is_digit c"
  by (induction n rule: show_nat.induct) (subst (asm) (2) show_nat.simps, auto split: if_splits)

lemma show_nat_nonempty: "show_nat n \<noteq> []"
  by (subst show_nat.simps) simp

lemma read_show_nat [simp]: "read_nat (show_nat n) = n"
proof (induction n rule: show_nat.induct)
  case (1 n)
  show ?case
  proof (cases "n < 10")
    case True
    then show ?thesis by (subst show_nat.simps) (simp add: read_nat_def)
  next
    case False
    with 1 have "read_nat (show_nat (n div 10)) = n div 10" by simp
    with False show ?thesis by (subst show_nat.simps) (simp add: read_nat_def)
  qed
qed

lemma show_nat_inject [simp]: "show_nat m = show_nat n \<longleftrightarrow> m = n"
  by (metis read_show_nat)

lemma show_word_inject [simp]: "show_word a = show_word b \<longleftrightarrow> a = b"
  by (simp add: word_unat_eq_iff)

lemma append_sep_inject:
  assumes "x @ c # s = y @ c # t" and "c \<notin> set x" and "c \<notin> set y"
  shows "x = y \<and> s = t"
  using assms
proof (induction x arbitrary: y)
  case Nil
  then show ?case by (cases y) auto
next
  case (Cons a x)
  then show ?case by (cases y) auto
qed

section \<open>String operations of the standard library\<close>

text \<open>
  The methods of \<open>str\<close> the code uses, over bytes. \<open>parse_uint\<close> is \<open>FromStr\<close> of the unsigned integers: an
  optional plus sign, then at least one digit, and a value in range.
\<close>

definition starts_with :: "string \<Rightarrow> string \<Rightarrow> bool" where
  "starts_with s p \<longleftrightarrow> take (length p) s = p"

definition ends_with :: "string \<Rightarrow> string \<Rightarrow> bool" where
  "ends_with s p \<longleftrightarrow> starts_with (rev s) (rev p)"

definition strip_prefix :: "string \<Rightarrow> string \<Rightarrow> string option" where
  "strip_prefix s p = (if starts_with s p then Some (drop (length p) s) else None)"

fun split_once :: "string \<Rightarrow> string \<Rightarrow> (string \<times> string) option" where
  "split_once p [] = (if p = [] then Some ([], []) else None)"
| "split_once p (c # s) =
     (if starts_with (c # s) p then Some ([], drop (length p) (c # s))
      else map_option (\<lambda>(a, b). (c # a, b)) (split_once p s))"

definition rsplit_once :: "string \<Rightarrow> string \<Rightarrow> (string \<times> string) option" where
  "rsplit_once p s = map_option (\<lambda>(a, b). (rev b, rev a)) (split_once (rev p) (rev s))"

fun join_strings :: "string \<Rightarrow> string list \<Rightarrow> string" where
  "join_strings sep [] = []"
| "join_strings sep [s] = s"
| "join_strings sep (s # t # ss) = s @ sep @ join_strings sep (t # ss)"

definition parse_uint :: "string \<Rightarrow> 'a::len word option" where
  "parse_uint s =
     (let ds = (case s of c # r \<Rightarrow> if c = CHR ''+'' then r else s | [] \<Rightarrow> s) in
      if ds \<noteq> [] \<and> list_all is_digit ds \<and> read_nat ds < 2 ^ LENGTH('a) then Some (word_of_nat (read_nat ds)) else None)"

definition str_contains :: "string \<Rightarrow> string \<Rightarrow> bool" where
  "str_contains s p \<longleftrightarrow> list_ex (\<lambda>i. starts_with (drop i s) p) [0..<Suc (length s)]"

definition strip_suffix :: "string \<Rightarrow> string \<Rightarrow> string option" where
  "strip_suffix s p = (if ends_with s p then Some (take (length s - length p) s) else None)"

definition ascii_lower :: "u8 \<Rightarrow> u8" where
  "ascii_lower b = (if 65 \<le> b \<and> b \<le> 90 then b + 32 else b)"

definition eq_ignore_ascii_case :: "string \<Rightarrow> string \<Rightarrow> bool" where
  "eq_ignore_ascii_case s t \<longleftrightarrow> map ascii_lower (as_bytes s) = map ascii_lower (as_bytes t)"

text \<open>\<open>str::trim\<close> removes characters with the Unicode property White_Space, listed here by their UTF-8 encodings.\<close>

definition white_space :: "string list" where
  "white_space = map of_bytes
     [[9], [10], [11], [12], [13], [32], [0xC2, 0x85], [0xC2, 0xA0], [0xE1, 0x9A, 0x80],
      [0xE2, 0x80, 0x80], [0xE2, 0x80, 0x81], [0xE2, 0x80, 0x82], [0xE2, 0x80, 0x83], [0xE2, 0x80, 0x84],
      [0xE2, 0x80, 0x85], [0xE2, 0x80, 0x86], [0xE2, 0x80, 0x87], [0xE2, 0x80, 0x88], [0xE2, 0x80, 0x89],
      [0xE2, 0x80, 0x8A], [0xE2, 0x80, 0xA8], [0xE2, 0x80, 0xA9], [0xE2, 0x80, 0xAF], [0xE2, 0x81, 0x9F],
      [0xE3, 0x80, 0x80]]"

function trim_front :: "string list \<Rightarrow> string \<Rightarrow> string" where
  "trim_front ws s =
     (case find (\<lambda>w. w \<noteq> [] \<and> starts_with s w) ws of None \<Rightarrow> s | Some w \<Rightarrow> trim_front ws (drop (length w) s))"
  by pat_completeness auto
termination
proof (relation "measure (length \<circ> snd)")
  fix ws s w assume "find (\<lambda>w. w \<noteq> [] \<and> starts_with s w) ws = Some w"
  then have "w \<noteq> []" and "take (length w) s = w" by (auto simp: find_Some_iff starts_with_def)
  then have "s \<noteq> []" by auto
  with \<open>w \<noteq> []\<close> show "((ws, drop (length w) s), ws, s) \<in> measure (length \<circ> snd)" by simp
qed simp

declare trim_front.simps [simp del]

definition trim :: "string \<Rightarrow> string" where
  "trim s = rev (trim_front (map rev white_space) (rev (trim_front white_space s)))"

lemma starts_with_iff: "starts_with s p \<longleftrightarrow> (\<exists>t. s = p @ t)"
  unfolding starts_with_def by (metis append_eq_conv_conj append_take_drop_id)

lemma ends_with_iff: "ends_with s p \<longleftrightarrow> (\<exists>t. s = t @ p)"
  unfolding ends_with_def starts_with_iff by (metis rev_append rev_rev_ident)

lemma split_once_Some: "split_once p s = Some (a, b) \<Longrightarrow> s = a @ p @ b"
proof (induction p s arbitrary: a b rule: split_once.induct)
  case (2 p c s)
  then show ?case
  proof (cases "starts_with (c # s) p")
    case True
    then obtain t where t: "c # s = p @ t" by (auto simp: starts_with_iff)
    from 2(2) True have "a = []" "b = drop (length p) (c # s)" by simp_all
    with t show ?thesis by simp
  qed (use 2 in auto)
qed (auto split: if_splits)

lemma split_once_None: "split_once p s = None \<longleftrightarrow> (\<nexists>a b. s = a @ p @ b)"
proof (induction p s rule: split_once.induct)
  case (2 p c s)
  show ?case
  proof (cases "starts_with (c # s) p")
    case True
    then obtain t where "c # s = [] @ p @ t" by (auto simp: starts_with_iff)
    with True show ?thesis by (metis option.distinct(1) split_once.simps(2))
  next
    case False
    then have "(\<exists>a b. c # s = a @ p @ b) \<longleftrightarrow> (\<exists>a b. s = a @ p @ b)"
      by (auto simp: starts_with_iff Cons_eq_append_conv)
    with False 2 show ?thesis by simp
  qed
qed simp

lemma split_once_first: "c \<notin> set x \<Longrightarrow> split_once (c # p) (x @ (c # p) @ y) = Some (x, y)"
  by (induction x) (auto simp: starts_with_def)

lemma rsplit_once_Some: "rsplit_once p s = Some (a, b) \<Longrightarrow> s = a @ p @ b"
  unfolding rsplit_once_def by (auto dest!: split_once_Some) (metis append.assoc rev_append rev_rev_ident)

lemma rsplit_once_None: "rsplit_once p s = None \<longleftrightarrow> (\<nexists>a b. s = a @ p @ b)"
  unfolding rsplit_once_def by (simp add: split_once_None) (metis append.assoc rev_append rev_rev_ident)

lemma rsplit_once_last: "c \<notin> set y \<Longrightarrow> rsplit_once (p @ [c]) (x @ (p @ [c]) @ y) = Some (x, y)"
  unfolding rsplit_once_def using split_once_first [of c "rev y" "rev p" "rev x"] by simp

lemma parse_show [simp]: "parse_uint (show_word w) = Some w"
proof -
  have "hd (show_word w) \<noteq> CHR ''+''"
    using show_nat_digits [of "hd (show_word w)" "unat w"] show_nat_nonempty [of "unat w"] by (auto simp: is_digit_def)
  then have "(case show_word w of c # r \<Rightarrow> if c = CHR ''+'' then r else show_word w | [] \<Rightarrow> show_word w) = show_word w"
    by (auto split: list.splits)
  then show ?thesis
    using show_nat_digits show_nat_nonempty unat_bound [of w] by (simp add: parse_uint_def list_all_iff)
qed

lemma parse_uint_Some_digits: "parse_uint s = Some w \<Longrightarrow> c \<in> set s \<Longrightarrow> is_digit c \<or> c = CHR ''+''"
  by (auto simp: parse_uint_def list_all_iff Let_def split: if_splits list.splits)

section \<open>Loops that stop at the first error\<close>

primrec try_each :: "('a \<Rightarrow> 'e + unit) \<Rightarrow> 'a list \<Rightarrow> 'e + unit" where
  "try_each f [] = Inr ()"
| "try_each f (x # xs) = and_then (f x) (\<lambda>_. try_each f xs)"

primrec try_map :: "('a \<Rightarrow> 'e + 'b) \<Rightarrow> 'a list \<Rightarrow> 'e + 'b list" where
  "try_map f [] = Inr []"
| "try_map f (x # xs) = and_then (f x) (\<lambda>y. and_then (try_map f xs) (\<lambda>ys. Inr (y # ys)))"

lemma try_each_Inr [simp]: "try_each f xs = Inr u \<longleftrightarrow> (\<forall>x \<in> set xs. f x = Inr ())"
  by (induction xs) (auto simp: and_then_Inr_iff)

lemma try_each_Inl: "try_each f xs = Inl e \<Longrightarrow> \<exists>x \<in> set xs. f x = Inl e"
  by (induction xs) (auto simp: and_then_def split: sum.splits)

lemma try_map_Inr: "try_map f xs = Inr ys \<longleftrightarrow> list_all2 (\<lambda>x y. f x = Inr y) xs ys"
  by (induction xs arbitrary: ys) (auto simp: and_then_Inr_iff list_all2_Cons1)

lemma try_map_Inl: "try_map f xs = Inl e \<Longrightarrow> \<exists>x \<in> set xs. f x = Inl e"
  by (induction xs) (auto simp: and_then_def split: sum.splits)

fun splitn :: "nat \<Rightarrow> string \<Rightarrow> string \<Rightarrow> string list" where
  "splitn 0 p s = []"
| "splitn (Suc 0) p s = [s]"
| "splitn (Suc (Suc n)) p s = (case split_once p s of None \<Rightarrow> [s] | Some (a, b) \<Rightarrow> a # splitn (Suc n) p b)"

lemma split_once_char: "split_once [c] s = (if c \<in> set s then Some (takeWhile (\<lambda>d. d \<noteq> c) s, tl (dropWhile (\<lambda>d. d \<noteq> c) s)) else None)"
  by (induction s) (auto simp: starts_with_def)

lemma split_once_char_append [simp]: "c \<notin> set x \<Longrightarrow> split_once [c] (x @ c # y) = Some (x, y)"
  using split_once_first [of c x "[]" y] by simp

lemma split_once_char_None [simp]: "split_once [c] s = None \<longleftrightarrow> c \<notin> set s"
  by (simp add: split_once_char)

lemma split_once_char_absent [simp]: "c \<notin> set s \<Longrightarrow> split_once [c] s = None"
  by simp

lemma split_once_char_Some: "split_once [c] s = Some (a, b) \<longleftrightarrow> s = a @ c # b \<and> c \<notin> set a"
proof
  assume "split_once [c] s = Some (a, b)"
  moreover from this have "c \<in> set s" by (auto simp: split_once_char split: if_splits)
  ultimately show "s = a @ c # b \<and> c \<notin> set a"
    using split_once_Some [of "[c]" s a b] by (auto simp: split_once_char dest: set_takeWhileD)
qed auto

lemma starts_with_char [simp]: "starts_with s [c] \<longleftrightarrow> s \<noteq> [] \<and> hd s = c"
  by (cases s) (simp_all add: starts_with_def)

lemma str_contains_char [simp]: "str_contains s [c] \<longleftrightarrow> c \<in> set s"
  by (auto simp: str_contains_def list_ex_iff in_set_conv_nth hd_drop_conv_nth less_Suc_eq)

lemma strip_prefix_append [simp]: "strip_prefix (p @ s) p = Some s"
  by (simp add: strip_prefix_def starts_with_def)

lemma strip_prefix_char: "strip_prefix s [c] = (case s of d # t \<Rightarrow> if d = c then Some t else None | [] \<Rightarrow> None)"
  by (cases s) (simp_all add: strip_prefix_def starts_with_def)

section \<open>Lists and maps\<close>

lemma take_append_length [wire_simps]: "length xs = n \<Longrightarrow> take n (xs @ ys) = xs"
  by simp

lemma drop_append_length [wire_simps]: "length xs = n \<Longrightarrow> drop n (xs @ ys) = ys"
  by simp

lemma find_least:
  fixes xs :: "'a :: linorder list"
  assumes "find P xs = Some x" and "sorted_wrt (<) xs" and "y \<in> set xs" and "P y"
  shows "x \<le> y"
  using assms by (induction xs) (auto split: if_splits)

lemma distinct_count_list: "distinct xs \<Longrightarrow> count_list xs x = (if x \<in> set xs then 1 else 0)"
  by (induction xs) auto

lemma ran_fun_upd_subset: "ran (m(k \<mapsto> v)) \<subseteq> insert v (ran m)"
  by (auto simp: ran_def)

lemma ran_fun_upd_None_subset: "ran (m(k := None)) \<subseteq> ran m"
  by (auto simp: ran_def)

lemma inj_on_dom_upd:
  assumes "inj_on m (dom m)" and "v \<notin> ran m"
  shows "inj_on (m(k \<mapsto> v)) (dom (m(k \<mapsto> v)))"
  using assms by (auto simp: inj_on_def ran_def dom_def)

lemma inj_on_dom_del:
  assumes "inj_on m (dom m)"
  shows "inj_on (m(k := None)) (dom (m(k := None)))"
  using assms by (auto simp: inj_on_def dom_def)

text \<open>\<open>Iterator::min_by_key\<close> returns the first of several minimal elements.\<close>

fun min_by_key :: "('a \<Rightarrow> 'k::linorder) \<Rightarrow> 'a list \<Rightarrow> 'a option" where
  "min_by_key f [] = None"
| "min_by_key f (x # xs) =
     (case min_by_key f xs of None \<Rightarrow> Some x | Some y \<Rightarrow> if f x \<le> f y then Some x else Some y)"

lemma min_by_key_None [simp]: "min_by_key f xs = None \<longleftrightarrow> xs = []"
  by (cases xs) (auto split: option.splits)

lemma min_by_key_Some:
  "min_by_key f xs = Some x \<Longrightarrow> x \<in> set xs \<and> (\<forall>y \<in> set xs. f x \<le> f y) \<and>
   (\<exists>ys zs. xs = ys @ x # zs \<and> (\<forall>y \<in> set ys. f x < f y))"
proof (induction xs arbitrary: x)
  case (Cons a xs)
  show ?case
  proof (cases "min_by_key f xs")
    case None
    with Cons.prems show ?thesis by (auto intro!: exI [of _ "[]"])
  next
    case (Some y)
    with Cons.IH [OF Some] obtain ys zs where y: "y \<in> set xs" "\<And>z. z \<in> set xs \<Longrightarrow> f y \<le> f z"
      "xs = ys @ y # zs" "\<forall>z \<in> set ys. f y < f z" by auto
    show ?thesis
    proof (cases "f a \<le> f y")
      case True
      with Some Cons.prems have x: "x = a" by simp
      have "\<exists>ys zs. a # xs = ys @ a # zs \<and> (\<forall>y \<in> set ys. f a < f y)"
        by (rule exI [of _ "[]"]) simp
      with True y(2) show ?thesis unfolding x by (auto intro: order_trans)
    next
      case False
      with Some Cons.prems have x: "x = y" by simp
      have "\<exists>ys zs. a # xs = ys @ y # zs \<and> (\<forall>z \<in> set ys. f y < f z)"
        by (rule exI [of _ "a # ys"]) (use False y(3,4) in auto)
      with False y(1,2) show ?thesis unfolding x by auto
    qed
  qed
qed simp

lemma min_by_key_sort_key: "min_by_key f xs = (case sort_key f xs of [] \<Rightarrow> None | x # _ \<Rightarrow> Some x)"
  by (induction xs) (auto split: list.splits)

lemma sort_key_snoc:
  fixes f :: "'a \<Rightarrow> 'b :: linorder"
  shows "sort_key f (xs @ [e]) =
    takeWhile (\<lambda>x. f x \<le> f e) (sort_key f xs) @ e # dropWhile (\<lambda>x. f x \<le> f e) (sort_key f xs)"
proof -
  have "insort_key f x (takeWhile (\<lambda>x. f x \<le> f e) s @ e # dropWhile (\<lambda>x. f x \<le> f e) s) =
      takeWhile (\<lambda>x. f x \<le> f e) (insort_key f x s) @ e # dropWhile (\<lambda>x. f x \<le> f e) (insort_key f x s)" for x s
    by (induction s) auto
  then show ?thesis by (induction xs) simp_all
qed

lemma map_sort_key: "(\<And>x. f (h x) = f x) \<Longrightarrow> map h (sort_key f xs) = sort_key f (map h xs)"
proof -
  assume h: "\<And>x. f (h x) = f x"
  have "map h (insort_key f x ys) = insort_key f (h x) (map h ys)" for x ys
    by (induction ys) (simp_all add: h)
  then show ?thesis by (induction xs) simp_all
qed

lemma find_filter: "find P xs = (case filter P xs of [] \<Rightarrow> None | x # _ \<Rightarrow> Some x)"
  by (induction xs) simp_all

lemma find_sort_key: "find P (sort_key f xs) = min_by_key f (filter P xs)"
  by (simp add: find_filter min_by_key_sort_key filter_sort)

section \<open>Comparisons and selection\<close>

text \<open>
  \<open>std::cmp::Ordering\<close>; \<open>max_by\<close> of an iterator keeps the later of two elements that compare equal.
\<close>

datatype ordering = CmpLess | CmpEqual | CmpGreater

definition cmp :: "'a::linorder \<Rightarrow> 'a \<Rightarrow> ordering" where
  "cmp a b = (if a < b then CmpLess else if a = b then CmpEqual else CmpGreater)"

definition then_cmp :: "ordering \<Rightarrow> ordering \<Rightarrow> ordering" where
  "then_cmp c d = (case c of CmpEqual \<Rightarrow> d | _ \<Rightarrow> c)"

primrec max_by_from :: "('a \<Rightarrow> 'a \<Rightarrow> ordering) \<Rightarrow> 'a \<Rightarrow> 'a list \<Rightarrow> 'a" where
  "max_by_from c a [] = a"
| "max_by_from c a (x # xs) = max_by_from c (if c a x = CmpGreater then a else x) xs"

definition max_by :: "('a \<Rightarrow> 'a \<Rightarrow> ordering) \<Rightarrow> 'a list \<Rightarrow> 'a option" where
  "max_by c xs = (case xs of [] \<Rightarrow> None | x # xs \<Rightarrow> Some (max_by_from c x xs))"

lemma max_by_from_in: "max_by_from c a xs \<in> insert a (set xs)"
  by (induction xs arbitrary: a) fastforce+

lemma max_by_in: "max_by c xs = Some x \<Longrightarrow> x \<in> set xs"
  using max_by_from_in by (fastforce simp: max_by_def split: list.splits)

lemma max_by_None_iff [simp]: "max_by c xs = None \<longleftrightarrow> xs = []"
  by (simp add: max_by_def split: list.splits)

text \<open>When the comparison looks at a key first, the element chosen has the greatest key, whatever decides ties.\<close>

lemma max_by_from_key:
  assumes "\<And>x y. c x y = then_cmp (cmp (key x) (key y)) (d x y)"
  shows "\<forall>x \<in> insert a (set xs). (key x :: 'k::linorder) \<le> key (max_by_from c a xs)"
proof (induction xs arbitrary: a)
  case (Cons y xs)
  let ?b = "if c a y = CmpGreater then a else y"
  have "key a \<le> key ?b" and "key y \<le> key ?b" by (auto simp: assms then_cmp_def cmp_def split: if_splits)
  with Cons.IH [of ?b] show ?case by (auto intro: order_trans)
qed simp

lemma max_by_key:
  assumes "max_by c xs = Some m" and "\<And>x y. c x y = then_cmp (cmp (key x) (key y)) (d x y)" and "x \<in> set xs"
  shows "(key x :: 'k::linorder) \<le> key m"
proof (cases xs)
  case (Cons y ys)
  with assms(1,3) max_by_from_key [of c key d y ys, OF assms(2)] show ?thesis by (auto simp: max_by_def)
qed (use assms in simp)

text \<open>Updating the first element found by a predicate, as through \<open>iter_mut().find\<close>.\<close>

primrec update_first :: "('a \<Rightarrow> bool) \<Rightarrow> ('a \<Rightarrow> 'a) \<Rightarrow> 'a list \<Rightarrow> 'a list" where
  "update_first p f [] = []"
| "update_first p f (x # xs) = (if p x then f x # xs else x # update_first p f xs)"

lemma length_update_first [simp]: "length (update_first p f xs) = length xs"
  by (induction xs) simp_all

lemma update_first_key:
  assumes "distinct (map key xs)" and "\<And>x. key (f x) = key x"
  shows "update_first (\<lambda>x. key x = k) f xs = map (\<lambda>x. if key x = k then f x else x) xs"
  using assms(1)
proof (induction xs)
  case (Cons x xs)
  have "map (\<lambda>x. if key x = k then f x else x) xs = xs" if "key x = k"
    using that Cons.prems by (intro map_idI) (force simp: image_iff)
  with Cons show ?case by simp
qed simp

section \<open>Hash maps that the code iterates over\<close>

text \<open>
  Where the code walks through a \<open>HashMap\<close> or a \<open>DashMap\<close>, the map is an association list in some
  iteration order, with distinct keys (\<open>hm_wf\<close>). Nothing is assumed of the order.
\<close>

type_synonym ('k, 'v) hmap = "('k \<times> 'v) list"

abbreviation hm_get :: "('k, 'v) hmap \<Rightarrow> 'k \<Rightarrow> 'v option" where
  "hm_get \<equiv> map_of"

abbreviation hm_insert :: "'k \<Rightarrow> 'v \<Rightarrow> ('k, 'v) hmap \<Rightarrow> ('k, 'v) hmap" where
  "hm_insert \<equiv> AList.update"

abbreviation hm_remove :: "'k \<Rightarrow> ('k, 'v) hmap \<Rightarrow> ('k, 'v) hmap" where
  "hm_remove \<equiv> AList.delete"

abbreviation hm_wf :: "('k, 'v) hmap \<Rightarrow> bool" where
  "hm_wf m \<equiv> distinct (map fst m)"

lemmas hm_simps [simp] = update_conv' delete_conv'
lemmas hm_wf_intros [simp] = distinct_update distinct_delete

declare map_of_eq_Some_iff [simp del]

lemma hm_wf_mem_iff: "hm_wf m \<Longrightarrow> (k, v) \<in> set m \<longleftrightarrow> hm_get m k = Some v"
  by (simp add: map_of_eq_Some_iff)

lemma hm_get_fold_insert:
  "hm_get (fold (\<lambda>(k, v). hm_insert k v) l m) = hm_get m ++ map_of (rev l)"
proof (induction l arbitrary: m)
  case (Cons kv l)
  then show ?case by (cases kv) (simp add: map_add_def fun_eq_iff split: option.splits)
qed simp

lemma map_of_rev_wf: "hm_wf l \<Longrightarrow> map_of (rev l) = hm_get l"
  by (subst map_of_inject_set) (simp_all flip: rev_map)

lemma set_hm_insert:
  assumes "hm_wf m"
  shows "(k', v') \<in> set (hm_insert k v m) \<longleftrightarrow> (if k' = k then v' = v else (k', v') \<in> set m)"
proof -
  have "hm_wf (hm_insert k v m)" using assms by (rule distinct_update)
  from hm_wf_mem_iff [OF this, of k' v'] hm_wf_mem_iff [OF assms, of k' v'] show ?thesis
    by (simp add: eq_commute)
qed

lemma set_hm_remove:
  assumes "hm_wf m"
  shows "(k', v') \<in> set (hm_remove k m) \<longleftrightarrow> k' \<noteq> k \<and> (k', v') \<in> set m"
proof -
  have "hm_wf (hm_remove k m)" using assms by (rule distinct_delete)
  from hm_wf_mem_iff [OF this, of k' v'] hm_wf_mem_iff [OF assms, of k' v'] show ?thesis
    by simp
qed

lemma ran_hm_get: "hm_wf m \<Longrightarrow> ran (hm_get m) = snd ` set m"
  by (rule ran_distinct)

section \<open>Addresses\<close>

datatype ip_addr = IpV4 u32 | IpV6 u128

type_synonym socket_addr = "ip_addr \<times> u16"

end
