(* ===== verification/Tunnel_Protocol.thy ===== *)
theory Tunnel_Protocol
  imports Prelude
begin

text \<open>
  The binary message protocol of the tunnel, from \<open>crates/zlayer-tunnel/src/protocol.rs\<close>:
  the message types and their discriminants, the messages, \<open>Message::encode\<close>, and
  \<open>Message::decode\<close> with one decoder per message type.

  The type of UUIDs and its two byte conversions (\<open>Uuid::as_bytes\<close>, \<open>Uuid::from_slice\<close>) belong
  to the \<open>uuid\<close> crate: they are the type variable \<open>'u\<close> and a parameter of the model, and
  \<open>uuid_ok\<close> states what their documentation promises. An error of the code carries a formatted
  message; the model has one constructor per format string, with the formatted values.
\<close>

section \<open>Data\<close>

record 'u uuid_api =
  uuid_as_bytes :: "'u \<Rightarrow> u8 list"
  uuid_from_slice :: "u8 list \<Rightarrow> 'u option"

definition uuid_ok :: "'u uuid_api \<Rightarrow> bool" where
  "uuid_ok U \<longleftrightarrow>
     (\<forall>u. length (uuid_as_bytes U u) = 16) \<and>
     (\<forall>u. uuid_from_slice U (uuid_as_bytes U u) = Some u) \<and>
     (\<forall>bs. uuid_from_slice U bs \<noteq> None \<longleftrightarrow> length bs = 16)"

lemma uuid_okD [simp]:
  assumes "uuid_ok U"
  shows "length (uuid_as_bytes U u) = 16"
    and "uuid_from_slice U (uuid_as_bytes U u) = Some u"
  using assms by (simp_all add: uuid_ok_def)

definition MAX_MESSAGE_SIZE :: nat where
  "MAX_MESSAGE_SIZE = 65536"

definition HEADER_SIZE :: nat where
  "HEADER_SIZE = 5"

datatype msg_type =
    MT_Auth | MT_AuthOk | MT_AuthFail
  | MT_Register | MT_RegisterOk | MT_RegisterFail
  | MT_Connect | MT_ConnectAck | MT_ConnectFail
  | MT_Heartbeat | MT_HeartbeatAck
  | MT_Unregister | MT_Disconnect

fun type_byte :: "msg_type \<Rightarrow> u8" where
  "type_byte MT_Auth = 0x01"
| "type_byte MT_AuthOk = 0x02"
| "type_byte MT_AuthFail = 0x03"
| "type_byte MT_Register = 0x10"
| "type_byte MT_RegisterOk = 0x11"
| "type_byte MT_RegisterFail = 0x12"
| "type_byte MT_Connect = 0x20"
| "type_byte MT_ConnectAck = 0x21"
| "type_byte MT_ConnectFail = 0x22"
| "type_byte MT_Heartbeat = 0x30"
| "type_byte MT_HeartbeatAck = 0x31"
| "type_byte MT_Unregister = 0x40"
| "type_byte MT_Disconnect = 0x41"

datatype protocol_error =
    MessageTooShort nat
  | UnknownMessageType u8
  | PayloadTooLarge nat
  | IncompleteMessage nat nat
  | UnknownProtocol u8
  | NoLengthField msg_type
  | PayloadTooShort msg_type
  | InvalidUtf8 msg_type
  | InvalidUuid msg_type

definition message_type_try_from :: "u8 \<Rightarrow> protocol_error + msg_type" where
  "message_type_try_from value =
     (if value = 0x01 then Inr MT_Auth
      else if value = 0x02 then Inr MT_AuthOk
      else if value = 0x03 then Inr MT_AuthFail
      else if value = 0x10 then Inr MT_Register
      else if value = 0x11 then Inr MT_RegisterOk
      else if value = 0x12 then Inr MT_RegisterFail
      else if value = 0x20 then Inr MT_Connect
      else if value = 0x21 then Inr MT_ConnectAck
      else if value = 0x22 then Inr MT_ConnectFail
      else if value = 0x30 then Inr MT_Heartbeat
      else if value = 0x31 then Inr MT_HeartbeatAck
      else if value = 0x40 then Inr MT_Unregister
      else if value = 0x41 then Inr MT_Disconnect
      else Inl (UnknownMessageType value))"

datatype service_protocol = Tcp | Udp

fun to_byte :: "service_protocol \<Rightarrow> u8" where
  "to_byte Tcp = 0"
| "to_byte Udp = 1"

definition from_byte :: "u8 \<Rightarrow> protocol_error + service_protocol" where
  "from_byte byte =
     (if byte = 0 then Inr Tcp
      else if byte = 1 then Inr Udp
      else Inl (UnknownProtocol byte))"

datatype 'u message =
    Auth string 'u
  | AuthOk 'u
  | AuthFail string
  | Register string service_protocol u16 u16
  | RegisterOk 'u
  | RegisterFail string
  | Connect 'u 'u string
  | ConnectAck 'u
  | ConnectFail 'u string
  | Heartbeat u64
  | HeartbeatAck u64
  | Unregister 'u
  | Disconnect string

fun message_type :: "'u message \<Rightarrow> msg_type" where
  "message_type (Auth _ _) = MT_Auth"
| "message_type (AuthOk _) = MT_AuthOk"
| "message_type (AuthFail _) = MT_AuthFail"
| "message_type (Register _ _ _ _) = MT_Register"
| "message_type (RegisterOk _) = MT_RegisterOk"
| "message_type (RegisterFail _) = MT_RegisterFail"
| "message_type (Connect _ _ _) = MT_Connect"
| "message_type (ConnectAck _) = MT_ConnectAck"
| "message_type (ConnectFail _ _) = MT_ConnectFail"
| "message_type (Heartbeat _) = MT_Heartbeat"
| "message_type (HeartbeatAck _) = MT_HeartbeatAck"
| "message_type (Unregister _) = MT_Unregister"
| "message_type (Disconnect _) = MT_Disconnect"

section \<open>Encoding\<close>

text \<open>
  \<open>len as u16\<close> and \<open>len as u8\<close> truncate. A string field is its truncated length followed by all
  of its bytes.
\<close>

definition len_u16 :: "string \<Rightarrow> u8 list" where
  "len_u16 s = to_be_bytes 2 (word_of_nat (length (as_bytes s)) :: u16)"

fun encode_payload :: "'u uuid_api \<Rightarrow> 'u message \<Rightarrow> u8 list" where
  "encode_payload U (Auth tok cid) = len_u16 tok @ as_bytes tok @ uuid_as_bytes U cid"
| "encode_payload U (AuthOk tid) = uuid_as_bytes U tid"
| "encode_payload U (AuthFail r) = len_u16 r @ as_bytes r"
| "encode_payload U (Register name proto lp rp) =
     [word_of_nat (length (as_bytes name))] @ as_bytes name @ [to_byte proto] @
     to_be_bytes 2 lp @ to_be_bytes 2 rp"
| "encode_payload U (RegisterOk sid) = uuid_as_bytes U sid"
| "encode_payload U (RegisterFail r) = len_u16 r @ as_bytes r"
| "encode_payload U (Connect sid cid addr) =
     uuid_as_bytes U sid @ uuid_as_bytes U cid @ len_u16 addr @ as_bytes addr"
| "encode_payload U (ConnectAck cid) = uuid_as_bytes U cid"
| "encode_payload U (ConnectFail cid r) = uuid_as_bytes U cid @ len_u16 r @ as_bytes r"
| "encode_payload U (Heartbeat ts) = to_be_bytes 8 ts"
| "encode_payload U (HeartbeatAck ts) = to_be_bytes 8 ts"
| "encode_payload U (Unregister sid) = uuid_as_bytes U sid"
| "encode_payload U (Disconnect r) = len_u16 r @ as_bytes r"

definition encode :: "'u uuid_api \<Rightarrow> 'u message \<Rightarrow> u8 list" where
  "encode U m =
     (let payload = encode_payload U m;
          payload_len = (word_of_nat (length payload) :: u32)
      in type_byte (message_type m) # to_be_bytes 4 payload_len @ payload)"

section \<open>Decoding\<close>

definition byte_slice :: "u8 list \<Rightarrow> nat \<Rightarrow> nat \<Rightarrow> u8 list" where
  "byte_slice bs from to = take (to - from) (drop from bs)"

definition u16_at :: "u8 list \<Rightarrow> nat \<Rightarrow> u16" where
  "u16_at bs i = from_be_bytes [bs ! i, bs ! (i + 1)]"

definition utf8_field :: "msg_type \<Rightarrow> u8 list \<Rightarrow> protocol_error + string" where
  "utf8_field t bs = ok_or (from_utf8 bs) (InvalidUtf8 t)"

definition uuid_field :: "'u uuid_api \<Rightarrow> msg_type \<Rightarrow> u8 list \<Rightarrow> protocol_error + 'u" where
  "uuid_field U t bs = ok_or (uuid_from_slice U bs) (InvalidUuid t)"

definition decode_auth :: "'u uuid_api \<Rightarrow> u8 list \<Rightarrow> protocol_error + 'u message" where
  "decode_auth U payload =
     (if length payload < 2 then Inl (NoLengthField MT_Auth)
      else let token_len = unat (u16_at payload 0) in
        if length payload < 2 + token_len + 16 then Inl (PayloadTooShort MT_Auth)
        else and_then (utf8_field MT_Auth (byte_slice payload 2 (2 + token_len))) (\<lambda>tok.
             and_then (uuid_field U MT_Auth (byte_slice payload (2 + token_len) (2 + token_len + 16))) (\<lambda>cid.
             Inr (Auth tok cid))))"

definition decode_auth_ok :: "'u uuid_api \<Rightarrow> u8 list \<Rightarrow> protocol_error + 'u message" where
  "decode_auth_ok U payload =
     (if length payload < 16 then Inl (PayloadTooShort MT_AuthOk)
      else and_then (uuid_field U MT_AuthOk (byte_slice payload 0 16)) (\<lambda>tid. Inr (AuthOk tid)))"

definition decode_auth_fail :: "u8 list \<Rightarrow> protocol_error + 'u message" where
  "decode_auth_fail payload =
     (if length payload < 2 then Inl (NoLengthField MT_AuthFail)
      else let reason_len = unat (u16_at payload 0) in
        if length payload < 2 + reason_len then Inl (PayloadTooShort MT_AuthFail)
        else and_then (utf8_field MT_AuthFail (byte_slice payload 2 (2 + reason_len))) (\<lambda>r.
             Inr (AuthFail r)))"

definition decode_register :: "u8 list \<Rightarrow> protocol_error + 'u message" where
  "decode_register payload =
     (if payload = [] then Inl (NoLengthField MT_Register)
      else let name_len = unat (payload ! 0) in
        if length payload < 1 + name_len + 1 + 2 + 2 then Inl (PayloadTooShort MT_Register)
        else and_then (utf8_field MT_Register (byte_slice payload 1 (1 + name_len))) (\<lambda>name.
             and_then (from_byte (payload ! (1 + name_len))) (\<lambda>proto.
             Inr (Register name proto (u16_at payload (2 + name_len)) (u16_at payload (4 + name_len))))))"

definition decode_register_ok :: "'u uuid_api \<Rightarrow> u8 list \<Rightarrow> protocol_error + 'u message" where
  "decode_register_ok U payload =
     (if length payload < 16 then Inl (PayloadTooShort MT_RegisterOk)
      else and_then (uuid_field U MT_RegisterOk (byte_slice payload 0 16)) (\<lambda>sid. Inr (RegisterOk sid)))"

definition decode_register_fail :: "u8 list \<Rightarrow> protocol_error + 'u message" where
  "decode_register_fail payload =
     (if length payload < 2 then Inl (NoLengthField MT_RegisterFail)
      else let reason_len = unat (u16_at payload 0) in
        if length payload < 2 + reason_len then Inl (PayloadTooShort MT_RegisterFail)
        else and_then (utf8_field MT_RegisterFail (byte_slice payload 2 (2 + reason_len))) (\<lambda>r.
             Inr (RegisterFail r)))"

definition decode_connect :: "'u uuid_api \<Rightarrow> u8 list \<Rightarrow> protocol_error + 'u message" where
  "decode_connect U payload =
     (if length payload < 16 + 16 + 2 then Inl (NoLengthField MT_Connect)
      else and_then (uuid_field U MT_Connect (byte_slice payload 0 16)) (\<lambda>sid.
           and_then (uuid_field U MT_Connect (byte_slice payload 16 32)) (\<lambda>cid.
           let addr_len = unat (u16_at payload 32) in
             if length payload < 34 + addr_len then Inl (PayloadTooShort MT_Connect)
             else and_then (utf8_field MT_Connect (byte_slice payload 34 (34 + addr_len))) (\<lambda>addr.
                  Inr (Connect sid cid addr)))))"

definition decode_connect_ack :: "'u uuid_api \<Rightarrow> u8 list \<Rightarrow> protocol_error + 'u message" where
  "decode_connect_ack U payload =
     (if length payload < 16 then Inl (PayloadTooShort MT_ConnectAck)
      else and_then (uuid_field U MT_ConnectAck (byte_slice payload 0 16)) (\<lambda>cid. Inr (ConnectAck cid)))"

definition decode_connect_fail :: "'u uuid_api \<Rightarrow> u8 list \<Rightarrow> protocol_error + 'u message" where
  "decode_connect_fail U payload =
     (if length payload < 16 + 2 then Inl (NoLengthField MT_ConnectFail)
      else and_then (uuid_field U MT_ConnectFail (byte_slice payload 0 16)) (\<lambda>cid.
           let reason_len = unat (u16_at payload 16) in
             if length payload < 18 + reason_len then Inl (PayloadTooShort MT_ConnectFail)
             else and_then (utf8_field MT_ConnectFail (byte_slice payload 18 (18 + reason_len))) (\<lambda>r.
                  Inr (ConnectFail cid r))))"

definition decode_heartbeat :: "u8 list \<Rightarrow> protocol_error + 'u message" where
  "decode_heartbeat payload =
     (if length payload < 8 then Inl (PayloadTooShort MT_Heartbeat)
      else Inr (Heartbeat (from_be_bytes (byte_slice payload 0 8))))"

definition decode_heartbeat_ack :: "u8 list \<Rightarrow> protocol_error + 'u message" where
  "decode_heartbeat_ack payload =
     (if length payload < 8 then Inl (PayloadTooShort MT_HeartbeatAck)
      else Inr (HeartbeatAck (from_be_bytes (byte_slice payload 0 8))))"

definition decode_unregister :: "'u uuid_api \<Rightarrow> u8 list \<Rightarrow> protocol_error + 'u message" where
  "decode_unregister U payload =
     (if length payload < 16 then Inl (PayloadTooShort MT_Unregister)
      else and_then (uuid_field U MT_Unregister (byte_slice payload 0 16)) (\<lambda>sid. Inr (Unregister sid)))"

definition decode_disconnect :: "u8 list \<Rightarrow> protocol_error + 'u message" where
  "decode_disconnect payload =
     (if length payload < 2 then Inl (NoLengthField MT_Disconnect)
      else let reason_len = unat (u16_at payload 0) in
        if length payload < 2 + reason_len then Inl (PayloadTooShort MT_Disconnect)
        else and_then (utf8_field MT_Disconnect (byte_slice payload 2 (2 + reason_len))) (\<lambda>r.
             Inr (Disconnect r)))"

fun decode_payload :: "'u uuid_api \<Rightarrow> msg_type \<Rightarrow> u8 list \<Rightarrow> protocol_error + 'u message" where
  "decode_payload U MT_Auth payload = decode_auth U payload"
| "decode_payload U MT_AuthOk payload = decode_auth_ok U payload"
| "decode_payload U MT_AuthFail payload = decode_auth_fail payload"
| "decode_payload U MT_Register payload = decode_register payload"
| "decode_payload U MT_RegisterOk payload = decode_register_ok U payload"
| "decode_payload U MT_RegisterFail payload = decode_register_fail payload"
| "decode_payload U MT_Connect payload = decode_connect U payload"
| "decode_payload U MT_ConnectAck payload = decode_connect_ack U payload"
| "decode_payload U MT_ConnectFail payload = decode_connect_fail U payload"
| "decode_payload U MT_Heartbeat payload = decode_heartbeat payload"
| "decode_payload U MT_HeartbeatAck payload = decode_heartbeat_ack payload"
| "decode_payload U MT_Unregister payload = decode_unregister U payload"
| "decode_payload U MT_Disconnect payload = decode_disconnect payload"

definition decode :: "'u uuid_api \<Rightarrow> u8 list \<Rightarrow> protocol_error + ('u message \<times> nat)" where
  "decode U bytes =
     (if length bytes < HEADER_SIZE then Inl (MessageTooShort (length bytes))
      else and_then (message_type_try_from (bytes ! 0)) (\<lambda>msg_type.
        let payload_len = unat (from_be_bytes [bytes ! 1, bytes ! 2, bytes ! 3, bytes ! 4] :: u32) in
        if payload_len > MAX_MESSAGE_SIZE - HEADER_SIZE then Inl (PayloadTooLarge payload_len)
        else let total_len = HEADER_SIZE + payload_len in
          if length bytes < total_len then Inl (IncompleteMessage (length bytes) total_len)
          else let payload = byte_slice bytes HEADER_SIZE total_len in
            and_then (decode_payload U msg_type payload) (\<lambda>message.
            Inr (message, total_len))))"

section \<open>Wire-level facts\<close>

lemma message_type_try_from_type_byte [simp]: "message_type_try_from (type_byte t) = Inr t"
  by (cases t) (simp_all add: message_type_try_from_def)

lemma message_type_try_from_Inr_iff: "message_type_try_from b = Inr t \<longleftrightarrow> b = type_byte t"
proof
  assume "message_type_try_from b = Inr t"
  then show "b = type_byte t"
    by (auto simp: message_type_try_from_def split: if_splits)
qed simp

lemma from_byte_to_byte [simp]: "from_byte (to_byte p) = Inr p"
  by (cases p) (simp_all add: from_byte_def)

lemma slice_at [wire_simps]:
  "length pre = i \<Longrightarrow> i + length mid = j \<Longrightarrow> byte_slice (pre @ mid @ post) i j = mid"
  "length pre = i \<Longrightarrow> i + length mid = j \<Longrightarrow> byte_slice (pre @ mid) i j = mid"
  by (auto simp: byte_slice_def)

lemma slice_start [wire_simps]:
  "length mid = j \<Longrightarrow> byte_slice (mid @ post) 0 j = mid"
  "length mid = j \<Longrightarrow> byte_slice mid 0 j = mid"
  by (auto simp: byte_slice_def)

lemma slice_deep [wire_simps]:
  "length a + length b = i \<Longrightarrow> i + length mid = j \<Longrightarrow> byte_slice (a @ b @ mid) i j = mid"
  "length a + length b + length c = i \<Longrightarrow> i + length mid = j \<Longrightarrow>
     byte_slice (a @ b @ c @ mid) i j = mid"
  using slice_at(2) [of "a @ b" i mid j] slice_at(2) [of "a @ b @ c" i mid j] by simp_all

lemma to_be_bytes_2: "to_be_bytes 2 w = [ucast (drop_bit 8 w), ucast w]"
  by (simp add: numeral_2_eq_2)

lemma u16_at_be [wire_simps]:
  "length pre = i \<Longrightarrow> u16_at (pre @ to_be_bytes 2 w @ post) i = w"
  "length pre = i \<Longrightarrow> u16_at (pre @ to_be_bytes 2 w) i = w"
  "u16_at (to_be_bytes 2 w @ post) 0 = w"
  using from_be_to_be_bytes_u16 [of w]
  by (auto simp: u16_at_def to_be_bytes_2 nth_append)

lemma unat_len_u16: "length s < 65536 \<Longrightarrow> unat (word_of_nat (length s) :: u16) = length s"
  by (simp add: unat_of_nat take_bit_nat_eq_self)

lemma unat_len_u8: "length s < 256 \<Longrightarrow> unat (word_of_nat (length s) :: u8) = length s"
  by (simp add: unat_of_nat take_bit_nat_eq_self)

lemma length_len_u16 [simp]: "length (len_u16 s) = 2"
  by (simp add: len_u16_def)

lemma len_u16_at [wire_simps]:
  "length pre = i \<Longrightarrow> length s < 65536 \<Longrightarrow> unat (u16_at (pre @ len_u16 s @ post) i) = length s"
  "length s < 65536 \<Longrightarrow> unat (u16_at (len_u16 s @ post) 0) = length s"
  "length a + length b = i \<Longrightarrow> length s < 65536 \<Longrightarrow>
     unat (u16_at (a @ b @ len_u16 s @ post) i) = length s"
  using u16_at_be(1) [of "a @ b" i "word_of_nat (length s)" post]
  by (simp_all add: len_u16_def u16_at_be unat_len_u16)

lemma utf8_field_as_bytes [simp]: "is_utf8 s \<Longrightarrow> utf8_field t (as_bytes s) = Inr s"
  by (simp add: utf8_field_def)

lemma utf8_field_InrD: "utf8_field t bs = Inr s \<Longrightarrow> length s = length bs"
  by (auto simp: utf8_field_def dest!: from_utf8_SomeD)

lemma uuid_field_as_bytes [simp]: "uuid_ok U \<Longrightarrow> uuid_field U t (uuid_as_bytes U u) = Inr u"
  by (simp add: uuid_field_def)

section \<open>Round trip of one payload\<close>

text \<open>
  \<open>text_ok\<close> is what the Rust type \<open>String\<close> guarantees; \<open>fits\<close> is what the wire format can carry:
  the payload within the message limit, and a service name within its one-byte length.
\<close>

fun text_of :: "'u message \<Rightarrow> string" where
  "text_of (Auth tok _) = tok"
| "text_of (AuthFail r) = r"
| "text_of (Register name _ _ _) = name"
| "text_of (RegisterFail r) = r"
| "text_of (Connect _ _ addr) = addr"
| "text_of (ConnectFail _ r) = r"
| "text_of (Disconnect r) = r"
| "text_of _ = []"

definition text_ok :: "'u message \<Rightarrow> bool" where
  "text_ok m = is_utf8 (text_of m)"

fun name_fits :: "'u message \<Rightarrow> bool" where
  "name_fits (Register name _ _ _) = (length name < 256)"
| "name_fits _ = True"

definition fits :: "'u uuid_api \<Rightarrow> 'u message \<Rightarrow> bool" where
  "fits U m \<longleftrightarrow> length (encode_payload U m) \<le> MAX_MESSAGE_SIZE - HEADER_SIZE \<and> name_fits m"

lemmas decoder_defs =
  decode_auth_def decode_auth_ok_def decode_auth_fail_def decode_register_def
  decode_register_ok_def decode_register_fail_def decode_connect_def decode_connect_ack_def
  decode_connect_fail_def decode_heartbeat_def decode_heartbeat_ack_def decode_unregister_def
  decode_disconnect_def

lemma register_roundtrip:
  assumes "is_utf8 name" and "length name < 256"
  shows "decode_register (encode_payload U (Register name p lp rp)) = Inr (Register name p lp rp)"
proof -
  let ?n = "word_of_nat (length name) :: u8"
  let ?pl = "encode_payload U (Register name p lp rp)"
  have hd: "?pl ! 0 = ?n" by simp
  have len: "unat ?n = length name" using assms(2) by (rule unat_len_u8)
  have nm: "byte_slice ?pl 1 (1 + length name) = as_bytes name"
    using slice_at(1) [of "[?n]" 1 "as_bytes name"] by simp
  have pr: "?pl ! (1 + length name) = to_byte p"
    by (simp add: nth_append)
  have l1: "u16_at ?pl (2 + length name) = lp"
    using u16_at_be(1) [of "[?n] @ as_bytes name @ [to_byte p]" "2 + length name" lp] by simp
  have l2: "u16_at ?pl (4 + length name) = rp"
    using u16_at_be(2) [of "[?n] @ as_bytes name @ [to_byte p] @ to_be_bytes 2 lp" "4 + length name" rp]
    by simp
  have "length ?pl = 6 + length name" "?pl \<noteq> []" by simp_all
  then show ?thesis
    unfolding decode_register_def Let_def hd len nm pr l1 l2
    using assms(1) by simp
qed

lemma payload_roundtrip:
  assumes "uuid_ok U" and "text_ok m" and "fits U m"
  shows "decode_payload U (message_type m) (encode_payload U m) = Inr m"
  using assms
  by (cases m)
     (simp_all add: register_roundtrip text_ok_def fits_def MAX_MESSAGE_SIZE_def HEADER_SIZE_def del: encode_payload.simps(4),
      simp_all add: decoder_defs wire_simps Let_def)

section \<open>Properties of the codec\<close>

lemma nth_append_be4:
  "bytes = b # to_be_bytes 4 w @ rest \<Longrightarrow> from_be_bytes [bytes ! 1, bytes ! 2, bytes ! 3, bytes ! 4] = w"
  for w :: u32
  using from_be_to_be_bytes_u32 [of w] by (simp add: eval_nat_numeral)

lemma decode_frame:
  assumes "length payload < 2 ^ 32"
  shows "decode U (type_byte t # to_be_bytes 4 (word_of_nat (length payload) :: u32) @ payload @ rest) =
    (if length payload > MAX_MESSAGE_SIZE - HEADER_SIZE then Inl (PayloadTooLarge (length payload))
     else and_then (decode_payload U t payload) (\<lambda>m. Inr (m, HEADER_SIZE + length payload)))"
proof -
  let ?w = "word_of_nat (length payload) :: u32"
  have len: "unat ?w = length payload"
    using assms by (simp add: unat_of_nat take_bit_nat_eq_self)
  have pl: "byte_slice (type_byte t # to_be_bytes 4 ?w @ payload @ rest) 5 (5 + length payload) = payload"
    using slice_at(1) [of "type_byte t # to_be_bytes 4 ?w" 5 payload] by simp
  show ?thesis
    unfolding decode_def Let_def nth_append_be4 [OF refl, of "type_byte t" ?w] len HEADER_SIZE_def pl
    by simp
qed

lemma decode_frame_encode:
  assumes "uuid_ok U" and "text_ok m" and "fits U m"
  shows "decode U (encode U m @ rest) = Inr (m, length (encode U m))"
proof -
  have len: "length (encode_payload U m) \<le> 65531"
    using assms(3) by (simp add: fits_def MAX_MESSAGE_SIZE_def HEADER_SIZE_def)
  have "encode U m @ rest =
      type_byte (message_type m) # to_be_bytes 4 (word_of_nat (length (encode_payload U m)) :: u32) @
      encode_payload U m @ rest"
    by (simp add: encode_def Let_def)
  moreover have "length (encode U m) = HEADER_SIZE + length (encode_payload U m)"
    by (simp add: encode_def Let_def HEADER_SIZE_def)
  ultimately show ?thesis
    using decode_frame [of "encode_payload U m" U "message_type m" rest] len payload_roundtrip [OF assms]
    by (simp add: MAX_MESSAGE_SIZE_def HEADER_SIZE_def)
qed

text \<open>
  C12. Round trip on a stream: for every message that the wire format can carry, decoding its
  encoding, followed by any further bytes, gives the message back and consumes exactly the
  encoding.
\<close>

theorem decode_encode:
  assumes "uuid_ok U" and "text_ok m" and "fits U m"
  shows "decode U (encode U m @ rest) = Inr (m, length (encode U m))"
  using assms by (rule decode_frame_encode)

definition sample_uuid_api :: "u8 uuid_api" where
  "sample_uuid_api =
     \<lparr> uuid_as_bytes = (\<lambda>b. replicate 15 0 @ [b]),
       uuid_from_slice = (\<lambda>bs. if length bs = 16 then Some (last bs) else None) \<rparr>"

lemma sample_uuid_ok: "uuid_ok sample_uuid_api"
  by (simp add: uuid_ok_def sample_uuid_api_def)

theorem decode_encode_witness:
  "decode sample_uuid_api (encode sample_uuid_api (Auth ''tun_abc'' 7) @ [1, 2])
     = Inr (Auth ''tun_abc'' 7, length (encode sample_uuid_api (Auth ''tun_abc'' 7)))"
proof (rule decode_encode [OF sample_uuid_ok])
  show "text_ok (Auth ''tun_abc'' (7 :: u8))"
    by (simp add: text_ok_def is_utf8_def as_bytes_def byte_of_char_def)
  show "fits sample_uuid_api (Auth ''tun_abc'' 7)"
    by (simp add: fits_def MAX_MESSAGE_SIZE_def HEADER_SIZE_def len_u16_def as_bytes_def sample_uuid_api_def)
qed

lemma length_byte_slice_le: "length (byte_slice bs i j) \<le> j - i"
  by (simp add: byte_slice_def)

lemma utf8_slice_bound:
  "utf8_field t (byte_slice bs i j) = Inr s \<Longrightarrow> length s \<le> j - i"
  using length_byte_slice_le [of bs i j] by (auto dest: utf8_field_InrD)

lemma unat_u16_bound: "unat w < 65536" for w :: u16
  using unat_bound [of w] by simp

lemma unat_u8_bound: "unat w < 256" for w :: u8
  using unat_bound [of w] by simp

lemma decode_payload_text:
  assumes "decode_payload U t pl = Inr m"
  shows "length (text_of m) < 65536 \<and> name_fits m"
proof -
  have u16: "utf8_field t' (byte_slice pl i (i + unat (u16_at pl j))) = Inr s \<Longrightarrow> length s < 65536"
    for t' i j s
    using utf8_slice_bound [of t' pl i "i + unat (u16_at pl j)" s] unat_u16_bound [of "u16_at pl j"] by simp
  have u8: "utf8_field t' (byte_slice pl 1 (1 + unat (pl ! 0))) = Inr s \<Longrightarrow> length s < 256" for t' s
    using utf8_slice_bound [of t' pl 1 "1 + unat (pl ! 0)" s] unat_u8_bound [of "pl ! 0"] by simp
  show ?thesis
    using assms
    by (cases t) (auto simp: decoder_defs Let_def and_then_Inr_iff split: if_splits
        dest!: u16 u16 [of _ 2, simplified] dest: u8 [simplified])
qed

lemma decode_InrD:
  assumes "decode U bs = Inr (m, n)"
  obtains t pl where "decode_payload U t pl = Inr m" and "length pl = n - HEADER_SIZE"
    and "HEADER_SIZE \<le> n" and "n \<le> MAX_MESSAGE_SIZE" and "n \<le> length bs"
  using assms
  by (auto simp: decode_def Let_def and_then_Inr_iff HEADER_SIZE_def MAX_MESSAGE_SIZE_def
      byte_slice_def split: if_splits)

lemma length_encode_payload_le: "uuid_ok U \<Longrightarrow> length (encode_payload U m) \<le> length (text_of m) + 34"
  by (cases m) simp_all

text \<open>
  The carried messages are exactly those that fit: a message whose text is well-formed is
  recovered from its own encoding if and only if its payload is within
  \<open>MAX_MESSAGE_SIZE - HEADER_SIZE\<close> bytes and its service name, if it has one, is shorter than
  256 bytes. Beyond these bounds the truncating length casts of \<open>encode\<close> never yield the same
  message again.
\<close>

theorem decode_encode_iff_fits:
  assumes "uuid_ok U" and "text_ok m"
  shows "(\<exists>n. decode U (encode U m) = Inr (m, n)) \<longleftrightarrow> fits U m"
proof
  assume "fits U m"
  with assms show "\<exists>n. decode U (encode U m) = Inr (m, n)"
    using decode_frame_encode [of U m "[]"] by simp
next
  assume "\<exists>n. decode U (encode U m) = Inr (m, n)"
  then obtain n where dec: "decode U (encode U m) = Inr (m, n)" ..
  then have short: "length (text_of m) < 65536" and nm: "name_fits m"
    by (auto elim: decode_InrD dest: decode_payload_text)
  then have "length (encode_payload U m) < 2 ^ 32"
    using length_encode_payload_le [OF assms(1), of m] by simp
  from decode_frame [OF this, of U "message_type m" "[]"] dec
  have "length (encode_payload U m) \<le> MAX_MESSAGE_SIZE - HEADER_SIZE"
    by (simp add: encode_def Let_def split: if_splits)
  with nm show "fits U m" by (simp add: fits_def)
qed

theorem decode_encode_iff_fits_witness:
  "(\<exists>n. decode sample_uuid_api (encode sample_uuid_api (Register (replicate 256 CHR ''a'') Tcp 80 0))
        = Inr (Register (replicate 256 CHR ''a'') Tcp 80 0, n)) = False"
proof -
  have "utf8_wf (replicate k (byte_of_char CHR ''a''))" for k
    by (induction k) (simp_all add: byte_of_char_def)
  then have "text_ok (Register (replicate 256 CHR ''a'') Tcp 80 0 :: u8 message)"
    by (simp add: text_ok_def is_utf8_def as_bytes_def)
  from decode_encode_iff_fits [OF sample_uuid_ok this] show ?thesis
    by (simp add: fits_def)
qed

lemma byte_slice_take:
  "5 \<le> n \<Longrightarrow> n \<le> length bs \<Longrightarrow> k \<le> n \<Longrightarrow> byte_slice (take n bs @ rest) 5 k = byte_slice bs 5 k"
  by (simp add: byte_slice_def drop_take min_def)

lemma decode_prefix:
  assumes "decode U bs = Inr (m, n)"
  shows "decode U (take n bs @ rest) = Inr (m, n)"
proof -
  have n: "5 \<le> n" "n \<le> length bs"
    using assms by (auto elim!: decode_InrD simp: HEADER_SIZE_def)
  have hd: "(take n bs @ rest) ! i = bs ! i" if "i < 5" for i
    using n that by (simp add: nth_append)
  from assms show ?thesis
    using n by (auto simp: decode_def Let_def and_then_Inr_iff hd byte_slice_take HEADER_SIZE_def split: if_splits)
qed


lemma sample_heartbeat:
  "decode sample_uuid_api [0x30, 0, 0, 0, 8, 0, 0, 0, 0, 0, 0, 1, 2, 9] = Inr (Heartbeat 258, 13)"
  by (simp add: decode_def message_type_try_from_def decode_heartbeat_def byte_slice_def
      from_be_bytes_def HEADER_SIZE_def MAX_MESSAGE_SIZE_def Let_def)


text \<open>
  Incomplete input is reported as such: every proper prefix of the encoding of a message the
  wire format can carry is rejected, as too short below the header and as incomplete, with the
  number of bytes at hand and the number needed, from there on. A receiver that buffers more
  bytes on these errors therefore never loses a message.
\<close>

theorem decode_incomplete:
  assumes "uuid_ok U" and "fits U m" and "k < length (encode U m)"
  shows "decode U (take k (encode U m)) =
    Inl (if k < HEADER_SIZE then MessageTooShort k else IncompleteMessage k (length (encode U m)))"
proof -
  let ?w = "word_of_nat (length (encode_payload U m)) :: u32"
  have pl: "length (encode_payload U m) \<le> 65531"
    using assms(2) by (simp add: fits_def MAX_MESSAGE_SIZE_def HEADER_SIZE_def)
  have len: "unat ?w = length (encode_payload U m)"
    using pl by (simp add: unat_of_nat take_bit_nat_eq_self)
  have enc: "encode U m = type_byte (message_type m) # to_be_bytes 4 ?w @ encode_payload U m"
    by (simp add: encode_def Let_def)
  have tot: "length (encode U m) = 5 + length (encode_payload U m)"
    by (simp add: enc)
  show ?thesis
  proof (cases "k < 5")
    case True
    with assms(3) show ?thesis by (simp add: decode_def HEADER_SIZE_def)
  next
    case False
    then have nth: "take k (encode U m) ! i = encode U m ! i" if "i < 5" for i
      using that by simp
    from False assms(3) have lk: "length (take k (encode U m)) = k" by simp
    have ty: "encode U m ! 0 = type_byte (message_type m)" by (simp add: enc)
    show ?thesis
      using False assms(3) pl tot len nth_append_be4 [OF enc]
      unfolding decode_def lk Let_def HEADER_SIZE_def
      by (simp add: nth ty MAX_MESSAGE_SIZE_def)
  qed
qed

theorem decode_incomplete_witness:
  "decode sample_uuid_api (take 7 (encode sample_uuid_api (Heartbeat 1))) = Inl (IncompleteMessage 7 13)"
proof -
  have "fits sample_uuid_api (Heartbeat 1)"
    by (simp add: fits_def MAX_MESSAGE_SIZE_def HEADER_SIZE_def)
  moreover have "length (encode sample_uuid_api (Heartbeat 1)) = 13"
    by (simp add: encode_def Let_def)
  ultimately show ?thesis
    using decode_incomplete [OF sample_uuid_ok, of "Heartbeat 1" 7] by (simp add: HEADER_SIZE_def)
qed

end
