(* ===== verification/Pool_Contract.thy ===== *)
theory Pool_Contract
  imports Prelude
begin

text \<open>
  The contract of a pool of identifiers: something that hands out ports or addresses, either the
  next free one or a requested one, and takes them back. Two components provide it, the port pool
  of the tunnel registry and the IP allocator of the overlay; their clients rely on the
  exclusiveness proved here once, for any sequence of calls.
\<close>

section \<open>Calls and what a client observes of them\<close>

datatype 'r pool_op = Alloc | Take 'r | Release 'r

datatype 'r pool_event = Got 'r | Freed 'r | Refused

fun pool_step ::
  "('s \<Rightarrow> ('r \<times> 's) option) \<Rightarrow> ('r \<Rightarrow> 's \<Rightarrow> 's option) \<Rightarrow> ('r \<Rightarrow> 's \<Rightarrow> 's) \<Rightarrow>
   's \<Rightarrow> 'r pool_op \<Rightarrow> 'r pool_event \<times> 's" where
  "pool_step alloc take_r rel s Alloc =
     (case alloc s of None \<Rightarrow> (Refused, s) | Some (r, s') \<Rightarrow> (Got r, s'))"
| "pool_step alloc take_r rel s (Take r) =
     (case take_r r s of None \<Rightarrow> (Refused, s) | Some s' \<Rightarrow> (Got r, s'))"
| "pool_step alloc take_r rel s (Release r) = (Freed r, rel r s)"

fun pool_run ::
  "('s \<Rightarrow> ('r \<times> 's) option) \<Rightarrow> ('r \<Rightarrow> 's \<Rightarrow> 's option) \<Rightarrow> ('r \<Rightarrow> 's \<Rightarrow> 's) \<Rightarrow>
   's \<Rightarrow> 'r pool_op list \<Rightarrow> 'r pool_event list \<times> 's" where
  "pool_run alloc take_r rel s [] = ([], s)"
| "pool_run alloc take_r rel s (a # ops) =
     (let (e, s') = pool_step alloc take_r rel s a;
          (es, t) = pool_run alloc take_r rel s' ops
      in (e # es, t))"

text \<open>
  \<open>exclusive H es\<close>: starting with the identifiers \<open>H\<close> in use, no event of \<open>es\<close> hands out an
  identifier that is in use at that point. \<open>held H es\<close> is what is in use after \<open>es\<close>.
\<close>

fun after_event :: "'r set \<Rightarrow> 'r pool_event \<Rightarrow> 'r set" where
  "after_event H (Got r) = insert r H"
| "after_event H (Freed r) = H - {r}"
| "after_event H Refused = H"

fun event_ok :: "'r set \<Rightarrow> 'r pool_event \<Rightarrow> bool" where
  "event_ok H (Got r) = (r \<notin> H)"
| "event_ok H _ = True"

fun exclusive :: "'r set \<Rightarrow> 'r pool_event list \<Rightarrow> bool" where
  "exclusive H [] = True"
| "exclusive H (e # es) = (event_ok H e \<and> exclusive (after_event H e) es)"

definition held :: "'r set \<Rightarrow> 'r pool_event list \<Rightarrow> 'r set" where
  "held H es = foldl after_event H es"

section \<open>The contract\<close>

locale pool =
  fixes used :: "'s \<Rightarrow> 'r set"
    and eligible :: "'s \<Rightarrow> 'r set"
    and in_range :: "'s \<Rightarrow> 'r set"
    and alloc :: "'s \<Rightarrow> ('r \<times> 's) option"
    and take_r :: "'r \<Rightarrow> 's \<Rightarrow> 's option"
    and rel :: "'r \<Rightarrow> 's \<Rightarrow> 's"
  assumes alloc_Some: "alloc s = Some (r, s') \<Longrightarrow>
      r \<in> eligible s \<and> r \<notin> used s \<and> used s' = insert r (used s) \<and>
      eligible s' = eligible s \<and> in_range s' = in_range s"
    and alloc_None: "alloc s = None \<Longrightarrow> eligible s \<subseteq> used s"
    and take_Some: "take_r r s = Some s' \<Longrightarrow>
      r \<in> in_range s \<and> r \<notin> used s \<and> used s' = insert r (used s) \<and>
      eligible s' = eligible s \<and> in_range s' = in_range s"
    and take_None: "take_r r s = None \<Longrightarrow> r \<notin> in_range s \<or> r \<in> used s"
    and rel_used: "used (rel r s) = used s - {r}"
    and rel_ranges: "eligible (rel r s) = eligible s" "in_range (rel r s) = in_range s"
begin

lemma alloc_iff: "(\<exists>r s'. alloc s = Some (r, s')) \<longleftrightarrow> \<not> eligible s \<subseteq> used s"
  using alloc_None [of s] alloc_Some [of s] by (cases "alloc s") auto

lemma take_iff: "(\<exists>s'. take_r r s = Some s') \<longleftrightarrow> r \<in> in_range s \<and> r \<notin> used s"
  using take_None [of r s] take_Some [of r s] by (cases "take_r r s") auto

lemma step_event:
  assumes "pool_step alloc take_r rel s a = (e, s')"
  shows "event_ok (used s) e \<and> used s' = after_event (used s) e \<and>
    eligible s' = eligible s \<and> in_range s' = in_range s"
  using assms alloc_Some [of s] take_Some [of _ s]
  by (cases a) (auto simp: rel_used rel_ranges split: option.splits)

lemma step_in_range:
  assumes "pool_step alloc take_r rel s a = (e, s')" and "used s \<subseteq> in_range s \<union> eligible s"
  shows "used s' \<subseteq> in_range s \<union> eligible s"
  using assms alloc_Some [of s] take_Some [of _ s]
  by (cases a) (auto simp: rel_used split: option.splits)

lemma run_exclusive:
  assumes "pool_run alloc take_r rel s ops = (es, t)"
  shows "exclusive (used s) es \<and> used t = held (used s) es"
  using assms
proof (induction ops arbitrary: s es)
  case Nil
  then show ?case by (simp add: held_def)
next
  case (Cons a ops)
  obtain e s' where st: "pool_step alloc take_r rel s a = (e, s')"
    by (cases "pool_step alloc take_r rel s a")
  with Cons.prems obtain es' where "es = e # es'" "pool_run alloc take_r rel s' ops = (es', t)"
    by (auto split: prod.splits)
  with Cons.IH [of s' es'] step_event [OF st] show ?case by (simp add: held_def)
qed

lemma run_in_range:
  assumes "pool_run alloc take_r rel s ops = (es, t)" and "used s \<subseteq> in_range s \<union> eligible s"
  shows "used t \<subseteq> in_range s \<union> eligible s"
  using assms
proof (induction ops arbitrary: s es)
  case Nil
  then show ?case by simp
next
  case (Cons a ops)
  obtain e s' where st: "pool_step alloc take_r rel s a = (e, s')"
    by (cases "pool_step alloc take_r rel s a")
  with Cons.prems(1) obtain es' where "pool_run alloc take_r rel s' ops = (es', t)"
    by (auto split: prod.splits)
  with Cons.IH [of s' es'] step_in_range [OF st Cons.prems(2)] step_event [OF st] show ?case by simp
qed

end

end
