(* ===== verification/Tunnel_Registry.thy ===== *)
theory Tunnel_Registry
  imports Tunnel_Protocol Pool_Contract
begin

text \<open>
  The registry of active tunnels on the tunnel server, from
  \<open>crates/zlayer-tunnel/src/server/registry.rs\<close>: tunnels and their services, the lookup tables by
  token and by port, and the pool of ports. Each public method is one atomic operation on the
  registry's state.

  Parameters stand for what the code draws from outside: \<open>Uuid::new_v4\<close> gives the new identifier
  an operation takes, and \<open>Instant::now\<close> the current time in nanoseconds. The control channel of
  a tunnel is not part of the state; \<open>cleanup_stale\<close> returns the messages it tries to send.
\<close>

section \<open>Data\<close>

type_synonym instant = nat
type_synonym duration = nat

record 'u tunnel_service =
  svc_id :: 'u
  svc_name :: string
  svc_protocol :: service_protocol
  svc_local_port :: u16
  svc_remote_port :: u16
  assigned_port :: "u16 option"
  active_connections :: u64

record 'u tunnel =
  tun_id :: 'u
  token_hash :: string
  tun_name :: "string option"
  services :: "('u, 'u tunnel_service) hmap"
  connected_at :: instant
  last_activity :: instant
  tun_client_addr :: "socket_addr option"

record port_pool =
  range_start :: u16
  range_end :: u16
  used_ports :: "u16 set"

record 'u tunnel_registry =
  tunnels :: "('u, 'u tunnel) hmap"
  tunnels_by_token :: "(string, 'u) hmap"
  services_by_port :: "(u16, 'u \<times> 'u) hmap"
  port_pool :: port_pool

datatype registry_error =
    TokenAlreadyRegistered
  | TunnelNotFound
  | ServiceNotFound
  | NoPortsAvailable
  | PortNotAvailable u16

datatype 'u control_message =
    CtlConnect 'u 'u socket_addr
  | CtlHeartbeat u64
  | CtlDisconnect string

record 'u tunnel_info =
  info_id :: 'u
  info_name :: "string option"
  info_connected_at :: instant
  info_last_activity :: instant
  info_service_count :: nat
  info_client_addr :: "socket_addr option"

section \<open>Services and tunnels\<close>

definition tunnel_service_new ::
  "'u \<Rightarrow> string \<Rightarrow> service_protocol \<Rightarrow> u16 \<Rightarrow> u16 \<Rightarrow> 'u tunnel_service" where
  "tunnel_service_new new_id name protocol local_port remote_port =
     \<lparr> svc_id = new_id, svc_name = name, svc_protocol = protocol, svc_local_port = local_port,
       svc_remote_port = remote_port, assigned_port = None, active_connections = 0 \<rparr>"

definition increment_connections :: "'u tunnel_service \<Rightarrow> 'u tunnel_service" where
  "increment_connections s = s\<lparr>active_connections := active_connections s + 1\<rparr>"

definition decrement_connections :: "'u tunnel_service \<Rightarrow> 'u tunnel_service" where
  "decrement_connections s = s\<lparr>active_connections := active_connections s - 1\<rparr>"

definition tunnel_new ::
  "'u \<Rightarrow> instant \<Rightarrow> string \<Rightarrow> string option \<Rightarrow> socket_addr option \<Rightarrow> 'u tunnel" where
  "tunnel_new new_id now hash name addr =
     \<lparr> tun_id = new_id, token_hash = hash, tun_name = name, services = [],
       connected_at = now, last_activity = now, tun_client_addr = addr \<rparr>"

definition touch :: "instant \<Rightarrow> 'u tunnel \<Rightarrow> 'u tunnel" where
  "touch now t = t\<lparr>last_activity := now\<rparr>"

definition is_idle_for :: "instant \<Rightarrow> duration \<Rightarrow> 'u tunnel \<Rightarrow> bool" where
  "is_idle_for now d t \<longleftrightarrow> now - last_activity t > d"

definition tunnel_info_from :: "'u tunnel \<Rightarrow> 'u tunnel_info" where
  "tunnel_info_from t =
     \<lparr> info_id = tun_id t, info_name = tun_name t, info_connected_at = connected_at t,
       info_last_activity = last_activity t, info_service_count = length (services t),
       info_client_addr = tun_client_addr t \<rparr>"

section \<open>The port pool\<close>

definition port_pool_new :: "u16 \<Rightarrow> u16 \<Rightarrow> port_pool" where
  "port_pool_new start stop = \<lparr> range_start = start, range_end = stop, used_ports = {} \<rparr>"

definition ports :: "port_pool \<Rightarrow> u16 list" where
  "ports p = map word_of_nat [unat (range_start p) ..< Suc (unat (range_end p))]"

definition pool_allocate :: "port_pool \<Rightarrow> (u16 \<times> port_pool) option" where
  "pool_allocate p =
     (case find (\<lambda>port. port \<notin> used_ports p) (ports p) of
        Some port \<Rightarrow> Some (port, p\<lparr>used_ports := insert port (used_ports p)\<rparr>)
      | None \<Rightarrow> None)"

definition pool_allocate_specific :: "u16 \<Rightarrow> port_pool \<Rightarrow> port_pool option" where
  "pool_allocate_specific port p =
     (if port < range_start p \<or> port > range_end p then None
      else if port \<in> used_ports p then None
      else Some (p\<lparr>used_ports := insert port (used_ports p)\<rparr>))"

definition pool_release :: "u16 \<Rightarrow> port_pool \<Rightarrow> port_pool" where
  "pool_release port p = p\<lparr>used_ports := used_ports p - {port}\<rparr>"

definition pool_is_available :: "u16 \<Rightarrow> port_pool \<Rightarrow> bool" where
  "pool_is_available port p \<longleftrightarrow>
     port \<ge> range_start p \<and> port \<le> range_end p \<and> port \<notin> used_ports p"

text \<open>The subtraction and the increment are computed in 16 bits, before the widening cast.\<close>

definition pool_available_count :: "port_pool \<Rightarrow> nat" where
  "pool_available_count p =
     unat (range_end p - range_start p + 1) - card (used_ports p)"

section \<open>Registry operations\<close>

definition registry_new :: "u16 \<times> u16 \<Rightarrow> 'u tunnel_registry" where
  "registry_new port_range =
     \<lparr> tunnels = [], tunnels_by_token = [], services_by_port = [],
       port_pool = port_pool_new (fst port_range) (snd port_range) \<rparr>"

definition get_tunnel :: "'u tunnel_registry \<Rightarrow> 'u \<Rightarrow> 'u tunnel option" where
  "get_tunnel r i = hm_get (tunnels r) i"

definition get_tunnel_by_token :: "'u tunnel_registry \<Rightarrow> string \<Rightarrow> 'u tunnel option" where
  "get_tunnel_by_token r h =
     (case hm_get (tunnels_by_token r) h of None \<Rightarrow> None | Some i \<Rightarrow> get_tunnel r i)"

definition token_exists :: "'u tunnel_registry \<Rightarrow> string \<Rightarrow> bool" where
  "token_exists r h \<longleftrightarrow> hm_get (tunnels_by_token r) h \<noteq> None"

definition register_tunnel ::
  "'u \<Rightarrow> instant \<Rightarrow> string \<Rightarrow> string option \<Rightarrow> socket_addr option \<Rightarrow> 'u tunnel_registry \<Rightarrow>
   registry_error + ('u tunnel \<times> 'u tunnel_registry)" where
  "register_tunnel new_id now hash name addr r =
     (if hm_get (tunnels_by_token r) hash \<noteq> None then Inl TokenAlreadyRegistered
      else let t = tunnel_new new_id now hash name addr in
        Inr (t, r\<lparr>tunnels_by_token := hm_insert hash (tun_id t) (tunnels_by_token r),
                  tunnels := hm_insert (tun_id t) t (tunnels r)\<rparr>))"

fun release_services ::
  "'u tunnel_service list \<Rightarrow> (u16, 'u \<times> 'u) hmap \<times> port_pool \<Rightarrow> (u16, 'u \<times> 'u) hmap \<times> port_pool" where
  "release_services [] (sbp, pp) = (sbp, pp)"
| "release_services (v # vs) (sbp, pp) =
     (case assigned_port v of
        None \<Rightarrow> release_services vs (sbp, pp)
      | Some port \<Rightarrow> release_services vs (hm_remove port sbp, pool_release port pp))"

definition unregister_tunnel ::
  "'u \<Rightarrow> 'u tunnel_registry \<Rightarrow> 'u tunnel option \<times> 'u tunnel_registry" where
  "unregister_tunnel i r =
     (case hm_get (tunnels r) i of
        None \<Rightarrow> (None, r)
      | Some t \<Rightarrow>
          let (sbp, pp) = release_services (map snd (services t)) (services_by_port r, port_pool r) in
          (Some t, r\<lparr>tunnels := hm_remove i (tunnels r),
                     tunnels_by_token := hm_remove (token_hash t) (tunnels_by_token r),
                     services_by_port := sbp, port_pool := pp\<rparr>))"

definition assign_port :: "u16 \<Rightarrow> port_pool \<Rightarrow> registry_error + (u16 \<times> port_pool)" where
  "assign_port remote_port p =
     (if remote_port = 0 then ok_or (pool_allocate p) NoPortsAvailable
      else case pool_allocate_specific remote_port p of
             None \<Rightarrow> Inl (PortNotAvailable remote_port)
           | Some p' \<Rightarrow> Inr (remote_port, p'))"

definition add_service ::
  "'u \<Rightarrow> 'u \<Rightarrow> string \<Rightarrow> service_protocol \<Rightarrow> u16 \<Rightarrow> u16 \<Rightarrow> 'u tunnel_registry \<Rightarrow>
   registry_error + ('u tunnel_service \<times> 'u tunnel_registry)" where
  "add_service new_id i name protocol local_port remote_port r =
     and_then (ok_or (get_tunnel r i) TunnelNotFound) (\<lambda>t.
       let service = tunnel_service_new new_id name protocol local_port remote_port in
       and_then (assign_port remote_port (port_pool r)) (\<lambda>(port, pp).
         let service = service\<lparr>assigned_port := Some port\<rparr> in
         Inr (service,
              r\<lparr>port_pool := pp,
                services_by_port := hm_insert port (i, svc_id service) (services_by_port r),
                tunnels := hm_insert i (t\<lparr>services := hm_insert (svc_id service) service (services t)\<rparr>)
                  (tunnels r)\<rparr>)))"

definition remove_service ::
  "'u \<Rightarrow> 'u \<Rightarrow> 'u tunnel_registry \<Rightarrow> registry_error + ('u tunnel_service \<times> 'u tunnel_registry)" where
  "remove_service i sid r =
     and_then (ok_or (get_tunnel r i) TunnelNotFound) (\<lambda>t.
     and_then (ok_or (hm_get (services t) sid) ServiceNotFound) (\<lambda>service.
       let r' = r\<lparr>tunnels := hm_insert i (t\<lparr>services := hm_remove sid (services t)\<rparr>) (tunnels r)\<rparr> in
       Inr (service,
            case assigned_port service of
              None \<Rightarrow> r'
            | Some port \<Rightarrow> r'\<lparr>services_by_port := hm_remove port (services_by_port r),
                             port_pool := pool_release port (port_pool r)\<rparr>)))"

definition get_service_by_port ::
  "'u tunnel_registry \<Rightarrow> u16 \<Rightarrow> ('u tunnel \<times> 'u tunnel_service) option" where
  "get_service_by_port r port =
     (case hm_get (services_by_port r) port of
        None \<Rightarrow> None
      | Some (i, sid) \<Rightarrow>
          (case get_tunnel r i of
             None \<Rightarrow> None
           | Some t \<Rightarrow> (case hm_get (services t) sid of None \<Rightarrow> None | Some s \<Rightarrow> Some (t, s))))"

definition list_tunnels :: "'u tunnel_registry \<Rightarrow> 'u tunnel_info list" where
  "list_tunnels r = map (\<lambda>(_, t). tunnel_info_from t) (tunnels r)"

definition tunnel_count :: "'u tunnel_registry \<Rightarrow> nat" where
  "tunnel_count r = length (tunnels r)"

definition service_count :: "'u tunnel_registry \<Rightarrow> nat" where
  "service_count r = sum_list (map (\<lambda>(_, t). length (services t)) (tunnels r))"

definition touch_tunnel :: "instant \<Rightarrow> 'u \<Rightarrow> 'u tunnel_registry \<Rightarrow> 'u tunnel_registry" where
  "touch_tunnel now i r =
     (case get_tunnel r i of
        None \<Rightarrow> r
      | Some t \<Rightarrow> r\<lparr>tunnels := hm_insert i (touch now t) (tunnels r)\<rparr>)"

fun unregister_all ::
  "'u list \<Rightarrow> 'u tunnel_registry \<Rightarrow> ('u \<times> 'u control_message) list \<times> 'u tunnel_registry" where
  "unregister_all [] r = ([], r)"
| "unregister_all (i # is) r =
     (case unregister_tunnel i r of
        (None, r') \<Rightarrow> unregister_all is r'
      | (Some t, r') \<Rightarrow>
          let (sent, r'') = unregister_all is r' in
          ((tun_id t, CtlDisconnect ''idle timeout'') # sent, r''))"

definition cleanup_stale ::
  "instant \<Rightarrow> duration \<Rightarrow> 'u tunnel_registry \<Rightarrow>
   'u list \<times> ('u \<times> 'u control_message) list \<times> 'u tunnel_registry" where
  "cleanup_stale now max_idle r =
     (let stale_ids = map fst (filter (\<lambda>(_, t). is_idle_for now max_idle t) (tunnels r));
          (sent, r') = unregister_all stale_ids r
      in (stale_ids, sent, r'))"

definition available_ports :: "'u tunnel_registry \<Rightarrow> nat" where
  "available_ports r = pool_available_count (port_pool r)"

definition is_port_available :: "'u tunnel_registry \<Rightarrow> u16 \<Rightarrow> bool" where
  "is_port_available r port = pool_is_available port (port_pool r)"

section \<open>The port pool keeps the pool contract\<close>

lemma set_ports: "set (ports p) = {q. range_start p \<le> q \<and> q \<le> range_end p}"
proof (rule set_eqI)
  fix q
  have "q \<in> set (ports p)" if "range_start p \<le> q" "q \<le> range_end p"
    using that unfolding ports_def set_map set_upt image_iff
    by (intro bexI [of _ "unat q"]) (simp_all add: word_le_nat_alt)
  moreover have "range_start p \<le> q \<and> q \<le> range_end p" if "q \<in> set (ports p)"
  proof -
    from that obtain n where n: "q = word_of_nat n" "unat (range_start p) \<le> n" "n \<le> unat (range_end p)"
      by (auto simp: ports_def)
    then have "unat q = n"
      using unat_u16_bound [of "range_end p"] by (simp add: unat_of_nat take_bit_nat_eq_self)
    with n show ?thesis by (simp add: word_le_nat_alt)
  qed
  ultimately show "q \<in> set (ports p) \<longleftrightarrow> q \<in> {q. range_start p \<le> q \<and> q \<le> range_end p}" by blast
qed

lemma ports_upd [simp]: "ports (p\<lparr>used_ports := U\<rparr>) = ports p"
  by (simp add: ports_def)

lemma ports_pool_release [simp]: "ports (pool_release q p) = ports p"
  by (simp add: pool_release_def)

lemma used_ports_pool_release [simp]: "used_ports (pool_release q p) = used_ports p - {q}"
  by (simp add: pool_release_def)

interpretation pp: pool used_ports "\<lambda>p. set (ports p)" "\<lambda>p. set (ports p)"
  pool_allocate pool_allocate_specific pool_release
proof (unfold_locales, goal_cases)
  case (1 s r s')
  then show ?case
    by (auto simp: pool_allocate_def find_Some_iff split: option.splits)
next
  case (2 s)
  then show ?case
    by (auto simp: pool_allocate_def find_None_iff split: option.splits)
next
  case (3 r s s')
  then show ?case
    by (auto simp: pool_allocate_specific_def set_ports split: if_splits)
next
  case (4 r s)
  then show ?case
    by (auto simp: pool_allocate_specific_def set_ports split: if_splits)
qed (simp_all add: pool_release_def)

lemma card_ports:
  "card (set (ports p)) = Suc (unat (range_end p)) - unat (range_start p)"
proof -
  have "inj_on (word_of_nat :: nat \<Rightarrow> u16) {..< 65536}"
    by (rule inj_onI) (simp add: word_unat_eq_iff unat_of_nat take_bit_nat_eq_self)
  moreover have "{unat (range_start p) ..< Suc (unat (range_end p))} \<subseteq> {..< 65536}"
    using unat_u16_bound [of "range_end p"] by auto
  ultimately have "inj_on (word_of_nat :: nat \<Rightarrow> u16) {unat (range_start p) ..< Suc (unat (range_end p))}"
    by (rule inj_on_subset)
  then have "card ((word_of_nat :: nat \<Rightarrow> u16) ` {unat (range_start p) ..< Suc (unat (range_end p))}) =
      card {unat (range_start p) ..< Suc (unat (range_end p))}"
    by (rule card_image)
  then show ?thesis by (simp only: ports_def set_map set_upt card_atLeastLessThan)
qed

lemma unat_width:
  fixes a b :: u16
  assumes "a \<le> b" and "b - a \<noteq> - 1"
  shows "unat (b - a + 1) = Suc (unat b) - unat a"
proof -
  have "unat (b - a) \<noteq> 65535"
    using assms(2) unat_max_word [where 'a = 16] by (auto simp: word_unat_eq_iff)
  moreover have "unat (b - a) < 65536" by (rule unat_u16_bound)
  ultimately have "unat (b - a + 1) = Suc (unat (b - a))"
    by (simp add: unat_word_ariths)
  with assms(1) show ?thesis
    by (simp add: unat_sub word_le_nat_alt Suc_diff_le)
qed

section \<open>The registry invariant\<close>

definition svc_at :: "'u tunnel_registry \<Rightarrow> 'u \<Rightarrow> 'u \<Rightarrow> 'u tunnel_service option" where
  "svc_at r i s = (case hm_get (tunnels r) i of None \<Rightarrow> None | Some t \<Rightarrow> hm_get (services t) s)"

text \<open>
  The three tables and the pool describe the same tunnels: keys are unique, a token leads to the
  tunnel that holds it and to no other, a port leads to the service it is assigned to and to no
  other, and the ports in use are those assigned, all within the configured range.
\<close>

definition tables_wf :: "'u tunnel_registry \<Rightarrow> bool" where
  "tables_wf r \<longleftrightarrow>
     hm_wf (tunnels r) \<and> hm_wf (tunnels_by_token r) \<and> hm_wf (services_by_port r) \<and>
     (\<forall>i t. hm_get (tunnels r) i = Some t \<longrightarrow> tun_id t = i \<and> hm_wf (services t))"

definition tokens_ok :: "'u tunnel_registry \<Rightarrow> bool" where
  "tokens_ok r \<longleftrightarrow>
     (\<forall>h i. hm_get (tunnels_by_token r) h = Some i \<longleftrightarrow>
        (\<exists>t. hm_get (tunnels r) i = Some t \<and> token_hash t = h))"

definition ports_ok :: "'u tunnel_registry \<Rightarrow> bool" where
  "ports_ok r \<longleftrightarrow>
     (\<forall>p i s. hm_get (services_by_port r) p = Some (i, s) \<longleftrightarrow>
        (\<exists>v. svc_at r i s = Some v \<and> assigned_port v = Some p)) \<and>
     (\<forall>i s v. svc_at r i s = Some v \<longrightarrow> svc_id v = s \<and> assigned_port v \<noteq> None)"

definition pool_ok :: "'u tunnel_registry \<Rightarrow> bool" where
  "pool_ok r \<longleftrightarrow>
     used_ports (port_pool r) = dom (hm_get (services_by_port r)) \<and>
     used_ports (port_pool r) \<subseteq> set (ports (port_pool r))"

definition reg_inv :: "'u tunnel_registry \<Rightarrow> bool" where
  "reg_inv r \<longleftrightarrow> tables_wf r \<and> tokens_ok r \<and> ports_ok r \<and> pool_ok r"

lemmas reg_inv_defs = reg_inv_def tables_wf_def tokens_ok_def ports_ok_def pool_ok_def

lemma reg_tokenD:
  "reg_inv r \<Longrightarrow> hm_get (tunnels r) i = Some t \<Longrightarrow>
   hm_get (tunnels_by_token r) (token_hash t) = Some i"
  by (auto simp: reg_inv_defs)

lemma reg_portD:
  "reg_inv r \<Longrightarrow> svc_at r i s = Some v \<Longrightarrow> assigned_port v = Some p \<Longrightarrow>
   hm_get (services_by_port r) p = Some (i, s)"
  by (auto simp: reg_inv_defs)

lemma reg_svcE:
  assumes "reg_inv r" and "svc_at r i s = Some v"
  obtains p where "svc_id v = s" and "assigned_port v = Some p"
    and "hm_get (services_by_port r) p = Some (i, s)"
proof -
  from assms have "svc_id v = s" "assigned_port v \<noteq> None"
    by (simp_all add: reg_inv_def ports_ok_def)
  with that reg_portD [OF assms] show ?thesis by blast
qed

lemma reg_sbpE:
  assumes "reg_inv r" and "hm_get (services_by_port r) p = Some (i, s)"
  obtains v where "svc_at r i s = Some v" and "assigned_port v = Some p"
  using assms by (auto simp: reg_inv_def ports_ok_def)

lemma registry_new_inv [inv_intros]: "reg_inv (registry_new port_range)"
  by (simp add: reg_inv_defs registry_new_def port_pool_new_def svc_at_def)

lemma register_tunnel_inv [inv_intros]:
  assumes "reg_inv r" and "hm_get (tunnels r) new_id = None"
    and "register_tunnel new_id now h name addr r = Inr (t, r')"
  shows "reg_inv r'"
proof -
  have free: "hm_get (tunnels_by_token r) h = None"
    and r': "r' = r\<lparr>tunnels_by_token := hm_insert h new_id (tunnels_by_token r),
                  tunnels := hm_insert new_id (tunnel_new new_id now h name addr) (tunnels r)\<rparr>"
    using assms(3) by (auto simp: register_tunnel_def Let_def tunnel_new_def split: if_splits)
  have at: "svc_at r' i s = svc_at r i s" for i s
    using assms(2) by (simp add: r' svc_at_def tunnel_new_def)
  have frame: "services_by_port r' = services_by_port r" "port_pool r' = port_pool r"
    by (simp_all add: r')
  have "token_hash t' \<noteq> h" if "hm_get (tunnels r) i = Some t'" for i t'
    using reg_tokenD [OF assms(1) that] free by auto
  then have "tokens_ok r'"
    using assms(1,2) free by (auto simp: reg_inv_defs r' tunnel_new_def)
  moreover have "tables_wf r'"
    using assms(1) by (auto simp: reg_inv_defs r' tunnel_new_def)
  moreover have "ports_ok r'" "pool_ok r'"
    using assms(1) by (auto simp add: reg_inv_def ports_ok_def pool_ok_def at frame)
  ultimately show ?thesis by (simp add: reg_inv_def)
qed

lemma release_services_spec:
  assumes "release_services vs (sbp, pp) = (sbp', pp')"
  shows "hm_get sbp' = hm_get sbp |` (- {p. \<exists>v\<in>set vs. assigned_port v = Some p}) \<and>
    used_ports pp' = used_ports pp - {p. \<exists>v\<in>set vs. assigned_port v = Some p} \<and>
    ports pp' = ports pp \<and> (hm_wf sbp \<longrightarrow> hm_wf sbp')"
  using assms
proof (induction vs arbitrary: sbp pp)
  case Nil
  then show ?case by (auto simp: restrict_map_def)
next
  case (Cons v vs)
  show ?case
  proof (cases "assigned_port v")
    case None
    with Cons show ?thesis by simp
  next
    case (Some port)
    with Cons.prems have "release_services vs (hm_remove port sbp, pool_release port pp) = (sbp', pp')"
      by simp
    from Cons.IH [OF this] Some show ?thesis by (auto simp: restrict_map_def fun_eq_iff)
  qed
qed

lemma unregister_tunnel_Some:
  assumes "reg_inv r" and "hm_get (tunnels r) i = Some t"
    and "unregister_tunnel i r = (x, r')"
  shows "x = Some t"
    and "hm_get (tunnels r') = (hm_get (tunnels r))(i := None)"
    and "hm_get (tunnels_by_token r') = (hm_get (tunnels_by_token r))(token_hash t := None)"
    and "hm_get (services_by_port r') = hm_get (services_by_port r) |` {p. \<forall>s. hm_get (services_by_port r) p \<noteq> Some (i, s)}"
    and "used_ports (port_pool r') = dom (hm_get (services_by_port r'))"
    and "ports (port_pool r') = ports (port_pool r)"
    and "tables_wf r'"
proof -
  let ?P = "{p. \<exists>v\<in>set (map snd (services t)). assigned_port v = Some p}"
  obtain sbp pp where rel: "release_services (map snd (services t)) (services_by_port r, port_pool r) = (sbp, pp)"
    by fastforce
  with assms(2,3) have x: "x = Some t" and r': "r' = r\<lparr>tunnels := hm_remove i (tunnels r),
      tunnels_by_token := hm_remove (token_hash t) (tunnels_by_token r),
      services_by_port := sbp, port_pool := pp\<rparr>"
    by (auto simp: unregister_tunnel_def)
  note spec = release_services_spec [OF rel]
  have wf: "hm_wf (services t)"
    using assms(1,2) by (simp add: reg_inv_defs)
  have P: "p \<in> ?P \<longleftrightarrow> (\<exists>s. hm_get (services_by_port r) p = Some (i, s))" for p
  proof -
    have "p \<in> ?P \<longleftrightarrow> (\<exists>s v. hm_get (services t) s = Some v \<and> assigned_port v = Some p)"
      using wf by (force simp flip: hm_wf_mem_iff)
    also have "\<dots> \<longleftrightarrow> (\<exists>s. hm_get (services_by_port r) p = Some (i, s))"
      using assms(1,2) by (simp add: reg_inv_defs svc_at_def)
    finally show ?thesis .
  qed
  have set_eq: "- ?P = {p. \<forall>s. hm_get (services_by_port r) p \<noteq> Some (i, s)}"
    using P by auto
  show "x = Some t" by (fact x)
  show "hm_get (tunnels r') = (hm_get (tunnels r))(i := None)"
    "hm_get (tunnels_by_token r') = (hm_get (tunnels_by_token r))(token_hash t := None)"
    "ports (port_pool r') = ports (port_pool r)"
    using spec by (simp_all add: r')
  show sb: "hm_get (services_by_port r') = hm_get (services_by_port r) |` {p. \<forall>s. hm_get (services_by_port r) p \<noteq> Some (i, s)}"
    using spec by (simp add: r' flip: set_eq)
  show "used_ports (port_pool r') = dom (hm_get (services_by_port r'))"
    using spec assms(1) by (auto simp: r' reg_inv_defs)
  show "tables_wf r'"
    using spec assms(1) by (auto simp: r' reg_inv_defs split: if_splits)
qed

lemma unregister_tunnel_inv [inv_intros]:
  assumes "reg_inv r" and "unregister_tunnel i r = (x, r')"
  shows "reg_inv r'"
proof (cases "hm_get (tunnels r) i")
  case None
  with assms show ?thesis by (simp add: unregister_tunnel_def)
next
  case (Some t)
  note un = unregister_tunnel_Some [OF assms(1) Some assms(2)]
  have at: "svc_at r' j s = (if j = i then None else svc_at r j s)" for j s
    by (simp add: svc_at_def un)
  have uniq: "j = i" if "hm_get (tunnels r) j = Some t'" "token_hash t' = token_hash t" for j t'
    using reg_tokenD [OF assms(1) that(1)] reg_tokenD [OF assms(1) Some] that(2) by simp
  have "tokens_ok r'"
    using assms(1) Some by (auto simp: reg_inv_defs un dest: uniq split: if_splits)
  moreover have "hm_get (services_by_port r') p = Some (j, s) \<longleftrightarrow>
      hm_get (services_by_port r) p = Some (j, s) \<and> j \<noteq> i" for p j s
    by (auto simp: un restrict_map_def)
  then have "ports_ok r'"
    using assms(1) by (auto simp: ports_ok_def reg_inv_def at)
  moreover have "pool_ok r'"
    using assms(1) by (auto simp: reg_inv_defs un)
  ultimately show ?thesis using un by (simp add: reg_inv_def)
qed

lemma assign_port_Inr:
  assumes "assign_port remote p = Inr (q, p')"
  shows "q \<in> set (ports p)" and "q \<notin> used_ports p" and "used_ports p' = insert q (used_ports p)"
    and "set (ports p') = set (ports p)" and "remote \<noteq> 0 \<Longrightarrow> q = remote"
  using assms pp.alloc_Some [of p q p'] pp.take_Some [of remote p p']
  by (auto simp: assign_port_def split: if_splits option.splits)

lemma add_service_InrD:
  assumes "add_service new_id i name proto lp rp r = Inr (v, r')"
  obtains t q pp where "hm_get (tunnels r) i = Some t" and "assign_port rp (port_pool r) = Inr (q, pp)"
    and "v = (tunnel_service_new new_id name proto lp rp)\<lparr>assigned_port := Some q\<rparr>"
    and "r' = r\<lparr>port_pool := pp,
           services_by_port := hm_insert q (i, new_id) (services_by_port r),
           tunnels := hm_insert i (t\<lparr>services := hm_insert new_id v (services t)\<rparr>) (tunnels r)\<rparr>"
  using assms
  by (auto simp: add_service_def and_then_Inr_iff get_tunnel_def Let_def tunnel_service_new_def)

lemma add_service_inv [inv_intros]:
  assumes "reg_inv r" and "svc_at r i new_id = None"
    and "add_service new_id i name proto lp rp r = Inr (v, r')"
  shows "reg_inv r'"
proof -
  from assms(3) obtain t q pp where t: "hm_get (tunnels r) i = Some t"
    and q: "assign_port rp (port_pool r) = Inr (q, pp)"
    and v: "v = (tunnel_service_new new_id name proto lp rp)\<lparr>assigned_port := Some q\<rparr>"
    and r': "r' = r\<lparr>port_pool := pp,
           services_by_port := hm_insert q (i, new_id) (services_by_port r),
           tunnels := hm_insert i (t\<lparr>services := hm_insert new_id v (services t)\<rparr>) (tunnels r)\<rparr>"
    by (rule add_service_InrD)
  note port = assign_port_Inr [OF q]
  have v_fields: "svc_id v = new_id" "assigned_port v = Some q"
    by (simp_all add: v tunnel_service_new_def)
  have at: "svc_at r' j s = (if j = i \<and> s = new_id then Some v else svc_at r j s)" for j s
    using t by (simp add: svc_at_def r')
  have sbp: "hm_get (services_by_port r') = (hm_get (services_by_port r))(q \<mapsto> (i, new_id))"
    by (simp add: r')
  have free: "hm_get (services_by_port r) q = None"
    using assms(1) port(2) by (auto simp: reg_inv_def pool_ok_def)
  have "hm_get (services_by_port r) p \<noteq> Some (i, new_id)" for p
    using reg_sbpE [OF assms(1), of p i new_id] assms(2) by auto
  then have table: "hm_get (services_by_port r') p = Some (j, s) \<longleftrightarrow>
      (if j = i \<and> s = new_id then p = q else hm_get (services_by_port r) p = Some (j, s))" for p j s
    using free by (auto simp: sbp)
  have "ports_ok r'"
    using assms(1) v_fields by (auto simp: reg_inv_def ports_ok_def at table)
  moreover have "pool_ok r'"
    using assms(1) port by (auto simp: reg_inv_def pool_ok_def r')
  moreover have "tables_wf r'"
    using assms(1) t by (auto simp: reg_inv_def tables_wf_def r')
  moreover have "tokens_ok r'"
    using assms(1) t by (auto simp: reg_inv_def tokens_ok_def r')
  ultimately show ?thesis by (simp add: reg_inv_def)
qed

lemma remove_service_InrD:
  assumes "reg_inv r" and "remove_service i sid r = Inr (v, r')"
  obtains t p where "hm_get (tunnels r) i = Some t" and "hm_get (services t) sid = Some v"
    and "assigned_port v = Some p" and "hm_get (services_by_port r) p = Some (i, sid)"
    and "r' = r\<lparr>tunnels := hm_insert i (t\<lparr>services := hm_remove sid (services t)\<rparr>) (tunnels r),
           services_by_port := hm_remove p (services_by_port r),
           port_pool := pool_release p (port_pool r)\<rparr>"
proof -
  from assms(2) obtain t where t: "hm_get (tunnels r) i = Some t" "hm_get (services t) sid = Some v"
    by (auto simp: remove_service_def and_then_Inr_iff get_tunnel_def Let_def)
  then have at: "svc_at r i sid = Some v" by (simp add: svc_at_def)
  with assms(1) obtain p where p: "assigned_port v = Some p"
    by (rule reg_svcE)
  from reg_portD [OF assms(1) at p] assms(2) t p show ?thesis
    by (intro that [of t p]) (auto simp: remove_service_def and_then_Inr_iff get_tunnel_def Let_def)
qed

lemma remove_service_inv [inv_intros]:
  assumes "reg_inv r" and "remove_service i sid r = Inr (v, r')"
  shows "reg_inv r'"
proof -
  from assms obtain t p where t: "hm_get (tunnels r) i = Some t" "hm_get (services t) sid = Some v"
    and p: "assigned_port v = Some p" "hm_get (services_by_port r) p = Some (i, sid)"
    and r': "r' = r\<lparr>tunnels := hm_insert i (t\<lparr>services := hm_remove sid (services t)\<rparr>) (tunnels r),
           services_by_port := hm_remove p (services_by_port r),
           port_pool := pool_release p (port_pool r)\<rparr>"
    by (rule remove_service_InrD)
  have at: "svc_at r' j s = (if j = i \<and> s = sid then None else svc_at r j s)" for j s
    using t by (simp add: svc_at_def r')
  have sbp: "hm_get (services_by_port r') = (hm_get (services_by_port r))(p := None)"
    by (simp add: r')
  have only: "q = p" if "hm_get (services_by_port r) q = Some (i, sid)" for q
    using reg_sbpE [OF assms(1) that] t p(1) by (auto simp: svc_at_def)
  have "hm_get (services_by_port r') q = Some (j, s) \<longleftrightarrow>
      hm_get (services_by_port r) q = Some (j, s) \<and> \<not> (j = i \<and> s = sid)" for q j s
    using p(2) by (auto simp: sbp dest: only)
  then have "ports_ok r'"
    using assms(1) by (auto simp: reg_inv_def ports_ok_def at)
  moreover have "pool_ok r'"
    using assms(1) by (auto simp: reg_inv_def pool_ok_def r')
  moreover have "tables_wf r'"
    using assms(1) t by (auto simp: reg_inv_def tables_wf_def r')
  moreover have "tokens_ok r'"
    using assms(1) t by (auto simp: reg_inv_def tokens_ok_def r')
  ultimately show ?thesis by (simp add: reg_inv_def)
qed

lemma touch_tunnel_inv [inv_intros]: "reg_inv r \<Longrightarrow> reg_inv (touch_tunnel now i r)"
proof (cases "hm_get (tunnels r) i")
  case (Some t)
  assume inv: "reg_inv r"
  have r': "touch_tunnel now i r = r\<lparr>tunnels := hm_insert i (touch now t) (tunnels r)\<rparr>" (is "_ = ?r'")
    using Some by (simp add: touch_tunnel_def get_tunnel_def)
  have at: "svc_at ?r' j s = svc_at r j s" for j s
    using Some by (simp add: svc_at_def touch_def)
  have "tables_wf ?r'" "tokens_ok ?r'"
    using inv Some by (auto simp: reg_inv_def tables_wf_def tokens_ok_def touch_def)
  moreover have "ports_ok ?r'" "pool_ok ?r'"
    using inv by (auto simp: reg_inv_def ports_ok_def pool_ok_def at)
  ultimately show ?thesis by (simp add: reg_inv_def r')
qed (simp add: touch_tunnel_def get_tunnel_def)

lemma unregister_all_inv [inv_intros]:
  "reg_inv r \<Longrightarrow> unregister_all is r = (sent, r') \<Longrightarrow> reg_inv r'"
proof (induction "is" r arbitrary: sent rule: unregister_all.induct)
  case (1 r)
  then show ?case by simp
next
  case (2 i "is" r)
  obtain x r1 where un: "unregister_tunnel i r = (x, r1)" by fastforce
  with "2.prems"(1) have "reg_inv r1" by (rule unregister_tunnel_inv)
  with 2 un show ?case by (auto split: option.splits prod.splits)
qed

section \<open>Reachable registries\<close>

inductive registry_step :: "'u tunnel_registry \<Rightarrow> 'u tunnel_registry \<Rightarrow> bool" where
  step_register: "hm_get (tunnels r) new_id = None \<Longrightarrow>
     register_tunnel new_id now hash name addr r = Inr (t, r') \<Longrightarrow> registry_step r r'"
| step_unregister: "unregister_tunnel i r = (x, r') \<Longrightarrow> registry_step r r'"
| step_add: "svc_at r i new_id = None \<Longrightarrow>
     add_service new_id i name proto lp rp r = Inr (v, r') \<Longrightarrow> registry_step r r'"
| step_remove: "remove_service i sid r = Inr (v, r') \<Longrightarrow> registry_step r r'"
| step_touch: "registry_step r (touch_tunnel now i r)"
| step_cleanup: "cleanup_stale now max_idle r = (ids, sent, r') \<Longrightarrow> registry_step r r'"

inductive registry_reachable :: "u16 \<times> u16 \<Rightarrow> 'u tunnel_registry \<Rightarrow> bool" for port_range where
  reach_new: "registry_reachable port_range (registry_new port_range)"
| reach_step: "registry_reachable port_range r \<Longrightarrow> registry_step r r' \<Longrightarrow> registry_reachable port_range r'"

lemma cleanup_stale_inv [inv_intros]:
  "reg_inv r \<Longrightarrow> cleanup_stale now max_idle r = (ids, sent, r') \<Longrightarrow> reg_inv r'"
  by (auto simp: cleanup_stale_def Let_def split: prod.splits intro: unregister_all_inv)

lemma registry_step_inv: "registry_step r r' \<Longrightarrow> reg_inv r \<Longrightarrow> reg_inv r'"
  by (induction rule: registry_step.induct) (auto intro: inv_intros)

lemma registry_reachable_inv: "registry_reachable port_range r \<Longrightarrow> reg_inv r"
  by (induction rule: registry_reachable.induct) (auto intro: inv_intros registry_step_inv)

definition pool_range :: "'u tunnel_registry \<Rightarrow> u16 \<times> u16" where
  "pool_range r = (range_start (port_pool r), range_end (port_pool r))"

lemma release_services_range:
  "release_services vs (sbp, pp) = (sbp', pp') \<Longrightarrow>
   range_start pp' = range_start pp \<and> range_end pp' = range_end pp"
  by (induction vs arbitrary: sbp pp) (auto simp: pool_release_def split: option.splits)

lemma unregister_tunnel_range: "unregister_tunnel i r = (x, r') \<Longrightarrow> pool_range r' = pool_range r"
  by (auto simp: unregister_tunnel_def pool_range_def dest: release_services_range
      split: option.splits prod.splits)

lemma unregister_all_range: "unregister_all is r = (sent, r') \<Longrightarrow> pool_range r' = pool_range r"
  by (induction "is" r arbitrary: sent rule: unregister_all.induct)
     (auto dest: unregister_tunnel_range split: prod.splits option.splits)

lemma assign_port_range:
  "assign_port rp pp = Inr (q, pp') \<Longrightarrow> range_start pp' = range_start pp \<and> range_end pp' = range_end pp"
  by (auto simp: assign_port_def pool_allocate_def pool_allocate_specific_def split: if_splits option.splits)

lemma registry_step_range: "registry_step r r' \<Longrightarrow> pool_range r' = pool_range r"
proof (induction rule: registry_step.induct)
  case (step_add r i new_id name proto lp rp v r')
  then show ?case
    by (auto elim!: add_service_InrD simp: pool_range_def dest: assign_port_range)
next
  case (step_remove i sid r v r')
  then show ?case
    by (auto simp: remove_service_def and_then_Inr_iff Let_def pool_range_def pool_release_def
        split: option.splits)
next
  case (step_cleanup now max_idle r ids sent r')
  then show ?case
    by (auto simp: cleanup_stale_def Let_def dest: unregister_all_range split: prod.splits)
qed (auto simp: register_tunnel_def touch_tunnel_def pool_range_def Let_def
      dest: unregister_tunnel_range [unfolded pool_range_def] split: if_splits option.splits)

lemma registry_reachable_range: "registry_reachable port_range r \<Longrightarrow> pool_range r = port_range"
  by (induction rule: registry_reachable.induct)
     (auto dest: registry_step_range simp: registry_new_def port_pool_new_def pool_range_def)

section \<open>Properties of the registry\<close>

lemma get_service_by_port_iff:
  assumes "reg_inv r"
  shows "get_service_by_port r p = Some (t, s) \<longleftrightarrow>
    (\<exists>i sid. get_tunnel r i = Some t \<and> hm_get (services t) sid = Some s \<and> assigned_port s = Some p)"
    (is "?L \<longleftrightarrow> ?R")
proof
  assume ?L
  then obtain i sid where at: "hm_get (services_by_port r) p = Some (i, sid)"
    and t: "get_tunnel r i = Some t" "hm_get (services t) sid = Some s"
    by (auto simp: get_service_by_port_def split: option.splits)
  from reg_sbpE [OF assms at] t have "assigned_port s = Some p"
    by (auto simp: svc_at_def get_tunnel_def)
  with t show ?R by blast
next
  assume ?R
  then obtain i sid where t: "get_tunnel r i = Some t" "hm_get (services t) sid = Some s"
    "assigned_port s = Some p" by blast
  then have "svc_at r i sid = Some s" by (simp add: svc_at_def get_tunnel_def)
  from reg_portD [OF assms this t(3)] t show ?L by (simp add: get_service_by_port_def)
qed

lemma used_port_routed:
  assumes "reg_inv r"
  shows "p \<in> used_ports (port_pool r) \<longleftrightarrow> (\<exists>t s. get_service_by_port r p = Some (t, s))"
proof -
  have "p \<in> used_ports (port_pool r) \<longleftrightarrow> (\<exists>i sid. hm_get (services_by_port r) p = Some (i, sid))"
    using assms by (auto simp: reg_inv_def pool_ok_def)
  also have "\<dots> \<longleftrightarrow> (\<exists>t s. get_service_by_port r p = Some (t, s))"
    using reg_sbpE [OF assms, of p]
    by (fastforce simp: get_service_by_port_def svc_at_def get_tunnel_def split: option.splits)
  finally show ?thesis .
qed

text \<open>
  C7. Routing by port is exact in every state the registry can reach: looking a port up gives a
  tunnel and a service exactly when that service is registered on that tunnel with that port
  assigned. Since a lookup has one result, no port ever belongs to two services, and a port counts
  as used exactly when it routes to some service.
\<close>

theorem port_routing_exact:
  assumes "registry_reachable port_range r"
  shows "(get_service_by_port r p = Some (t, s) \<longleftrightarrow>
           (\<exists>i sid. get_tunnel r i = Some t \<and> hm_get (services t) sid = Some s \<and> assigned_port s = Some p)) \<and>
         (p \<in> used_ports (port_pool r) \<longleftrightarrow> (\<exists>t s. get_service_by_port r p = Some (t, s)))"
  using registry_reachable_inv [OF assms] get_service_by_port_iff used_port_routed by blast

definition sample_registry :: "nat tunnel_registry" where
  "sample_registry = snd (projr (register_tunnel 1 0 ''hash'' None None (registry_new (30000, 30002))))"

lemma sample_registry_eq:
  "sample_registry = \<lparr> tunnels = [(1, tunnel_new 1 0 ''hash'' None None)], tunnels_by_token = [(''hash'', 1)],
     services_by_port = [], port_pool = port_pool_new 30000 30002 \<rparr>"
  by (simp add: sample_registry_def register_tunnel_def registry_new_def tunnel_new_def Let_def)

lemma sample_registry_reachable: "registry_reachable (30000, 30002) sample_registry"
proof (rule reach_step [OF reach_new], rule step_register)
  show "hm_get (tunnels (registry_new (30000, 30002))) (1 :: nat) = None"
    by (simp add: registry_new_def)
  show "register_tunnel 1 0 ''hash'' None None (registry_new (30000, 30002)) =
      Inr (tunnel_new 1 0 ''hash'' None None, sample_registry)"
    by (simp add: sample_registry_eq register_tunnel_def registry_new_def tunnel_new_def Let_def)
qed

definition sample_service :: "nat tunnel_service" where
  "sample_service = (tunnel_service_new 9 ''ssh'' Tcp 22 0)\<lparr>assigned_port := Some 30000\<rparr>"

definition sample_registry2 :: "nat tunnel_registry" where
  "sample_registry2 = \<lparr> tunnels = [(1, (tunnel_new 1 0 ''hash'' None None)\<lparr>services := [(9, sample_service)]\<rparr>)],
     tunnels_by_token = [(''hash'', 1)], services_by_port = [(30000, 1, 9)],
     port_pool = \<lparr> range_start = 30000, range_end = 30002, used_ports = {30000} \<rparr> \<rparr>"

lemma sample_assign: "assign_port 0 (port_pool_new 30000 30002) =
  Inr (30000, \<lparr> range_start = 30000, range_end = 30002, used_ports = {30000} \<rparr>)"
  by (simp add: assign_port_def pool_allocate_def port_pool_new_def ports_def)

lemma sample_add: "add_service 9 1 ''ssh'' Tcp 22 0 sample_registry = Inr (sample_service, sample_registry2)"
  by (simp add: add_service_def sample_registry_eq sample_registry2_def get_tunnel_def sample_assign
      sample_service_def tunnel_service_new_def tunnel_new_def Let_def)

lemma sample_registry2_reachable: "registry_reachable (30000, 30002) sample_registry2"
proof (rule reach_step [OF sample_registry_reachable], rule step_add)
  show "svc_at sample_registry 1 9 = None"
    by (simp add: svc_at_def sample_registry_eq tunnel_new_def)
  show "add_service 9 1 ''ssh'' Tcp 22 0 sample_registry = Inr (sample_service, sample_registry2)"
    by (rule sample_add)
qed

theorem port_routing_exact_witness:
  "\<exists>t. get_service_by_port sample_registry2 30000 = Some (t, sample_service)"
proof -
  let ?t = "(tunnel_new 1 0 ''hash'' None None)\<lparr>services := [(9, sample_service)]\<rparr> :: nat tunnel"
  have "get_tunnel sample_registry2 1 = Some ?t"
    and "hm_get (services ?t) 9 = Some sample_service" and "assigned_port sample_service = Some 30000"
    by (simp_all add: get_tunnel_def sample_registry2_def sample_service_def)
  then show ?thesis
    using port_routing_exact [OF sample_registry2_reachable, of 30000 ?t sample_service] by blast
qed

lemma is_port_available_iff:
  "is_port_available r p \<longleftrightarrow> p \<in> set (ports (port_pool r)) \<and> p \<notin> used_ports (port_pool r)"
  by (auto simp: is_port_available_def pool_is_available_def set_ports)

lemma ports_distinct_sorted: "sorted_wrt (<) (ports p)"
proof -
  have "(word_of_nat m :: u16) < word_of_nat n" if "m < n" "n < Suc (unat (range_end p))" for m n
    using that unat_u16_bound [of "range_end p"]
    by (simp add: word_less_nat_alt unat_of_nat take_bit_nat_eq_self)
  then show ?thesis
    unfolding ports_def sorted_wrt_map by (rule sorted_wrt_mono_rel [OF _ sorted_wrt_upt]) auto
qed

lemma assign_port_least:
  assumes "assign_port 0 p = Inr (q, p')" and "y \<in> set (ports p)" and "y \<notin> used_ports p"
  shows "q \<le> y"
  using assms find_least [OF _ ports_distinct_sorted, of "\<lambda>port. port \<notin> used_ports p" p q y]
  by (auto simp: assign_port_def pool_allocate_def split: option.splits)

lemma assign_port_Inl:
  "assign_port rp p = Inl e \<Longrightarrow>
   (rp = 0 \<and> e = NoPortsAvailable \<and> set (ports p) \<subseteq> used_ports p) \<or>
   (rp \<noteq> 0 \<and> e = PortNotAvailable rp \<and> (rp \<notin> set (ports p) \<or> rp \<in> used_ports p))"
  using pp.alloc_None [of p] pp.take_None [of rp p]
  by (auto simp: assign_port_def ok_or_def split: if_splits option.splits)

lemma add_service_Inl:
  "add_service new_id i name proto lp rp r = Inl e \<Longrightarrow>
   (get_tunnel r i = None \<and> e = TunnelNotFound) \<or>
   (get_tunnel r i \<noteq> None \<and> assign_port rp (port_pool r) = Inl e)"
  by (cases "get_tunnel r i"; cases "assign_port rp (port_pool r)")
     (auto simp: add_service_def Let_def)

lemma add_service_routes:
  assumes "reg_inv r" and "svc_at r i new_id = None"
    and "add_service new_id i name proto lp rp r = Inr (v, r')" and "assigned_port v = Some q"
  shows "map_option snd (get_service_by_port r' p) =
    (if p = q then Some v else map_option snd (get_service_by_port r p))"
proof -
  from assms(3) obtain t q' pp where t: "hm_get (tunnels r) i = Some t"
    and as: "assign_port rp (port_pool r) = Inr (q', pp)"
    and v: "v = (tunnel_service_new new_id name proto lp rp)\<lparr>assigned_port := Some q'\<rparr>"
    and r': "r' = r\<lparr>port_pool := pp,
           services_by_port := hm_insert q' (i, new_id) (services_by_port r),
           tunnels := hm_insert i (t\<lparr>services := hm_insert new_id v (services t)\<rparr>) (tunnels r)\<rparr>"
    by (rule add_service_InrD)
  have "q' = q" using assms(4) by (simp add: v)
  moreover have "hm_get (services_by_port r) p \<noteq> Some (i, new_id)"
    using reg_sbpE [OF assms(1), of p i new_id] assms(2) by auto
  ultimately show ?thesis using t
    by (auto simp: get_service_by_port_def get_tunnel_def r' split: option.splits)
qed

text \<open>
  Adding a service to a reachable registry does one of four things, each exactly when it should:
  it reports an unknown tunnel; for an automatic port it reports exhaustion only when no port of the
  range is free; for a requested port it reports that port only when it is out of range or in use;
  otherwise the service gets a port that was free, the requested one, or the lowest free one when the
  choice was automatic. The new port then routes to the new service, and every other port routes
  to the service it did before.
\<close>

theorem add_service_correct:
  assumes "registry_reachable port_range r" and "svc_at r i new_id = None"
  shows "case add_service new_id i name proto lp rp r of
      Inl e \<Rightarrow>
        (get_tunnel r i = None \<and> e = TunnelNotFound) \<or>
        (get_tunnel r i \<noteq> None \<and> rp = 0 \<and> e = NoPortsAvailable \<and> (\<forall>p. \<not> is_port_available r p)) \<or>
        (get_tunnel r i \<noteq> None \<and> rp \<noteq> 0 \<and> e = PortNotAvailable rp \<and> \<not> is_port_available r rp)
    | Inr (v, r') \<Rightarrow>
        get_tunnel r i \<noteq> None \<and>
        (\<exists>q. assigned_port v = Some q \<and> is_port_available r q \<and> \<not> is_port_available r' q \<and>
           (if rp = 0 then \<forall>p. is_port_available r p \<longrightarrow> q \<le> p else q = rp) \<and>
           (\<forall>p. map_option snd (get_service_by_port r' p) =
              (if p = q then Some v else map_option snd (get_service_by_port r p))))"
proof (cases "add_service new_id i name proto lp rp r")
  case (Inl e)
  then show ?thesis
    by (auto simp: is_port_available_iff dest!: add_service_Inl assign_port_Inl)
next
  case (Inr a)
  obtain v r' where a: "a = (v, r')" by fastforce
  with Inr have add: "add_service new_id i name proto lp rp r = Inr (v, r')" by simp
  then obtain t q pp where t: "hm_get (tunnels r) i = Some t"
    and as: "assign_port rp (port_pool r) = Inr (q, pp)"
    and v: "v = (tunnel_service_new new_id name proto lp rp)\<lparr>assigned_port := Some q\<rparr>"
    and r': "r' = r\<lparr>port_pool := pp,
           services_by_port := hm_insert q (i, new_id) (services_by_port r),
           tunnels := hm_insert i (t\<lparr>services := hm_insert new_id v (services t)\<rparr>) (tunnels r)\<rparr>"
    by (rule add_service_InrD)
  have q: "assigned_port v = Some q" by (simp add: v)
  have "if rp = 0 then \<forall>p. is_port_available r p \<longrightarrow> q \<le> p else q = rp"
    using as assign_port_Inr(5) [OF as] assign_port_least [of "port_pool r" q pp]
    by (auto simp: is_port_available_iff)
  moreover have "is_port_available r q" "\<not> is_port_available r' q"
    using assign_port_Inr [OF as] by (simp_all add: is_port_available_iff r')
  moreover have "get_tunnel r i \<noteq> None" using t by (simp add: get_tunnel_def)
  ultimately show ?thesis
    using q add_service_routes [OF registry_reachable_inv [OF assms(1)] assms(2) add q]
    by (simp add: Inr a)
qed

theorem add_service_correct_witness:
  "is_port_available sample_registry 30000 \<and>
   map_option snd (get_service_by_port sample_registry2 30000) = Some sample_service"
proof -
  have "svc_at sample_registry 1 9 = None"
    by (simp add: svc_at_def sample_registry_eq tunnel_new_def)
  from add_service_correct [OF sample_registry_reachable this, of 0 "''ssh''" Tcp 22]
  show ?thesis by (auto simp: sample_add sample_service_def simp del: One_nat_def)
qed

lemma unregister_all_spec:
  assumes "reg_inv r" and "distinct is" and "set is \<subseteq> dom (hm_get (tunnels r))"
    and "unregister_all is r = (sent, r')"
  shows "hm_get (tunnels r') = hm_get (tunnels r) |` (- set is) \<and>
    hm_get (services_by_port r') =
      hm_get (services_by_port r) |` {p. \<forall>i s. hm_get (services_by_port r) p = Some (i, s) \<longrightarrow> i \<notin> set is} \<and>
    ports (port_pool r') = ports (port_pool r) \<and>
    sent = map (\<lambda>i. (i, CtlDisconnect ''idle timeout'')) is"
  using assms
proof (induction "is" arbitrary: r sent)
  case Nil
  then show ?case by (auto simp: restrict_map_def)
next
  case (Cons i "is")
  then obtain t where t: "hm_get (tunnels r) i = Some t" by auto
  obtain x r1 where un: "unregister_tunnel i r = (x, r1)" by fastforce
  note sp = unregister_tunnel_Some [OF Cons.prems(1) t un]
  obtain sent1 where rest: "unregister_all is r1 = (sent1, r')"
    and sent: "sent = (i, CtlDisconnect ''idle timeout'') # sent1"
    using Cons.prems(1,4) un sp(1) t by (auto simp: reg_inv_defs split: prod.splits)
  have "set is \<subseteq> dom (hm_get (tunnels r1))"
    using Cons.prems(2,3) by (auto simp: sp(2))
  note IH = Cons.IH [OF unregister_tunnel_inv [OF Cons.prems(1) un] _ this rest]
  show ?case
    using IH Cons.prems(2) by (auto simp: sp sent restrict_map_def fun_eq_iff)
qed

lemma stale_ids:
  assumes "tables_wf r" and "cleanup_stale now max_idle r = (ids, sent, r')"
  shows "distinct ids" and "unregister_all ids r = (sent, r')"
    and "i \<in> set ids \<longleftrightarrow> (\<exists>t. get_tunnel r i = Some t \<and> is_idle_for now max_idle t)"
proof -
  have ids: "ids = map fst (filter (\<lambda>(_, t). is_idle_for now max_idle t) (tunnels r))"
    and un: "unregister_all ids r = (sent, r')"
    using assms(2) by (auto simp: cleanup_stale_def Let_def split: prod.splits)
  have wf: "hm_wf (tunnels r)" using assms(1) by (simp add: tables_wf_def)
  from wf show "distinct ids" by (simp add: ids distinct_map_filter)
  show "unregister_all ids r = (sent, r')" by (rule un)
  show "i \<in> set ids \<longleftrightarrow> (\<exists>t. get_tunnel r i = Some t \<and> is_idle_for now max_idle t)"
    using wf by (force simp: ids get_tunnel_def simp flip: hm_wf_mem_iff)
qed

text \<open>
  The stale sweep is exact: on a reachable registry it removes the tunnels idle for longer than
  the limit and no other, sends each of them one disconnect and reports exactly their identifiers.
  A port keeps routing where it did unless its tunnel was swept, and the ports that become available
  are exactly those of swept tunnels.
\<close>

theorem cleanup_stale_exact:
  assumes "registry_reachable port_range r" and "cleanup_stale now max_idle r = (ids, sent, r')"
  shows "set ids = {i. \<exists>t. get_tunnel r i = Some t \<and> is_idle_for now max_idle t} \<and>
    sent = map (\<lambda>i. (i, CtlDisconnect ''idle timeout'')) ids \<and>
    get_tunnel r' j = (if j \<in> set ids then None else get_tunnel r j) \<and>
    get_service_by_port r' p =
      (case get_service_by_port r p of
         None \<Rightarrow> None | Some (t, s) \<Rightarrow> if is_idle_for now max_idle t then None else Some (t, s)) \<and>
    (is_port_available r' p \<longleftrightarrow> is_port_available r p \<or>
      (\<exists>t s. get_service_by_port r p = Some (t, s) \<and> is_idle_for now max_idle t))"
proof -
  have inv: "reg_inv r" by (rule registry_reachable_inv [OF assms(1)])
  then have "tables_wf r" by (simp add: reg_inv_def)
  note st = stale_ids [OF this assms(2)]
  have "set ids \<subseteq> dom (hm_get (tunnels r))" using st(3) by (auto simp: get_tunnel_def)
  note sp = unregister_all_spec [OF inv st(1) this st(2)]
  have ids: "set ids = {i. \<exists>t. get_tunnel r i = Some t \<and> is_idle_for now max_idle t}"
    using st(3) by blast
  have tun: "get_tunnel r' j = (if j \<in> set ids then None else get_tunnel r j)" for j
    using sp by (simp add: get_tunnel_def restrict_map_def)
  have route: "get_service_by_port r' p = (case get_service_by_port r p of
         None \<Rightarrow> None | Some (t, s) \<Rightarrow> if is_idle_for now max_idle t then None else Some (t, s))"
    using sp tun by (auto simp: get_service_by_port_def restrict_map_def ids split: option.splits)
  have inv': "reg_inv r'" by (rule cleanup_stale_inv [OF inv assms(2)])
  have "p \<in> used_ports (port_pool r) \<Longrightarrow> p \<in> set (ports (port_pool r))"
    using inv by (auto simp: reg_inv_def pool_ok_def)
  moreover have "is_port_available r' p \<longleftrightarrow>
      p \<in> set (ports (port_pool r)) \<and> (\<forall>t s. get_service_by_port r' p \<noteq> Some (t, s))"
    using sp used_port_routed [OF inv', of p] by (simp add: is_port_available_iff)
  ultimately have "is_port_available r' p \<longleftrightarrow> is_port_available r p \<or>
      (\<exists>t s. get_service_by_port r p = Some (t, s) \<and> is_idle_for now max_idle t)"
    using used_port_routed [OF inv, of p]
    by (auto simp: is_port_available_iff route split: option.splits)
  then show ?thesis using ids tun route sp by blast
qed

theorem cleanup_stale_exact_witness:
  "\<exists>ids sent r'. cleanup_stale 100 60 sample_registry2 = (ids, sent, r') \<and>
     ids = [1] \<and> get_tunnel r' 1 = None \<and> is_port_available r' 30000"
proof -
  obtain ids sent r' where cl: "cleanup_stale 100 60 sample_registry2 = (ids, sent, r')"
    by (metis prod_cases3)
  have ids: "ids = [1]"
    using cl by (auto simp: cleanup_stale_def sample_registry2_def is_idle_for_def tunnel_new_def Let_def
        split: prod.splits)
  note ex = cleanup_stale_exact [OF sample_registry2_reachable cl, of 1 30000]
  obtain t where "get_service_by_port sample_registry2 30000 = Some (t, sample_service)" "is_idle_for 100 60 t"
    by (simp add: get_service_by_port_def get_tunnel_def sample_registry2_def is_idle_for_def tunnel_new_def)
  then have "is_port_available r' 30000" using ex by blast
  moreover have "get_tunnel r' 1 = None" using ex ids by simp
  ultimately show ?thesis using cl ids by blast
qed

lemma wide_range_iff: "(b :: u16) - a = - 1 \<and> a \<le> b \<longleftrightarrow> a = 0 \<and> b = - 1"
proof -
  have "a = 0" if "a \<le> a - 1"
  proof (rule ccontr)
    assume "a \<noteq> 0"
    then have "1 \<le> a" by (simp add: word_le_nat_alt Suc_le_eq unat_gt_0)
    then have "unat (a - 1) = unat a - 1" and "0 < unat a" by (simp_all add: unat_sub word_le_nat_alt)
    with that show False by (simp add: word_le_nat_alt)
  qed
  then show ?thesis by (auto simp: diff_eq_eq)
qed

text \<open>
  The count of available ports agrees with the pool on every reachable registry of a proper
  range, with one exception the 16-bit arithmetic of the count makes: for the full range 0 to 65535
  the width wraps to zero, and the count is zero whatever is free.
\<close>

theorem available_ports_exact:
  assumes "registry_reachable (a, b) r" and "a \<le> b"
  shows "available_ports r =
    (if a = 0 \<and> b = - 1 then 0 else card {p. is_port_available r p})"
proof -
  let ?p = "port_pool r"
  have rng: "range_start ?p = a" "range_end ?p = b"
    using registry_reachable_range [OF assms(1)] by (simp_all add: pool_range_def)
  have sub: "used_ports ?p \<subseteq> set (ports ?p)"
    using registry_reachable_inv [OF assms(1)] unfolding reg_inv_def pool_ok_def by blast
  have "{p. is_port_available r p} = set (ports ?p) - used_ports ?p"
    by (auto simp: is_port_available_iff)
  with sub have "card {p. is_port_available r p} = card (set (ports ?p)) - card (used_ports ?p)"
    by (simp add: card_Diff_subset finite_subset)
  moreover have "unat (b - a + 1) = card (set (ports ?p))" if "\<not> (a = 0 \<and> b = - 1)"
    using that unat_width [OF assms(2)] wide_range_iff [of b a] assms(2) by (auto simp: card_ports rng)
  ultimately show ?thesis
    by (auto simp: available_ports_def pool_available_count_def rng)
qed

theorem available_ports_exact_witness:
  "available_ports sample_registry2 = 2 \<and>
   available_ports (registry_new (0, - 1) :: nat tunnel_registry) = 0 \<and>
   is_port_available (registry_new (0, - 1) :: nat tunnel_registry) 8080"
proof -
  have "available_ports sample_registry2 = card {p. is_port_available sample_registry2 p}"
    using available_ports_exact [OF sample_registry2_reachable] by simp
  also have "{p. is_port_available sample_registry2 p} = set (ports (port_pool sample_registry2)) - {30000}"
    by (auto simp: is_port_available_iff sample_registry2_def)
  also have "\<dots> = {30001, 30002}"
    by (auto simp: ports_def sample_registry2_def)
  finally have "available_ports sample_registry2 = 2" by simp
  moreover have "available_ports (registry_new (0, - 1) :: nat tunnel_registry) = 0"
    using available_ports_exact [OF reach_new [of "(0, - 1)"]] by simp
  ultimately show ?thesis
    by (simp add: is_port_available_def pool_is_available_def registry_new_def port_pool_new_def)
qed

end
