(* ===== verification/Secrets_State.thy ===== *)
theory Secrets_State
  imports Prelude
begin

text \<open>
  The replicated secrets state machine, \<open>SecretsState\<close> of \<open>crates/zlayer-secrets/src/raft_sm.rs\<close>, with
  the operations of \<open>crates/zlayer-types/src/api/internal.rs\<close> and the records of
  \<open>crates/zlayer-types/src/storage.rs\<close>. Hash maps are maps; a point in time is an integer and the clock
  read while an operation is applied is an argument. Encryption happens elsewhere: wrapped keys and
  ciphertexts are byte lists. The JSON snapshot is not modelled.
\<close>

section \<open>Data\<close>

type_synonym timestamp = int

datatype node_affinity = Nodes "string list" | Labels "string \<rightharpoonup> string"

record secret_metadata =
  meta_name :: string
  created_at :: int
  updated_at :: int
  meta_version :: u32

record node_identity =
  ident_node_id :: string
  secrets_pubkey :: "u8 list"
  wg_pubkey :: string
  joined_at :: timestamp
  revoked_at :: "timestamp option"

record wrapped_dek =
  wrap_generation :: u64
  wraps :: "string \<rightharpoonup> u8 list"

record replicated_secret =
  storage_key :: string
  ciphertext :: "u8 list"
  secret_generation :: u64
  secret_meta :: secret_metadata
  node_affinity :: "node_affinity option"

datatype jwt_algorithm = Hs256 | Both | Eddsa

record trust_bundle =
  bundle_v :: u32
  cluster_domain :: string
  ca_public_key_b64 :: string
  ca_kid :: string
  generated_at :: string

datatype secrets_raft_op =
    RegisterIdentity node_identity
  | RevokeNode string
  | RotateDek wrapped_dek
  | PutSecret replicated_secret
  | DeleteSecret string
  | RevokeToken string timestamp
  | ImportTrustBundle trust_bundle
  | RemoveTrustBundle string
  | SetJwtAlgorithm jwt_algorithm
  | WipeJoinSecret

record secrets_state =
  sec_nodes :: "string \<rightharpoonup> node_identity"
  wrapped_dek :: "wrapped_dek option"
  secret_rows :: "string \<rightharpoonup> replicated_secret"
  revoked_tokens :: "string \<rightharpoonup> timestamp"
  trusted_bundles :: "string \<rightharpoonup> trust_bundle"
  jwt_algorithm :: jwt_algorithm
  join_secret_wiped_at :: "timestamp option"

definition secrets_default :: secrets_state where
  "secrets_default =
     \<lparr> sec_nodes = Map.empty, wrapped_dek = None, secret_rows = Map.empty, revoked_tokens = Map.empty,
       trusted_bundles = Map.empty, jwt_algorithm = Both, join_secret_wiped_at = None \<rparr>"

section \<open>Operations\<close>

text \<open>\<open>HashMap::retain\<close> on the values.\<close>

definition retain_vals :: "('v \<Rightarrow> bool) \<Rightarrow> ('k \<rightharpoonup> 'v) \<Rightarrow> ('k \<rightharpoonup> 'v)" where
  "retain_vals P m = (\<lambda>k. case m k of None \<Rightarrow> None | Some v \<Rightarrow> if P v then Some v else None)"

fun secrets_apply :: "timestamp \<Rightarrow> secrets_raft_op \<Rightarrow> secrets_state \<Rightarrow> string + secrets_state" where
  "secrets_apply now (RegisterIdentity ident) st =
     Inr (st\<lparr>sec_nodes := (sec_nodes st)(ident_node_id ident \<mapsto> ident)\<rparr>)"
| "secrets_apply now (RevokeNode node_id) st =
     (case sec_nodes st node_id of
        None \<Rightarrow> Inl (''RevokeNode for unknown node_id: '' @ node_id)
      | Some entry \<Rightarrow>
          Inr (if revoked_at entry = None
               then st\<lparr>sec_nodes := (sec_nodes st)(node_id \<mapsto> entry\<lparr>revoked_at := Some now\<rparr>)\<rparr>
               else st))"
| "secrets_apply now (RotateDek new_wraps) st = Inr (st\<lparr>wrapped_dek := Some new_wraps\<rparr>)"
| "secrets_apply now (PutSecret secret) st =
     Inr (st\<lparr>secret_rows := (secret_rows st)(storage_key secret \<mapsto> secret)\<rparr>)"
| "secrets_apply now (DeleteSecret key) st =
     (case secret_rows st key of
        None \<Rightarrow> Inl (''DeleteSecret for unknown storage_key: '' @ key)
      | Some _ \<Rightarrow> Inr (st\<lparr>secret_rows := (secret_rows st)(key := None)\<rparr>))"
| "secrets_apply now (RevokeToken token_hash expires_at) st =
     (let m = (if expires_at > now then (revoked_tokens st)(token_hash \<mapsto> expires_at) else revoked_tokens st)
      in Inr (st\<lparr>revoked_tokens := retain_vals (\<lambda>exp. exp > now) m\<rparr>))"
| "secrets_apply now (ImportTrustBundle bundle) st =
     Inr (st\<lparr>trusted_bundles := (trusted_bundles st)(cluster_domain bundle \<mapsto> bundle)\<rparr>)"
| "secrets_apply now (RemoveTrustBundle domain) st =
     Inr (st\<lparr>trusted_bundles := (trusted_bundles st)(domain := None)\<rparr>)"
| "secrets_apply now (SetJwtAlgorithm algorithm) st = Inr (st\<lparr>jwt_algorithm := algorithm\<rparr>)"
| "secrets_apply now WipeJoinSecret st =
     Inr (if join_secret_wiped_at st = None then st\<lparr>join_secret_wiped_at := Some now\<rparr> else st)"

definition node_can_decrypt :: "secrets_state \<Rightarrow> string \<Rightarrow> bool" where
  "node_can_decrypt st node_id \<longleftrightarrow>
     (case wrapped_dek st of None \<Rightarrow> False | Some w \<Rightarrow> wraps w node_id \<noteq> None)"

definition token_revoked :: "secrets_state \<Rightarrow> string \<Rightarrow> bool" where
  "token_revoked st token_hash \<longleftrightarrow> revoked_tokens st token_hash \<noteq> None"

definition trust_bundle_for :: "secrets_state \<Rightarrow> string \<Rightarrow> trust_bundle option" where
  "trust_bundle_for st domain = trusted_bundles st domain"

definition join_secret_wiped :: "secrets_state \<Rightarrow> bool" where
  "join_secret_wiped st \<longleftrightarrow> join_secret_wiped_at st \<noteq> None"

section \<open>Replicas with different clocks\<close>

text \<open>
  Three operations read the clock, so replicas that apply the same operations at different times can
  hold different states. \<open>secrets_agree t\<close> is what they have in common: everything but the recorded
  times of a revocation or of the wipe, and the revocations that are past \<open>t\<close>.
\<close>

definition live_tokens :: "timestamp \<Rightarrow> secrets_state \<Rightarrow> (string \<rightharpoonup> timestamp)" where
  "live_tokens t st = retain_vals (\<lambda>exp. exp > t) (revoked_tokens st)"

definition forget_times :: "node_identity \<Rightarrow> node_identity \<times> bool" where
  "forget_times n = (n\<lparr>revoked_at := None\<rparr>, revoked_at n \<noteq> None)"

definition secrets_agree :: "timestamp \<Rightarrow> secrets_state \<Rightarrow> secrets_state \<Rightarrow> bool" where
  "secrets_agree t a b \<longleftrightarrow>
     map_option forget_times \<circ> sec_nodes a = map_option forget_times \<circ> sec_nodes b \<and>
     wrapped_dek a = wrapped_dek b \<and> secret_rows a = secret_rows b \<and>
     live_tokens t a = live_tokens t b \<and> trusted_bundles a = trusted_bundles b \<and>
     jwt_algorithm a = jwt_algorithm b \<and> join_secret_wiped a = join_secret_wiped b"

text \<open>
  Every revocation of a token carries the expiry of that token, as the operation's documentation asks:
  \<open>expiry\<close> maps a token hash to it.
\<close>

fun op_expiry_ok :: "(string \<Rightarrow> timestamp) \<Rightarrow> secrets_raft_op \<Rightarrow> bool" where
  "op_expiry_ok expiry (RevokeToken h e) \<longleftrightarrow> e = expiry h"
| "op_expiry_ok expiry _ \<longleftrightarrow> True"

definition tokens_expiry_ok :: "(string \<Rightarrow> timestamp) \<Rightarrow> secrets_state \<Rightarrow> bool" where
  "tokens_expiry_ok expiry st \<longleftrightarrow> (\<forall>h e. revoked_tokens st h = Some e \<longrightarrow> e = expiry h)"

lemma retain_vals_Some_iff [simp]: "retain_vals P m k = Some v \<longleftrightarrow> m k = Some v \<and> P v"
  by (auto simp: retain_vals_def split: option.splits)

lemma tokens_expiry_ok_apply:
  assumes "tokens_expiry_ok expiry st" and "op_expiry_ok expiry op" and "secrets_apply now op st = Inr st'"
  shows "tokens_expiry_ok expiry st'"
  using assms by (cases op) (auto simp: tokens_expiry_ok_def Let_def split: option.splits if_splits)

lemma map_eqI_Some: "(\<And>k v. m k = Some v \<longleftrightarrow> n k = Some v) \<Longrightarrow> m = n"
  by (rule ext) (metis not_Some_eq)

lemma live_tokens_revoke:
  assumes "tokens_expiry_ok expiry st" and "now \<le> t" and "secrets_apply now (RevokeToken h (expiry h)) st = Inr st'"
  shows "live_tokens t st' = (if expiry h > t then (live_tokens t st)(h \<mapsto> expiry h) else live_tokens t st)"
proof (rule map_eqI_Some)
  fix k v
  have "revoked_tokens st h = Some e \<Longrightarrow> e = expiry h" for e using assms(1) by (simp add: tokens_expiry_ok_def)
  with assms(2,3) show "live_tokens t st' k = Some v \<longleftrightarrow>
      (if expiry h > t then (live_tokens t st)(h \<mapsto> expiry h) else live_tokens t st) k = Some v"
    by (auto simp: live_tokens_def Let_def split: if_splits)
qed

lemma secrets_agree_nodes:
  assumes "secrets_agree t a b"
  shows "sec_nodes a k = None \<longleftrightarrow> sec_nodes b k = None"
    and "sec_nodes a k = Some x \<Longrightarrow> sec_nodes b k = Some y \<Longrightarrow>
      forget_times x = forget_times y"
  using assms by (auto simp: secrets_agree_def fun_eq_iff) (metis map_option_is_None option.simps(9) option.inject)+

lemma secrets_agree_apply:
  assumes "secrets_agree t a b" and "tokens_expiry_ok expiry a" and "tokens_expiry_ok expiry b"
    and "op_expiry_ok expiry op" and "now \<le> t" and "now' \<le> t"
  shows "case (secrets_apply now op a, secrets_apply now' op b) of
      (Inl e, Inl e') \<Rightarrow> e = e'
    | (Inr a', Inr b') \<Rightarrow> secrets_agree t a' b'
    | _ \<Rightarrow> False"
proof (cases op)
  case (RevokeNode k)
  show ?thesis
  proof (cases "sec_nodes a k")
    case None
    then have "sec_nodes b k = None" using secrets_agree_nodes(1) [OF assms(1), of k] by simp
    with None show ?thesis by (simp add: RevokeNode)
  next
    case (Some x)
    with secrets_agree_nodes(1) [OF assms(1), of k] obtain y where y: "sec_nodes b k = Some y" by auto
    with secrets_agree_nodes(2) [OF assms(1) Some y] assms(1) Some show ?thesis
      by (auto simp: RevokeNode secrets_agree_def forget_times_def live_tokens_def join_secret_wiped_def fun_eq_iff)
  qed
next
  case (RevokeToken h e)
  then have e: "e = expiry h" using assms(4) by simp
  obtain a' b' where ab: "secrets_apply now op a = Inr a'" "secrets_apply now' op b = Inr b'"
    by (simp add: RevokeToken Let_def)
  have "live_tokens t a' = live_tokens t b'"
    using live_tokens_revoke [OF assms(2,5), of h a'] live_tokens_revoke [OF assms(3,6), of h b'] ab assms(1)
    by (simp add: RevokeToken e secrets_agree_def)
  with ab assms(1) show ?thesis
    by (auto simp: RevokeToken secrets_agree_def Let_def join_secret_wiped_def)
next
  case (DeleteSecret k)
  with assms(1) show ?thesis
    by (auto simp: secrets_agree_def live_tokens_def join_secret_wiped_def split: option.splits)
qed (use assms(1) in \<open>auto simp: secrets_agree_def live_tokens_def join_secret_wiped_def fun_eq_iff\<close>)

section \<open>Revocations last\<close>

definition secrets_log_step :: "timestamp \<times> secrets_raft_op \<Rightarrow> secrets_state \<Rightarrow> secrets_state" where
  "secrets_log_step entry st =
     (case secrets_apply (fst entry) (snd entry) st of Inl _ \<Rightarrow> st | Inr st' \<Rightarrow> st')"

definition secrets_log :: "(timestamp \<times> secrets_raft_op) list \<Rightarrow> secrets_state \<Rightarrow> secrets_state" where
  "secrets_log entries st = fold secrets_log_step entries st"

fun revokes_with :: "string \<Rightarrow> timestamp \<Rightarrow> secrets_raft_op \<Rightarrow> bool" where
  "revokes_with h e (RevokeToken h' e') \<longleftrightarrow> (h' = h \<longrightarrow> e' = e)"
| "revokes_with h e _ \<longleftrightarrow> True"

lemma log_step_keeps_revoked:
  assumes "revoked_tokens st h = Some e" and "fst entry < e" and "revokes_with h e (snd entry)"
  shows "revoked_tokens (secrets_log_step entry st) h = Some e"
  using assms by (cases "snd entry") (auto simp: secrets_log_step_def Let_def split: option.splits)

lemma log_keeps_revoked:
  assumes "revoked_tokens st h = Some e" and "\<forall>entry \<in> set entries. fst entry < e \<and> revokes_with h e (snd entry)"
  shows "revoked_tokens (secrets_log entries st) h = Some e"
  using assms unfolding secrets_log_def
  by (induction entries arbitrary: st) (auto simp: log_step_keeps_revoked)



end
