(* ===== verification/Slice_Contract.thy ===== *)
theory Slice_Contract
  imports Prelude
begin

text \<open>
  The contract of an allocator that gives each key a slot of its own: asking again for a key returns
  the slot it has, a new key gets a slot no other key has, and asking fails only when every slot is
  taken. The node slice allocator and the service subnet registry of the overlay both provide it; what
  holds of any sequence of calls is proved here once.
\<close>

datatype 'k slice_op = Assign 'k | Drop 'k

fun slice_step :: "('k \<Rightarrow> 's \<Rightarrow> 'e + ('v \<times> 's)) \<Rightarrow> ('k \<Rightarrow> 's \<Rightarrow> 's) \<Rightarrow> 'k slice_op \<Rightarrow> 's \<Rightarrow> 's" where
  "slice_step assign rel (Assign k) s = (case assign k s of Inl _ \<Rightarrow> s | Inr (_, s') \<Rightarrow> s')"
| "slice_step assign rel (Drop k) s = rel k s"

definition slice_run ::
  "('k \<Rightarrow> 's \<Rightarrow> 'e + ('v \<times> 's)) \<Rightarrow> ('k \<Rightarrow> 's \<Rightarrow> 's) \<Rightarrow> 'k slice_op list \<Rightarrow> 's \<Rightarrow> 's" where
  "slice_run assign rel ops s = fold (slice_step assign rel) ops s"

locale keyed_slices =
  fixes ok :: "'s \<Rightarrow> bool"
    and slots :: "'s \<Rightarrow> 'v set"
    and lookup :: "'s \<Rightarrow> 'k \<Rightarrow> 'v option"
    and assign :: "'k \<Rightarrow> 's \<Rightarrow> 'e + ('v \<times> 's)"
    and rel :: "'k \<Rightarrow> 's \<Rightarrow> 's"
  assumes assign_Inr: "ok s \<Longrightarrow> assign k s = Inr (v, s') \<Longrightarrow>
      ok s' \<and> slots s' = slots s \<and> lookup s' = (lookup s)(k \<mapsto> v) \<and>
      (case lookup s k of Some u \<Rightarrow> v = u | None \<Rightarrow> v \<in> slots s \<and> v \<notin> ran (lookup s))"
    and assign_Inl: "ok s \<Longrightarrow> assign k s = Inl e \<Longrightarrow> lookup s k = None \<and> slots s \<subseteq> ran (lookup s)"
    and rel_ok: "ok s \<Longrightarrow>
      ok (rel k s) \<and> slots (rel k s) = slots s \<and> lookup (rel k s) = (lookup s)(k := None)"
begin

definition apart :: "'s \<Rightarrow> bool" where
  "apart s \<longleftrightarrow> ok s \<and> inj_on (lookup s) (dom (lookup s)) \<and> ran (lookup s) \<subseteq> slots s"

lemma apart_assign:
  assumes "apart s" and "assign k s = Inr (v, s')"
  shows "apart s' \<and> slots s' = slots s"
proof (cases "lookup s k")
  case None
  with assms assign_Inr [of s k v s'] have "lookup s' = (lookup s)(k \<mapsto> v)" "v \<in> slots s"
    "v \<notin> ran (lookup s)" "ok s'" "slots s' = slots s"
    by (simp_all add: apart_def)
  with assms(1) inj_on_dom_upd [of "lookup s" v k] ran_fun_upd_subset [of "lookup s" k v] show ?thesis
    unfolding apart_def by auto
next
  case (Some u)
  with assms assign_Inr [of s k v s'] have "lookup s' = lookup s"
    by (auto simp: apart_def)
  with Some assms assign_Inr [of s k v s'] show ?thesis by (auto simp: apart_def)
qed

lemma apart_rel: "apart s \<Longrightarrow> apart (rel k s) \<and> slots (rel k s) = slots s"
  using rel_ok [of s k] ran_fun_upd_None_subset [of "lookup s" k] inj_on_dom_del [of "lookup s" k]
  unfolding apart_def by auto

lemma apart_step: "apart s \<Longrightarrow> apart (slice_step assign rel a s) \<and> slots (slice_step assign rel a s) = slots s"
  by (cases a) (auto simp: apart_rel dest: apart_assign split: sum.splits)

lemma apart_run: "apart s \<Longrightarrow> apart (slice_run assign rel ops s) \<and> slots (slice_run assign rel ops s) = slots s"
  unfolding slice_run_def using apart_step by (induction ops arbitrary: s) simp_all

lemma run_distinct_slots:
  assumes "apart s" and "lookup (slice_run assign rel ops s) k = Some u"
    and "lookup (slice_run assign rel ops s) j = Some v" and "k \<noteq> j"
  shows "u \<in> slots s \<and> v \<in> slots s \<and> u \<noteq> v"
  using apart_run [OF assms(1), of ops] assms(2-4)
  by (auto simp: apart_def inj_on_def intro: ranI) (metis domI)

lemma assign_fails_iff:
  assumes "apart s"
  shows "(\<exists>e. assign k s = Inl e) \<longleftrightarrow> lookup s k = None \<and> slots s = ran (lookup s)"
proof (cases "assign k s")
  case (Inl e)
  with assms assign_Inl [of s k e] show ?thesis by (auto simp: apart_def)
next
  case (Inr r)
  then obtain v s' where r: "assign k s = Inr (v, s')" by (cases r) auto
  with assms assign_Inr [OF _ r] show ?thesis by (auto simp: apart_def split: option.splits)
qed

end

end
