(* ===== verification/Ip_Networks.thy ===== *)
theory Ip_Networks
  imports Prelude
begin

text \<open>
  IP networks as the overlay uses them. The types and functions of the \<open>ipnet\<close> crate are a
  parameter of the model: a record of the functions the overlay calls, over abstract types of IPv4 and
  IPv6 networks, with \<open>ipnet_ok\<close> stating what that crate documents of them. The rest of the theory
  is the arithmetic of address blocks the allocators rely on, stated for any address width.
\<close>

section \<open>The interface of the ipnet crate\<close>

datatype ('n, 'm) ip_net = V4 'n | V6 'm

record ('n, 'm) ipnet_api =
  v4_new :: "u32 \<Rightarrow> u8 \<Rightarrow> 'n option"
  v4_network :: "'n \<Rightarrow> u32"
  v4_prefix_len :: "'n \<Rightarrow> u8"
  v4_hosts :: "'n \<Rightarrow> u32 list"
  v6_new :: "u128 \<Rightarrow> u8 \<Rightarrow> 'm option"
  v6_network :: "'m \<Rightarrow> u128"
  v6_prefix_len :: "'m \<Rightarrow> u8"
  net_parse :: "string \<Rightarrow> ('n, 'm) ip_net option"
  net_to_string :: "('n, 'm) ip_net \<Rightarrow> string"
  net_contains :: "('n, 'm) ip_net \<Rightarrow> ip_addr \<Rightarrow> bool"
  net_network :: "('n, 'm) ip_net \<Rightarrow> ip_addr"
  net_broadcast :: "('n, 'm) ip_net \<Rightarrow> ip_addr"
  net_prefix_len :: "('n, 'm) ip_net \<Rightarrow> u8"
  net_max_prefix_len :: "('n, 'm) ip_net \<Rightarrow> u8"

text \<open>
  The block of a network: \<open>block_size p\<close> addresses from the network address on, where \<open>p\<close> is the
  prefix length and the address has \<open>LENGTH('a)\<close> bits.
\<close>

definition block_size :: "'a::len itself \<Rightarrow> u8 \<Rightarrow> nat" where
  "block_size _ p = 2 ^ (LENGTH('a) - unat p)"

definition in_block :: "'a::len word \<Rightarrow> u8 \<Rightarrow> 'a word \<Rightarrow> bool" where
  "in_block base p x \<longleftrightarrow>
     unat base \<le> unat x \<and> unat x < unat base + block_size TYPE('a) p"

text \<open>
  What the crate documents: a network is built for every prefix length of the family and no longer
  one, its network address is the given address with the host bits cleared, and two networks are
  equal when address and prefix length are.
\<close>

definition family_ok ::
  "('a::len word \<Rightarrow> u8 \<Rightarrow> 'n option) \<Rightarrow> ('n \<Rightarrow> 'a word) \<Rightarrow> ('n \<Rightarrow> u8) \<Rightarrow> bool" where
  "family_ok mk network plen \<longleftrightarrow>
     (\<forall>a p. mk a p = None \<longleftrightarrow> unat p > LENGTH('a)) \<and>
     (\<forall>a p n. mk a p = Some n \<longrightarrow> plen n = p \<and>
        unat (network n) = unat a div block_size TYPE('a) p * block_size TYPE('a) p) \<and>
     (\<forall>a b p n. mk a p = Some n \<longrightarrow> mk b p = Some n \<longrightarrow> a = b) \<and>
     (\<forall>n. unat (plen n) \<le> LENGTH('a) \<and> block_size TYPE('a) (plen n) dvd unat (network n))"

definition hosts_ok :: "('n, 'm) ipnet_api \<Rightarrow> bool" where
  "hosts_ok api \<longleftrightarrow> (\<forall>n.
     let lo = unat (v4_network api n); hi = lo + block_size TYPE(32) (v4_prefix_len api n) in
     map unat (v4_hosts api n) =
       (if unat (v4_prefix_len api n) < 31 then [Suc lo ..< hi - 1] else [lo ..< hi]))"

definition net_ok :: "('n, 'm) ipnet_api \<Rightarrow> bool" where
  "net_ok api \<longleftrightarrow>
     (\<forall>n a. net_contains api (V4 n) (IpV4 a) \<longleftrightarrow> in_block (v4_network api n) (v4_prefix_len api n) a) \<and>
     (\<forall>m a. net_contains api (V6 m) (IpV6 a) \<longleftrightarrow> in_block (v6_network api m) (v6_prefix_len api m) a) \<and>
     (\<forall>n a. \<not> net_contains api (V4 n) (IpV6 a)) \<and> (\<forall>m a. \<not> net_contains api (V6 m) (IpV4 a)) \<and>
     (\<forall>n. net_network api (V4 n) = IpV4 (v4_network api n) \<and>
          net_prefix_len api (V4 n) = v4_prefix_len api n \<and> net_max_prefix_len api (V4 n) = 32) \<and>
     (\<forall>m. net_network api (V6 m) = IpV6 (v6_network api m) \<and>
          net_prefix_len api (V6 m) = v6_prefix_len api m \<and> net_max_prefix_len api (V6 m) = 128) \<and>
     (\<forall>n. net_parse api (net_to_string api n) = Some n)"

definition ipnet_ok :: "('n, 'm) ipnet_api \<Rightarrow> bool" where
  "ipnet_ok api \<longleftrightarrow>
     family_ok (v4_new api) (v4_network api) (v4_prefix_len api) \<and>
     family_ok (v6_new api) (v6_network api) (v6_prefix_len api) \<and> hosts_ok api \<and> net_ok api"

lemma ipnet_okD:
  assumes "ipnet_ok api"
  shows "family_ok (v4_new api) (v4_network api) (v4_prefix_len api)"
    and "family_ok (v6_new api) (v6_network api) (v6_prefix_len api)"
    and "hosts_ok api" and "net_ok api"
  using assms by (simp_all add: ipnet_ok_def)

lemma net_contains_iff:
  assumes "ipnet_ok api"
  shows "net_contains api (V4 n) ip \<longleftrightarrow>
      (\<exists>a. ip = IpV4 a \<and> in_block (v4_network api n) (v4_prefix_len api n) a)"
    and "net_contains api (V6 m) ip \<longleftrightarrow>
      (\<exists>a. ip = IpV6 a \<and> in_block (v6_network api m) (v6_prefix_len api m) a)"
  using ipnet_okD(4) [OF assms] by (cases ip; simp add: net_ok_def)+

lemma net_fields:
  assumes "ipnet_ok api"
  shows "net_network api (V4 n) = IpV4 (v4_network api n)"
    and "net_prefix_len api (V4 n) = v4_prefix_len api n" and "net_max_prefix_len api (V4 n) = 32"
    and "net_network api (V6 m) = IpV6 (v6_network api m)"
    and "net_prefix_len api (V6 m) = v6_prefix_len api m" and "net_max_prefix_len api (V6 m) = 128"
    and "net_parse api (net_to_string api x) = Some x"
  using ipnet_okD(4) [OF assms] by (simp_all add: net_ok_def)

lemma family_okD:
  fixes mk :: "'a::len word \<Rightarrow> u8 \<Rightarrow> 'n option"
  assumes "family_ok mk network plen"
  shows "mk a p = None \<longleftrightarrow> unat p > LENGTH('a)"
    and "mk a p = Some n \<Longrightarrow> plen n = p"
    and "mk a p = Some n \<Longrightarrow>
      unat (network n) = unat a div block_size TYPE('a) p * block_size TYPE('a) p"
    and "mk a p = Some n \<Longrightarrow> mk b p = Some n \<Longrightarrow> a = b"
    and "unat (plen n) \<le> LENGTH('a)"
    and "block_size TYPE('a) (plen n) dvd unat (network n)"
  using assms unfolding family_ok_def by blast+

section \<open>Address blocks\<close>

lemma block_size_pos [simp]: "0 < block_size TYPE('a::len) p"
  by (simp add: block_size_def)

lemma aligned_end:
  fixes base :: "'a::len word"
  assumes "block_size TYPE('a) p dvd unat base"
  shows "unat base + block_size TYPE('a) p \<le> 2 ^ LENGTH('a)"
proof -
  let ?s = "block_size TYPE('a) p"
  have "?s dvd 2 ^ LENGTH('a)" by (simp add: block_size_def le_imp_power_dvd)
  then have "?s dvd 2 ^ LENGTH('a) - unat base"
    using assms by (metis dvd_diff_nat)
  moreover have "0 < 2 ^ LENGTH('a) - unat base" using unat_bound [of base] by simp
  ultimately have "?s \<le> 2 ^ LENGTH('a) - unat base" by (rule dvd_imp_le)
  with unat_bound [of base] show ?thesis by linarith
qed

text \<open>The address of slice \<open>i\<close> of a block: \<open>i\<close> shifted over the slice's host bits.\<close>

lemma unat_slice_addr:
  fixes base off :: "'a::len word"
  assumes "block_size TYPE('a) c dvd unat base" and "unat c < unat p" and "unat p \<le> LENGTH('a)"
    and "unat off < 2 ^ (unat p - unat c)"
  shows "unat (base + push_bit (LENGTH('a) - unat p) off) =
    unat base + unat off * block_size TYPE('a) p"
proof -
  let ?s = "LENGTH('a) - unat p" and ?b = "unat p - unat c"
  have sb: "?b + ?s = LENGTH('a) - unat c" using assms(2,3) by simp
  have lt: "unat off * 2 ^ ?s < 2 ^ (LENGTH('a) - unat c)"
    using assms(4) by (simp flip: sb add: power_add)
  also have "\<dots> \<le> 2 ^ LENGTH('a)" by (rule power_increasing) simp_all
  finally have "unat (push_bit ?s off) = unat off * 2 ^ ?s"
    by (simp add: unsigned_push_bit_eq take_bit_nat_eq_self push_bit_nat_def)
  moreover have "unat base + unat off * 2 ^ ?s < 2 ^ LENGTH('a)"
    using aligned_end [OF assms(1)] lt by (simp add: block_size_def)
  ultimately show ?thesis
    by (simp add: unat_word_ariths block_size_def)
qed

lemma slice_in_block:
  fixes base off x :: "'a::len word"
  assumes "block_size TYPE('a) c dvd unat base" and "unat c < unat p" and "unat p \<le> LENGTH('a)"
    and "unat off < 2 ^ (unat p - unat c)"
    and "in_block (base + push_bit (LENGTH('a) - unat p) off) p x"
  shows "in_block base c x"
proof -
  let ?s = "block_size TYPE('a) p"
  have sz: "block_size TYPE('a) c = 2 ^ (unat p - unat c) * ?s"
    using assms(2,3) by (simp add: block_size_def flip: power_add)
  have "unat off * ?s + ?s \<le> 2 ^ (unat p - unat c) * ?s"
    using mult_le_mono1 [of "Suc (unat off)" "2 ^ (unat p - unat c)" ?s] assms(4) by simp
  with assms(5) show ?thesis
    by (simp add: in_block_def unat_slice_addr [OF assms(1-4)] sz)
qed

lemma slice_aligned:
  fixes base off :: "'a::len word"
  assumes "block_size TYPE('a) c dvd unat base" and "unat c < unat p" and "unat p \<le> LENGTH('a)"
    and "unat off < 2 ^ (unat p - unat c)"
  shows "block_size TYPE('a) p dvd unat (base + push_bit (LENGTH('a) - unat p) off)"
proof -
  have "block_size TYPE('a) p dvd block_size TYPE('a) c"
    unfolding block_size_def using assms(2) by (intro le_imp_power_dvd) simp
  then show ?thesis
    using dvd_trans [OF _ assms(1)] by (simp add: unat_slice_addr [OF assms])
qed

lemma slices_disjoint:
  fixes base off :: "'a::len word"
  assumes "block_size TYPE('a) c dvd unat base" and "unat c < unat p" and "unat p \<le> LENGTH('a)"
    and "unat off < 2 ^ (unat p - unat c)" and "unat off' < 2 ^ (unat p - unat c)"
    and "in_block (base + push_bit (LENGTH('a) - unat p) off) p x"
    and "in_block (base + push_bit (LENGTH('a) - unat p) off') p x"
  shows "off = off'"
proof -
  let ?s = "block_size TYPE('a) p"
  have div: "(unat x - unat base) div ?s = unat o'" if "unat o' < 2 ^ (unat p - unat c)"
    "in_block (base + push_bit (LENGTH('a) - unat p) o') p x" for o'
  proof -
    from that(2) have "unat o' * ?s \<le> unat x - unat base" "unat x - unat base < Suc (unat o') * ?s"
      by (auto simp: in_block_def unat_slice_addr [OF assms(1-3) that(1)])
    then show ?thesis by (intro div_nat_eqI) (simp_all add: mult.commute)
  qed
  from div [OF assms(4,6)] div [OF assms(5,7)] show ?thesis
    by (simp add: word_unat_eq_iff)
qed

section \<open>A concrete instance\<close>

text \<open>
  Networks as pairs of an address and a prefix length keep every documented law. IPv4 networks are
  written in dotted form, IPv6 networks as the address in decimal after \<open>v6:\<close>.
\<close>

definition mask_to :: "'a::len word \<Rightarrow> u8 \<Rightarrow> 'a word" where
  "mask_to a p = word_of_nat (unat a div block_size TYPE('a) p * block_size TYPE('a) p)"

type_synonym 'a cidr = "'a word \<times> u8"

definition cidr_addr :: "'a::len cidr \<Rightarrow> 'a word" where
  "cidr_addr n = fst n"

definition cidr_prefix :: "'a::len cidr \<Rightarrow> u8" where
  "cidr_prefix n = (if unat (snd n) \<le> LENGTH('a) then snd n else 0)"

definition cidr_new :: "'a::len word \<Rightarrow> u8 \<Rightarrow> 'a cidr option" where
  "cidr_new a p = (if unat p \<le> LENGTH('a) then Some (a, p) else None)"

lemma cidr_prefix_le: "unat (cidr_prefix (n :: 'a::len cidr)) \<le> LENGTH('a)"
  by (simp add: cidr_prefix_def)

lemma cidr_new_Some:
  "cidr_new a p = Some n \<longleftrightarrow> n = (a, p) \<and> unat p \<le> LENGTH('a)" for a :: "'a::len word"
  by (auto simp: cidr_new_def)

definition cidr_network :: "'a::len cidr \<Rightarrow> 'a word" where
  "cidr_network n = mask_to (cidr_addr n) (cidr_prefix n)"

lemma unat_mask_to:
  fixes a :: "'a::len word"
  shows "unat (mask_to a p) = unat a div block_size TYPE('a) p * block_size TYPE('a) p"
proof -
  have "unat a div block_size TYPE('a) p * block_size TYPE('a) p < 2 ^ LENGTH('a)"
    using unat_bound [of a] div_times_less_eq_dividend [of "unat a"] le_less_trans by blast
  then show ?thesis by (simp only: mask_to_def unat_of_nat mod_less)
qed

lemma cidr_family_ok: "family_ok cidr_new cidr_network (cidr_prefix :: 'a::len cidr \<Rightarrow> u8)"
  using cidr_prefix_le
  by (auto simp: family_ok_def cidr_new_Some cidr_network_def unat_mask_to cidr_addr_def cidr_prefix_def)
     (auto simp: cidr_new_def split: if_splits)

definition cidr_hosts :: "32 cidr \<Rightarrow> u32 list" where
  "cidr_hosts n =
     (let lo = unat (cidr_network n); hi = lo + block_size TYPE(32) (cidr_prefix n) in
      map word_of_nat (if unat (cidr_prefix n) < 31 then [Suc lo ..< hi - 1] else [lo ..< hi]))"

fun cidr_show :: "(32 cidr, 128 cidr) ip_net \<Rightarrow> string" where
  "cidr_show (V4 n) =
     (let a = unat (fst n) in
      show_nat (a div 16777216) @ ''.'' @ show_nat (a div 65536 mod 256) @ ''.'' @
      show_nat (a div 256 mod 256) @ ''.'' @ show_nat (a mod 256) @ ''/'' @ show_word (snd n))"
| "cidr_show (V6 n) = ''v6:'' @ show_word (fst n) @ ''/'' @ show_word (snd n)"

definition read_num :: "string \<Rightarrow> nat \<times> string" where
  "read_num s = (let d = takeWhile is_digit s in (read_nat d, drop (Suc (length d)) s))"

definition cidr_parse :: "string \<Rightarrow> (32 cidr, 128 cidr) ip_net option" where
  "cidr_parse s =
     (if take 3 s = ''v6:'' then
        let (a, s) = read_num (drop 3 s); (p, s) = read_num s in
        Some (V6 (word_of_nat a, word_of_nat p))
      else
        let (a, s) = read_num s; (b, s) = read_num s; (c, s) = read_num s; (d, s) = read_num s;
            (p, s) = read_num s in
        Some (V4 (word_of_nat (a * 16777216 + b * 65536 + c * 256 + d), word_of_nat p)))"

fun cidr_contains :: "(32 cidr, 128 cidr) ip_net \<Rightarrow> ip_addr \<Rightarrow> bool" where
  "cidr_contains (V4 n) (IpV4 a) = in_block (cidr_network n) (cidr_prefix n) a"
| "cidr_contains (V6 m) (IpV6 a) = in_block (cidr_network m) (cidr_prefix m) a"
| "cidr_contains _ _ = False"

definition cidr_api :: "(32 cidr, 128 cidr) ipnet_api" where
  "cidr_api =
     \<lparr> v4_new = cidr_new, v4_network = cidr_network, v4_prefix_len = cidr_prefix, v4_hosts = cidr_hosts,
       v6_new = cidr_new, v6_network = cidr_network, v6_prefix_len = cidr_prefix,
       net_parse = cidr_parse, net_to_string = cidr_show, net_contains = cidr_contains,
       net_network = (\<lambda>n. case n of V4 n \<Rightarrow> IpV4 (cidr_network n) | V6 n \<Rightarrow> IpV6 (cidr_network n)),
       net_broadcast = (\<lambda>n. case n of
          V4 n \<Rightarrow> IpV4 (cidr_network n + word_of_nat (block_size TYPE(32) (cidr_prefix n) - 1))
        | V6 n \<Rightarrow> IpV6 (cidr_network n + word_of_nat (block_size TYPE(128) (cidr_prefix n) - 1))),
       net_prefix_len = (\<lambda>n. case n of V4 n \<Rightarrow> cidr_prefix n | V6 n \<Rightarrow> cidr_prefix n),
       net_max_prefix_len = (\<lambda>n. case n of V4 n \<Rightarrow> 32 | V6 n \<Rightarrow> 128) \<rparr>"

lemma read_num_show:
  "\<not> is_digit c \<Longrightarrow> read_num (show_nat n @ c # s) = (n, s)" "read_num (show_nat n) = (n, [])"
proof -
  have "takeWhile is_digit (show_nat n @ c # s) = show_nat n" if "\<not> is_digit c"
    using that by (subst takeWhile_append2) (auto dest: show_nat_digits)
  then show "\<not> is_digit c \<Longrightarrow> read_num (show_nat n @ c # s) = (n, s)"
    by (simp add: read_num_def Let_def)
  have "takeWhile is_digit (show_nat n) = show_nat n"
    using show_nat_digits by (simp add: takeWhile_eq_all_conv)
  then show "read_num (show_nat n) = (n, [])"
    unfolding read_num_def Let_def by (simp only: read_show_nat) simp
qed

lemma dotted_join:
  "n div 16777216 * 16777216 + n div 65536 mod 256 * 65536 + n div 256 mod 256 * 256 + n mod 256 = (n :: nat)"
proof -
  have d: "n div 65536 = n div 256 div 256" "n div 16777216 = n div 256 div 256 div 256"
    by (simp_all add: div_mult2_eq [symmetric])
  show ?thesis
    unfolding d using div_mult_mod_eq [of n 256] div_mult_mod_eq [of "n div 256" 256]
      div_mult_mod_eq [of "n div 256 div 256" 256] by linarith
qed

lemma show_nat_not_v6: "take 3 (show_nat n @ s) \<noteq> ''v6:''"
proof
  assume eq: "take 3 (show_nat n @ s) = ''v6:''"
  obtain c cs where c: "show_nat n = c # cs" using show_nat_nonempty [of n] by (cases "show_nat n") auto
  with eq have "c = CHR ''v''" by simp
  with c show_nat_digits [of c n] show False by (simp add: is_digit_def)
qed

lemma cidr_parse_show: "cidr_parse (cidr_show x) = Some x"
proof (cases x)
  case (V4 n)
  then show ?thesis
    using show_nat_not_v6
    by (simp add: cidr_parse_def Let_def read_num_show is_digit_def prod_eq_iff dotted_join
        del: of_nat_add of_nat_mult)
next
  case (V6 n)
  then show ?thesis by (simp add: cidr_parse_def Let_def read_num_show is_digit_def)
qed

lemma cidr_hosts_ok: "hosts_ok cidr_api"
proof -
  have unat_back: "map unat (map (word_of_nat :: nat \<Rightarrow> u32) xs) = xs" if "\<And>x. x \<in> set xs \<Longrightarrow> x < 2 ^ 32" for xs
    using that by (induction xs) (auto simp: unat_of_nat take_bit_nat_eq_self)
  have "unat (cidr_network n) + block_size TYPE(32) (cidr_prefix n) \<le> 2 ^ 32" for n :: "32 cidr"
    using aligned_end [OF family_okD(6) [OF cidr_family_ok], of n] by simp
  note limit = less_le_trans [OF _ this]
  show ?thesis
    unfolding hosts_ok_def cidr_api_def cidr_hosts_def Let_def select_convs
    by (intro allI) (rule unat_back, rule limit, auto split: if_splits)
qed

lemma cidr_api_ok: "ipnet_ok cidr_api"
proof -
  have "net_ok cidr_api" by (simp add: net_ok_def cidr_api_def cidr_parse_show)
  moreover have "family_ok (v4_new cidr_api) (v4_network cidr_api) (v4_prefix_len cidr_api)"
    "family_ok (v6_new cidr_api) (v6_network cidr_api) (v6_prefix_len cidr_api)"
    by (simp_all add: cidr_api_def cidr_family_ok)
  ultimately show ?thesis by (simp add: ipnet_ok_def cidr_hosts_ok)
qed

end
