(* ===== verification/Ip_Allocator.thy ===== *)
theory Ip_Allocator
  imports Pool_Contract Ip_Networks
begin

text \<open>
  The address allocator of the overlay, \<open>IpAllocator\<close> of
  \<open>crates/zlayer-overlay/src/allocator.rs\<close>, over the interface of the ipnet crate. The set of
  allocated addresses is a list without duplicates, in the order the hash set is iterated. Reading
  and writing the state file is not modelled; the conversion to and from the persistent state is.
\<close>

section \<open>State\<close>

datatype overlay_error =
    InvalidCidr
  | NoAvailableIps
  | IpAlreadyAllocated ip_addr
  | IpNotInRange ip_addr string
  | Panicked

record ('n, 'm) ip_allocator =
  ia_network :: "('n, 'm) ip_net"
  allocated :: "ip_addr list"

record ip_allocator_state =
  state_cidr :: string
  state_allocated :: "ip_addr list"

section \<open>Operations\<close>

definition ipv6_add :: "u128 \<Rightarrow> u128 \<Rightarrow> u128 option" where
  "ipv6_add base offset = checked_add base offset"

definition host_count :: "bool \<Rightarrow> u8 \<Rightarrow> u128" where
  "host_count is_ipv6 prefix_len =
     (if is_ipv6 then
        let bits = 128 - (ucast prefix_len :: u32) in
        if bits = 128 then - 1 else if bits = 0 then 0 else push_bit (unat bits) 1 - 1
      else
        let bits = 32 - (ucast prefix_len :: u32) in
        if bits \<le> 1 then 0 else push_bit (unat bits) 1 - 2)"

definition ip_allocator_new :: "('n, 'm) ipnet_api \<Rightarrow> string \<Rightarrow> overlay_error + ('n, 'm) ip_allocator" where
  "ip_allocator_new api cidr =
     and_then (ok_or (net_parse api cidr) InvalidCidr) (\<lambda>network.
       Inr \<lparr> ia_network = network, allocated = [] \<rparr>)"

definition mark_allocated ::
  "('n, 'm) ipnet_api \<Rightarrow> ip_addr \<Rightarrow> ('n, 'm) ip_allocator \<Rightarrow> overlay_error + ('n, 'm) ip_allocator" where
  "mark_allocated api ip a =
     (if \<not> net_contains api (ia_network a) ip
      then Inl (IpNotInRange ip (net_to_string api (ia_network a)))
      else Inr (a\<lparr>allocated := List.insert ip (allocated a)\<rparr>))"

fun mark_all ::
  "('n, 'm) ipnet_api \<Rightarrow> ip_addr list \<Rightarrow> ('n, 'm) ip_allocator \<Rightarrow> overlay_error + ('n, 'm) ip_allocator" where
  "mark_all api [] a = Inr a"
| "mark_all api (ip # ips) a = and_then (mark_allocated api ip a) (mark_all api ips)"

definition from_state ::
  "('n, 'm) ipnet_api \<Rightarrow> ip_allocator_state \<Rightarrow> overlay_error + ('n, 'm) ip_allocator" where
  "from_state api st =
     and_then (ip_allocator_new api (state_cidr st)) (mark_all api (state_allocated st))"

definition to_state :: "('n, 'm) ipnet_api \<Rightarrow> ('n, 'm) ip_allocator \<Rightarrow> ip_allocator_state" where
  "to_state api a =
     \<lparr> state_cidr = net_to_string api (ia_network a), state_allocated = allocated a \<rparr>"

function v6_scan :: "ip_addr list \<Rightarrow> u128 \<Rightarrow> u128 \<Rightarrow> nat \<Rightarrow> u128 option" where
  "v6_scan used base total_n offset =
     (if offset > unat total_n then None
      else case ipv6_add base (word_of_nat offset) of
             None \<Rightarrow> None
           | Some candidate \<Rightarrow>
               if IpV6 candidate \<notin> set used then Some candidate
               else v6_scan used base total_n (Suc offset))"
  by pat_completeness auto
termination
  by (relation "measure (\<lambda>(_, _, total_n, offset). Suc (unat total_n) - offset)") auto

declare v6_scan.simps [simp del]

definition ip_allocate ::
  "('n, 'm) ipnet_api \<Rightarrow> ('n, 'm) ip_allocator \<Rightarrow> (ip_addr \<times> ('n, 'm) ip_allocator) option" where
  "ip_allocate api a =
     (case ia_network a of
        V4 n \<Rightarrow>
          (case find (\<lambda>ip. IpV4 ip \<notin> set (allocated a)) (v4_hosts api n) of
             None \<Rightarrow> None
           | Some ip \<Rightarrow> Some (IpV4 ip, a\<lparr>allocated := List.insert (IpV4 ip) (allocated a)\<rparr>))
      | V6 m \<Rightarrow>
          let base = v6_network api m;
              total_n = host_count True (v6_prefix_len api m) in
          (case v6_scan (allocated a) base total_n 1 of
             None \<Rightarrow> None
           | Some ip \<Rightarrow> Some (IpV6 ip, a\<lparr>allocated := List.insert (IpV6 ip) (allocated a)\<rparr>)))"

definition ip_allocate_specific ::
  "('n, 'm) ipnet_api \<Rightarrow> ip_addr \<Rightarrow> ('n, 'm) ip_allocator \<Rightarrow> overlay_error + ('n, 'm) ip_allocator" where
  "ip_allocate_specific api ip a =
     (if \<not> net_contains api (ia_network a) ip
      then Inl (IpNotInRange ip (net_to_string api (ia_network a)))
      else if ip \<in> set (allocated a) then Inl (IpAlreadyAllocated ip)
      else Inr (a\<lparr>allocated := List.insert ip (allocated a)\<rparr>))"

definition first_host :: "('n, 'm) ipnet_api \<Rightarrow> ('n, 'm) ip_net \<Rightarrow> ip_addr option" where
  "first_host api net =
     (case net of
        V4 n \<Rightarrow> (case v4_hosts api n of [] \<Rightarrow> None | ip # _ \<Rightarrow> Some (IpV4 ip))
      | V6 m \<Rightarrow> map_option IpV6 (ipv6_add (v6_network api m) 1))"

definition allocate_first ::
  "('n, 'm) ipnet_api \<Rightarrow> ('n, 'm) ip_allocator \<Rightarrow> overlay_error + (ip_addr \<times> ('n, 'm) ip_allocator)" where
  "allocate_first api a =
     and_then (ok_or (first_host api (ia_network a)) NoAvailableIps) (\<lambda>first_ip.
       if first_ip \<in> set (allocated a) then Inl (IpAlreadyAllocated first_ip)
       else Inr (first_ip, a\<lparr>allocated := List.insert first_ip (allocated a)\<rparr>))"

definition ip_release :: "ip_addr \<Rightarrow> ('n, 'm) ip_allocator \<Rightarrow> bool \<times> ('n, 'm) ip_allocator" where
  "ip_release ip a = (ip \<in> set (allocated a), a\<lparr>allocated := removeAll ip (allocated a)\<rparr>)"

definition is_allocated :: "('n, 'm) ip_allocator \<Rightarrow> ip_addr \<Rightarrow> bool" where
  "is_allocated a ip \<longleftrightarrow> ip \<in> set (allocated a)"

definition ip_contains :: "('n, 'm) ipnet_api \<Rightarrow> ('n, 'm) ip_allocator \<Rightarrow> ip_addr \<Rightarrow> bool" where
  "ip_contains api a ip = net_contains api (ia_network a) ip"

definition allocated_count :: "('n, 'm) ip_allocator \<Rightarrow> nat" where
  "allocated_count a = length (allocated a)"

definition total_hosts :: "('n, 'm) ipnet_api \<Rightarrow> ('n, 'm) ip_allocator \<Rightarrow> u32" where
  "total_hosts api a =
     (let is_v6 = (case ia_network a of V4 _ \<Rightarrow> False | V6 _ \<Rightarrow> True);
          count = host_count is_v6 (net_prefix_len api (ia_network a))
      in if count > ucast (- 1 :: u32) then - 1 else ucast count)"

definition available_count :: "('n, 'm) ipnet_api \<Rightarrow> ('n, 'm) ip_allocator \<Rightarrow> u32" where
  "available_count api a = sat_sub (total_hosts api a) (word_of_nat (length (allocated a)))"

definition first_ip_from_cidr :: "('n, 'm) ipnet_api \<Rightarrow> string \<Rightarrow> overlay_error + ip_addr" where
  "first_ip_from_cidr api cidr =
     and_then (ok_or (net_parse api cidr) InvalidCidr) (\<lambda>network.
       ok_or (first_host api network) NoAvailableIps)"

section \<open>Usable addresses\<close>

text \<open>
  The addresses the allocator is meant to hand out: those of the network, without the network
  address and, for IPv4, without the broadcast address; IPv4 networks of at most two addresses
  have neither.
\<close>

fun usable :: "('n, 'm) ipnet_api \<Rightarrow> ('n, 'm) ip_net \<Rightarrow> ip_addr set" where
  "usable api (V4 n) =
     IpV4 ` {x. in_block (v4_network api n) (v4_prefix_len api n) x \<and>
       (unat (v4_prefix_len api n) < 31 \<longrightarrow> x \<noteq> v4_network api n \<and>
          Suc (unat x) \<noteq> unat (v4_network api n) + block_size TYPE(32) (v4_prefix_len api n))}"
| "usable api (V6 m) =
     IpV6 ` {x. in_block (v6_network api m) (v6_prefix_len api m) x \<and> x \<noteq> v6_network api m}"

text \<open>What the loops of the allocator range over.\<close>

fun candidates :: "('n, 'm) ipnet_api \<Rightarrow> ('n, 'm) ip_net \<Rightarrow> ip_addr set" where
  "candidates api (V4 n) = IpV4 ` set (v4_hosts api n)"
| "candidates api (V6 m) =
     IpV6 ` {c. \<exists>k. 1 \<le> k \<and> k \<le> unat (host_count True (v6_prefix_len api m)) \<and>
       ipv6_add (v6_network api m) (word_of_nat k) = Some c}"

lemma ipv6_add_Some_iff:
  "ipv6_add base off = Some c \<longleftrightarrow> unat base + unat off < 2 ^ 128 \<and> unat c = unat base + unat off"
proof (cases "unat base + unat off < 2 ^ 128")
  case True
  then have "unat (base + off) = unat base + unat off" by (simp add: unat_word_ariths)
  with True show ?thesis by (auto simp: ipv6_add_def checked_add_Some_iff word_unat_eq_iff)
qed (simp add: ipv6_add_def checked_add_Some_iff)

lemma unat_word_of_nat_le: "k \<le> unat (w :: 'a::len word) \<Longrightarrow> unat (word_of_nat k :: 'a word) = k"
  using le_less_trans [OF _ unat_bound, of k w] by (simp add: unat_of_nat)

lemma v6_scan_None:
  assumes "v6_scan used base total_n k = None" and "k \<le> i" and "i \<le> unat total_n"
    and "ipv6_add base (word_of_nat i) = Some c"
  shows "IpV6 c \<in> set used"
  using assms
proof (induction used base total_n k rule: v6_scan.induct)
  case (1 used base total_n k)
  have "unat base + k \<le> unat base + i" "unat base + i < 2 ^ 128"
    using 1(3,4,5) by (auto simp: ipv6_add_Some_iff unat_word_of_nat_le)
  then obtain d where d: "ipv6_add base (word_of_nat k) = Some d"
    using 1(3,4) by (cases "ipv6_add base (word_of_nat k)")
      (auto simp: ipv6_add_def checked_add_def unat_word_of_nat_le [OF le_trans [OF 1(3,4)]] split: if_splits)
  with 1(2,3,4) have next_scan: "IpV6 d \<in> set used" "v6_scan used base total_n (Suc k) = None"
    by (simp_all add: v6_scan.simps [of used base total_n k] split: if_splits)
  show ?case
  proof (cases "k = i")
    case True
    with d 1(5) next_scan show ?thesis by simp
  next
    case False
    with 1(3,4) have "\<not> k > unat total_n" "Suc k \<le> i" by simp_all
    with 1(1) [OF _ d] next_scan 1(4,5) show ?thesis by simp
  qed
qed

lemma v6_scan_Some:
  assumes "v6_scan used base total_n k = Some c"
  shows "IpV6 c \<notin> set used \<and> (\<exists>i. k \<le> i \<and> i \<le> unat total_n \<and>
    ipv6_add base (word_of_nat i) = Some c \<and>
    (\<forall>j d. k \<le> j \<longrightarrow> j < i \<longrightarrow> ipv6_add base (word_of_nat j) = Some d \<longrightarrow> IpV6 d \<in> set used))"
  using assms
proof (induction used base total_n k rule: v6_scan.induct)
  case (1 used base total_n k)
  then obtain d where k: "k \<le> unat total_n" and d: "ipv6_add base (word_of_nat k) = Some d"
    by (auto simp: v6_scan.simps [of used base total_n k] split: if_splits option.splits)
  show ?case
  proof (cases "IpV6 d \<in> set used")
    case True
    with 1 k d have "v6_scan used base total_n (Suc k) = Some c"
      by (simp add: v6_scan.simps [of used base total_n k])
    with 1(1) k d True obtain i where i: "IpV6 c \<notin> set used" "Suc k \<le> i" "i \<le> unat total_n"
        "ipv6_add base (word_of_nat i) = Some c"
      and before: "\<And>j e. Suc k \<le> j \<Longrightarrow> j < i \<Longrightarrow> ipv6_add base (word_of_nat j) = Some e \<Longrightarrow> IpV6 e \<in> set used"
      by force
    have "IpV6 e \<in> set used" if "k \<le> j" "j < i" "ipv6_add base (word_of_nat j) = Some e" for j e
      using before [of j e] that True d by (cases "j = k") auto
    with i show ?thesis by (meson Suc_leD)
  next
    case False
    with 1 k d have "d = c" by (simp add: v6_scan.simps [of used base total_n k])
    with False k d show ?thesis by (intro conjI exI [of _ k]) auto
  qed
qed

section \<open>The allocator keeps the pool contract\<close>

abbreviation take_ip ::
  "('n, 'm) ipnet_api \<Rightarrow> ip_addr \<Rightarrow> ('n, 'm) ip_allocator \<Rightarrow> ('n, 'm) ip_allocator option" where
  "take_ip api ip a \<equiv> (case ip_allocate_specific api ip a of Inl _ \<Rightarrow> None | Inr a' \<Rightarrow> Some a')"

lemma ip_allocate_cases:
  assumes "ip_allocate api a = Some (ip, a')"
  shows "ip \<in> candidates api (ia_network a) \<and> ip \<notin> set (allocated a) \<and>
    a' = a\<lparr>allocated := List.insert ip (allocated a)\<rparr>"
  using assms
  by (cases "ia_network a")
     (fastforce simp: ip_allocate_def Let_def find_Some_iff split: option.splits dest!: v6_scan_Some)+

lemma ip_allocate_None:
  assumes "ip_allocate api a = None"
  shows "candidates api (ia_network a) \<subseteq> set (allocated a)"
  using assms
  by (cases "ia_network a")
     (auto simp: ip_allocate_def Let_def find_None_iff split: option.splits dest: v6_scan_None)

interpretation ipa: pool "\<lambda>a. set (allocated a)" "\<lambda>a. candidates api (ia_network a)"
  "\<lambda>a. {ip. net_contains api (ia_network a) ip}" "ip_allocate api" "take_ip api" "\<lambda>ip a. snd (ip_release ip a)"
  for api
proof (unfold_locales, goal_cases)
  case (1 s r s')
  then show ?case by (auto dest: ip_allocate_cases)
next
  case (2 s)
  then show ?case by (rule ip_allocate_None)
qed (auto simp: ip_allocate_specific_def ip_release_def split: if_splits sum.splits)

section \<open>Candidates are the usable addresses\<close>

lemma unat_bits: "unat p \<le> unat (w :: u32) \<Longrightarrow> unat (w - ucast (p :: u8)) = unat w - unat p"
proof -
  have "unat (ucast p :: u32) = unat p"
    using unat_bound [of p] by (simp add: unsigned_ucast_eq take_bit_nat_eq_self)
  then show "unat p \<le> unat w \<Longrightarrow> unat (w - ucast p) = unat w - unat p"
    by (simp add: unat_sub word_le_nat_alt)
qed

lemma unat_pow_minus:
  assumes "0 < b" and "b < 128" and "c \<le> 2"
  shows "unat (push_bit b 1 - (word_of_nat c :: u128)) = 2 ^ b - c"
proof -
  have "unat (push_bit b 1 :: u128) = 2 ^ b"
    using assms(2) by (subst unsigned_push_bit_eq) (simp add: take_bit_nat_eq_self)
  moreover have "unat (word_of_nat c :: u128) = c"
    using assms(3) by (simp add: unat_of_nat)
  moreover have "c \<le> 2 ^ b"
    using assms(1,3) power_increasing [of 1 b "2 :: nat"] by simp
  ultimately show ?thesis by (simp add: unat_sub word_le_nat_alt)
qed

lemma unat_host_count_v6:
  assumes "unat p \<le> 128"
  shows "unat (host_count True p) = block_size TYPE(128) p - 1"
proof -
  have bits: "unat (128 - (ucast p :: u32)) = 128 - unat p"
    using unat_bits [of p 128] assms by simp
  have "128 - (ucast p :: u32) = 128 \<longleftrightarrow> unat p = 0" "128 - (ucast p :: u32) = 0 \<longleftrightarrow> unat p = 128"
    using assms unfolding word_unat_eq_iff bits by auto
  then show ?thesis
    using unat_pow_minus [of "128 - unat p" 1] unat_max_word [where 'a = 128] assms
    by (auto simp: host_count_def Let_def bits block_size_def)
qed

lemma unat_host_count_v4:
  assumes "unat p \<le> 32"
  shows "unat (host_count False p) = (if unat p \<ge> 31 then 0 else block_size TYPE(32) p - 2)"
proof -
  have bits: "unat (32 - (ucast p :: u32)) = 32 - unat p"
    using unat_bits [of p 32] assms by simp
  have "32 - (ucast p :: u32) \<le> 1 \<longleftrightarrow> unat p \<ge> 31"
    using assms unfolding word_le_nat_alt bits by auto
  then show ?thesis
    using unat_pow_minus [of "32 - unat p" 2] assms
    by (auto simp: host_count_def Let_def bits block_size_def)
qed

lemma set_v4_hosts:
  assumes "ipnet_ok api"
  shows "x \<in> set (v4_hosts api n) \<longleftrightarrow> IpV4 x \<in> usable api (V4 n)"
proof -
  let ?lo = "unat (v4_network api n)" and ?s = "block_size TYPE(32) (v4_prefix_len api n)"
  have "x \<in> set (v4_hosts api n) \<longleftrightarrow> unat x \<in> set (map unat (v4_hosts api n))"
    by (auto simp: word_unat_eq_iff) (metis word_unat_eq_iff)
  also have "\<dots> \<longleftrightarrow> unat x \<in> set (if unat (v4_prefix_len api n) < 31 then [Suc ?lo ..< ?lo + ?s - 1] else [?lo ..< ?lo + ?s])"
    using ipnet_okD(3) [OF assms] by (simp add: hosts_ok_def Let_def)
  also have "\<dots> \<longleftrightarrow> IpV4 x \<in> usable api (V4 n)"
    by (auto simp: in_block_def word_unat_eq_iff)
  finally show ?thesis .
qed

lemma v6_candidate_iff:
  assumes "ipnet_ok api"
  shows "IpV6 x \<in> candidates api (V6 m) \<longleftrightarrow> IpV6 x \<in> usable api (V6 m)"
proof -
  let ?p = "v6_prefix_len api m" and ?b = "v6_network api m"
  note fam = family_okD(5,6) [OF ipnet_okD(2) [OF assms], of m]
  have cnt: "unat (host_count True ?p) = block_size TYPE(128) ?p - 1"
    by (rule unat_host_count_v6) (use fam in simp)
  have fit: "unat ?b + block_size TYPE(128) ?p \<le> 2 ^ 128"
    using aligned_end [OF fam(2)] by simp
  have off: "unat (word_of_nat k :: u128) = k" if "k \<le> block_size TYPE(128) ?p - 1" for k
    using that unat_word_of_nat_le [of k "host_count True ?p"] by (simp add: cnt)
  have "IpV6 x \<in> candidates api (V6 m) \<longleftrightarrow>
      (\<exists>k. 1 \<le> k \<and> k \<le> unat (host_count True ?p) \<and> ipv6_add ?b (word_of_nat k) = Some x)"
    by auto
  also have "\<dots> \<longleftrightarrow>
      (\<exists>k. 1 \<le> k \<and> k \<le> block_size TYPE(128) ?p - 1 \<and> unat ?b + k < 2 ^ 128 \<and> unat x = unat ?b + k)"
    unfolding ipv6_add_Some_iff cnt using off by (metis (no_types))
  also have "\<dots> \<longleftrightarrow> unat ?b < unat x \<and> unat x < unat ?b + block_size TYPE(128) ?p"
  proof
    assume "unat ?b < unat x \<and> unat x < unat ?b + block_size TYPE(128) ?p"
    then show "\<exists>k. 1 \<le> k \<and> k \<le> block_size TYPE(128) ?p - 1 \<and> unat ?b + k < 2 ^ 128 \<and> unat x = unat ?b + k"
      using fit by (intro exI [of _ "unat x - unat ?b"]) auto
  qed (use block_size_pos [where 'a = 128, of ?p] in auto)
  also have "\<dots> \<longleftrightarrow> IpV6 x \<in> usable api (V6 m)"
    by (auto simp: in_block_def word_unat_eq_iff)
  finally show ?thesis .
qed

lemma candidates_usable: "ipnet_ok api \<Longrightarrow> candidates api net = usable api net"
proof (cases net)
  case (V4 n)
  assume "ipnet_ok api"
  then show ?thesis using set_v4_hosts [of api _ n] by (auto simp: V4 simp del: usable.simps) auto
next
  case (V6 m)
  assume "ipnet_ok api"
  from v6_candidate_iff [OF this, of _ m] show ?thesis unfolding V6 by auto
qed

lemma usable_contained:
  "ipnet_ok api \<Longrightarrow> ip \<in> usable api net \<Longrightarrow> net_contains api net ip"
  by (cases net) (auto simp: net_contains_iff)

section \<open>Properties of the allocator\<close>

text \<open>
  C9. Over any sequence of automatic allocations, requests for a given address and releases on a new
  allocator, no address is handed out while it is held, the allocator's record of held addresses is
  exactly what its answers say, and every held address lies in the configured network.
\<close>

theorem ip_allocator_exclusive:
  assumes "ipnet_ok api" and "ip_allocator_new api cidr = Inr a"
    and "pool_run (ip_allocate api) (take_ip api) (\<lambda>ip a. snd (ip_release ip a)) a ops = (events, b)"
  shows "exclusive {} events \<and> set (allocated b) = held {} events \<and>
    (\<forall>ip \<in> set (allocated b). net_contains api (ia_network a) ip)"
proof -
  have a: "allocated a = []" using assms(2) by (auto simp: ip_allocator_new_def and_then_Inr_iff)
  have "set (allocated b) \<subseteq> {ip. net_contains api (ia_network a) ip}"
    using ipa.run_in_range [OF assms(3)] usable_contained [OF assms(1)]
    by (auto simp: a candidates_usable [OF assms(1)])
  with ipa.run_exclusive [OF assms(3)] show ?thesis by (auto simp: a)
qed

definition sample_net :: "(32 cidr, 128 cidr) ip_net" where
  "sample_net = V4 (167772160, 30)"

definition sample_alloc :: "(32 cidr, 128 cidr) ip_allocator" where
  "sample_alloc = \<lparr> ia_network = sample_net, allocated = [] \<rparr>"

lemma sample_alloc_new: "ip_allocator_new cidr_api (cidr_show sample_net) = Inr sample_alloc"
  by (simp add: ip_allocator_new_def cidr_api_def cidr_parse_show sample_alloc_def)

lemma sample_hosts: "v4_hosts cidr_api (167772160, 30) = [167772161, 167772162]"
  by (simp add: cidr_api_def cidr_hosts_def cidr_network_def mask_to_def cidr_addr_def cidr_prefix_def
      block_size_def Let_def)

theorem ip_allocator_exclusive_witness:
  "exclusive {} [Got (IpV4 167772161), Got (IpV4 167772162), Refused, Freed (IpV4 167772161), Got (IpV4 167772161)]"
proof -
  have "fst (pool_run (ip_allocate cidr_api) (take_ip cidr_api) (\<lambda>ip a. snd (ip_release ip a)) sample_alloc
      [Alloc, Alloc, Alloc, Release (IpV4 167772161), Alloc]) =
    [Got (IpV4 167772161), Got (IpV4 167772162), Refused, Freed (IpV4 167772161), Got (IpV4 167772161)]"
    by (simp add: ip_allocate_def sample_alloc_def sample_net_def sample_hosts ip_release_def)
  then show ?thesis
    using ip_allocator_exclusive [OF cidr_api_ok sample_alloc_new] by (metis prod.collapse)
qed

fun ip_num :: "ip_addr \<Rightarrow> nat" where
  "ip_num (IpV4 a) = unat a"
| "ip_num (IpV6 a) = unat a"

lemma sorted_v4_hosts:
  assumes "ipnet_ok api"
  shows "sorted_wrt (<) (v4_hosts api n)"
proof -
  have "sorted_wrt (<) (map unat (v4_hosts api n))"
    using ipnet_okD(3) [OF assms] by (simp add: hosts_ok_def Let_def sorted_wrt_upt del: sorted_wrt_map)
  then have "sorted_wrt (\<lambda>x y. unat x < unat y) (v4_hosts api n)" by (simp add: sorted_wrt_map)
  then show ?thesis by (rule sorted_wrt_mono_rel [rotated]) (simp add: word_less_nat_alt)
qed

lemma ip_allocate_lowest:
  assumes "ipnet_ok api" and "ip_allocate api a = Some (ip, a')"
    and "jp \<in> usable api (ia_network a)" and "jp \<notin> set (allocated a)"
  shows "ip_num ip \<le> ip_num jp"
proof (cases "ia_network a")
  case (V4 n)
  with assms(2) obtain x where x: "ip = IpV4 x" "find (\<lambda>ip. IpV4 ip \<notin> set (allocated a)) (v4_hosts api n) = Some x"
    by (auto simp: ip_allocate_def split: option.splits)
  from V4 assms(3) obtain y where y: "jp = IpV4 y" by auto
  with V4 assms(1,3) have "y \<in> set (v4_hosts api n)" by (simp add: set_v4_hosts)
  with find_least [OF x(2) sorted_v4_hosts [OF assms(1)] this] assms(4) y x(1)
  show ?thesis by (simp add: word_le_nat_alt)
next
  case (V6 m)
  let ?b = "v6_network api m" and ?n = "host_count True (v6_prefix_len api m)"
  from V6 assms(2) obtain x where x: "ip = IpV6 x" "v6_scan (allocated a) ?b ?n 1 = Some x"
    by (auto simp: ip_allocate_def Let_def split: option.splits)
  then obtain i where i: "i \<le> unat ?n" "ipv6_add ?b (word_of_nat i) = Some x"
    and before: "\<And>j d. 1 \<le> j \<Longrightarrow> j < i \<Longrightarrow> ipv6_add ?b (word_of_nat j) = Some d \<Longrightarrow> IpV6 d \<in> set (allocated a)"
    by (auto dest: v6_scan_Some)
  from V6 assms(3) obtain y where y: "jp = IpV6 y" by auto
  with V6 assms(1,3) have "IpV6 y \<in> candidates api (V6 m)" by (simp only: candidates_usable)
  then obtain k where k: "1 \<le> k" "k \<le> unat ?n" "ipv6_add ?b (word_of_nat k) = Some y" by auto
  have "\<not> k < i" using before [OF k(1) _ k(3)] assms(4) y by blast
  with i k x(1) y unat_word_of_nat_le [OF i(1)] unat_word_of_nat_le [OF k(2)]
  show ?thesis by (simp add: ipv6_add_Some_iff)
qed

text \<open>
  C28. An automatic allocation returns the lowest usable address that is free and records exactly
  that address; it returns nothing only when every usable address is taken. For IPv4 the scan of the
  host iterator and for IPv6 the counter from the base address agree on that specification.
\<close>

theorem ip_allocate_correct:
  assumes "ipnet_ok api"
  shows "case ip_allocate api a of
      None \<Rightarrow> usable api (ia_network a) \<subseteq> set (allocated a)
    | Some (ip, a') \<Rightarrow>
        ip \<in> usable api (ia_network a) \<and> ip \<notin> set (allocated a) \<and>
        (\<forall>jp \<in> usable api (ia_network a) - set (allocated a). ip_num ip \<le> ip_num jp) \<and>
        a' = a\<lparr>allocated := List.insert ip (allocated a)\<rparr>"
proof (cases "ip_allocate api a")
  case None
  then show ?thesis using ip_allocate_None [OF None] by (simp add: candidates_usable [OF assms])
next
  case (Some r)
  then obtain ip a' where ip: "ip_allocate api a = Some (ip, a')" by (cases r) auto
  from ip_allocate_cases [OF ip] ip_allocate_lowest [OF assms ip] show ?thesis
    by (simp add: ip candidates_usable [OF assms])
qed

theorem ip_allocate_correct_witness:
  "IpV4 167772161 \<in> usable cidr_api sample_net \<and>
   (\<exists>a'. ip_allocate cidr_api sample_alloc = Some (IpV4 167772161, a'))"
proof -
  have "ip_allocate cidr_api sample_alloc =
      Some (IpV4 167772161, sample_alloc\<lparr>allocated := [IpV4 167772161]\<rparr>)"
    by (simp add: ip_allocate_def sample_alloc_def sample_net_def sample_hosts)
  with ip_allocate_correct [OF cidr_api_ok, of sample_alloc] show ?thesis
    by (simp add: sample_alloc_def del: usable.simps)
qed

lemma usable_v4_card:
  assumes "ipnet_ok api"
  shows "card (usable api (V4 n)) =
    (if unat (v4_prefix_len api n) < 31 then block_size TYPE(32) (v4_prefix_len api n) - 2
     else block_size TYPE(32) (v4_prefix_len api n))"
proof -
  have "usable api (V4 n) = IpV4 ` set (v4_hosts api n)"
    using candidates_usable [OF assms, of "V4 n"] by simp
  then have "card (usable api (V4 n)) = card (set (v4_hosts api n))"
    by (simp add: card_image inj_on_def)
  also have "\<dots> = length (map unat (v4_hosts api n))"
    using sorted_v4_hosts [OF assms, of n] by (simp add: distinct_card strict_sorted_iff)
  also have "\<dots> = (if unat (v4_prefix_len api n) < 31 then block_size TYPE(32) (v4_prefix_len api n) - 2
     else block_size TYPE(32) (v4_prefix_len api n))"
    using ipnet_okD(3) [OF assms] by (simp add: hosts_ok_def Let_def)
  finally show ?thesis .
qed

lemma usable_v6_card:
  assumes "ipnet_ok api"
  shows "card (usable api (V6 m)) = block_size TYPE(128) (v6_prefix_len api m) - 1"
proof -
  let ?b = "unat (v6_network api m)" and ?s = "block_size TYPE(128) (v6_prefix_len api m)"
  have fit: "?b + ?s \<le> 2 ^ 128"
    using aligned_end [OF family_okD(6) [OF ipnet_okD(2) [OF assms], of m]] by simp
  have "card (usable api (V6 m)) =
      card (unat ` {x. in_block (v6_network api m) (v6_prefix_len api m) x \<and> x \<noteq> v6_network api m})"
    by (simp add: card_image inj_on_def word_unat_eq_iff)
  also have "unat ` {x. in_block (v6_network api m) (v6_prefix_len api m) x \<and> x \<noteq> v6_network api m} =
      {Suc ?b ..< ?b + ?s}"
  proof (intro set_eqI iffI)
    fix k assume k: "k \<in> {Suc ?b ..< ?b + ?s}"
    then have "unat (word_of_nat k :: u128) = k" using fit by (simp add: unat_of_nat)
    with k show "k \<in> unat ` {x. in_block (v6_network api m) (v6_prefix_len api m) x \<and> x \<noteq> v6_network api m}"
      by (intro image_eqI [of _ _ "word_of_nat k"]) (auto simp: in_block_def)
  qed (auto simp: in_block_def word_unat_eq_iff)
  finally show ?thesis by simp
qed

text \<open>
  The host total the allocator reports is the number of usable addresses, capped at the largest
  32-bit value, except for IPv4 networks of prefix 31 and 32: there it reports zero although one or two
  addresses are usable and automatic allocation hands them out.
\<close>

theorem total_hosts_exact:
  assumes "ipnet_ok api"
  shows "unat (total_hosts api a) =
    (case ia_network a of
       V4 n \<Rightarrow> if unat (v4_prefix_len api n) \<ge> 31 then 0 else card (usable api (V4 n))
     | V6 m \<Rightarrow> min (card (usable api (V6 m))) (2 ^ 32 - 1))"
proof -
  have cap: "unat (if c > ucast (- 1 :: u32) then - 1 else ucast c :: u32) = min (unat c) (2 ^ 32 - 1)" for c :: u128
    by (auto simp: word_less_nat_alt unsigned_ucast_eq take_bit_nat_eq_self unat_max_word min_def)
  show ?thesis
  proof (cases "ia_network a")
    case (V4 n)
    have p: "unat (v4_prefix_len api n) \<le> 32" using family_okD(5) [OF ipnet_okD(1) [OF assms], of n] by simp
    have "block_size TYPE(32) (v4_prefix_len api n) \<le> 2 ^ 32"
      unfolding block_size_def by (rule power_increasing) simp_all
    with p show ?thesis
      by (simp add: total_hosts_def Let_def cap V4 net_fields [OF assms] unat_host_count_v4
          usable_v4_card [OF assms] del: usable.simps)
  next
    case (V6 m)
    have "unat (v6_prefix_len api m) \<le> 128" using family_okD(5) [OF ipnet_okD(2) [OF assms], of m] by simp
    then show ?thesis
      by (simp add: total_hosts_def Let_def cap V6 net_fields [OF assms] unat_host_count_v6
          usable_v6_card [OF assms] del: usable.simps)
  qed
qed

theorem total_hosts_exact_witness:
  "unat (total_hosts cidr_api \<lparr> ia_network = V4 (167772160, 32), allocated = [] \<rparr>) = 0 \<and>
   card (usable cidr_api (V4 (167772160, 32))) = 1 \<and>
   unat (total_hosts cidr_api sample_alloc) = 2"
proof -
  have "unat (total_hosts cidr_api \<lparr> ia_network = V4 (167772160, 32), allocated = [] \<rparr>) = 0"
    using total_hosts_exact [OF cidr_api_ok, of "\<lparr> ia_network = V4 (167772160, 32), allocated = [] \<rparr>"]
    by (simp add: cidr_api_def cidr_prefix_def)
  moreover have "unat (total_hosts cidr_api sample_alloc) = 2"
    using total_hosts_exact [OF cidr_api_ok, of sample_alloc] usable_v4_card [OF cidr_api_ok, of "(167772160, 30)"]
    by (simp add: sample_alloc_def sample_net_def cidr_api_def cidr_prefix_def block_size_def del: usable.simps)
  ultimately show ?thesis
    using usable_v4_card [OF cidr_api_ok, of "(167772160, 32)"]
    by (simp add: cidr_api_def cidr_prefix_def block_size_def del: usable.simps)
qed

text \<open>
  The address the allocator reserves first is the lowest usable one, unless the network is a
  single IPv6 address (prefix 128): then it reserves the address after it, which the network does not
  contain, instead of reporting that no address is available.
\<close>

theorem allocate_first_correct:
  assumes "ipnet_ok api" and "allocate_first api a = Inr (ip, a')"
  shows "if \<exists>m. ia_network a = V6 m \<and> unat (v6_prefix_len api m) = 128
    then usable api (ia_network a) = {} \<and> \<not> net_contains api (ia_network a) ip \<and> ip \<in> set (allocated a')
    else ip \<in> usable api (ia_network a) \<and> (\<forall>jp \<in> usable api (ia_network a). ip_num ip \<le> ip_num jp)"
proof -
  have first: "first_host api (ia_network a) = Some ip" and in': "ip \<in> set (allocated a')"
    using assms(2) by (auto simp: allocate_first_def and_then_Inr_iff split: if_splits)
  show ?thesis
  proof (cases "ia_network a")
    case (V4 n)
    with first obtain x xs where x: "v4_hosts api n = x # xs" "ip = IpV4 x"
      by (auto simp: first_host_def split: list.splits)
    have "x \<le> y" if "y \<in> set (v4_hosts api n)" for y
      using that sorted_v4_hosts [OF assms(1), of n] by (auto simp: x less_imp_le)
    then have "\<forall>jp \<in> usable api (V4 n). unat x \<le> ip_num jp"
      using set_v4_hosts [OF assms(1), of _ n] by (auto simp: word_le_nat_alt)
    with x set_v4_hosts [OF assms(1), of x n] V4 show ?thesis by (simp del: usable.simps)
  next
    case (V6 m)
    let ?b = "v6_network api m" and ?p = "v6_prefix_len api m"
    from V6 first obtain x where x: "ip = IpV6 x" "unat x = Suc (unat ?b)"
      by (auto simp: first_host_def ipv6_add_Some_iff)
    have p: "unat ?p \<le> 128" using family_okD(5) [OF ipnet_okD(2) [OF assms(1)], of m] by simp
    have one: "block_size TYPE(128) ?p = 1 \<longleftrightarrow> unat ?p = 128"
      using p by (auto simp: block_size_def)
    then have "in_block ?b ?p x \<longleftrightarrow> unat ?p \<noteq> 128"
      using block_size_pos [where 'a = 128, of ?p] unfolding in_block_def x(2) by linarith
    then show ?thesis
      using in' one by (auto simp: V6 x net_contains_iff [OF assms(1)] in_block_def word_unat_eq_iff)
  qed
qed

theorem allocate_first_correct_witness:
  "\<exists>a'. allocate_first cidr_api sample_alloc = Inr (IpV4 167772161, a') \<and>
     IpV4 167772161 \<in> usable cidr_api sample_net"
proof -
  have first: "allocate_first cidr_api sample_alloc =
      Inr (IpV4 167772161, sample_alloc\<lparr>allocated := [IpV4 167772161]\<rparr>)"
    by (simp add: allocate_first_def first_host_def sample_alloc_def sample_net_def sample_hosts)
  from allocate_first_correct [OF cidr_api_ok first] first show ?thesis
    by (simp add: sample_alloc_def sample_net_def del: usable.simps)
qed

lemma mark_all_spec:
  "(\<forall>ip \<in> set ips. net_contains api (ia_network a) ip) \<Longrightarrow>
   \<exists>b. mark_all api ips a = Inr b \<and> ia_network b = ia_network a \<and> set (allocated b) = set ips \<union> set (allocated a)"
proof (induction ips arbitrary: a)
  case (Cons ip ips)
  from Cons.IH [of "a\<lparr>allocated := List.insert ip (allocated a)\<rparr>"] Cons.prems show ?case
    by (auto simp: mark_allocated_def)
qed simp

lemma mark_all_error:
  "ip \<in> set ips \<Longrightarrow> \<not> net_contains api (ia_network a) ip \<Longrightarrow> \<exists>e. mark_all api ips a = Inl e"
proof (induction ips arbitrary: a)
  case (Cons jp ips)
  then show ?case by (cases "net_contains api (ia_network a) jp") (auto simp: mark_allocated_def)
qed simp

text \<open>
  C31. Persisting an allocator and reading it back gives an allocator of the same network with the
  same addresses allocated, for every allocator whose addresses all lie in its network; a persisted
  state with an address outside is refused. After the reservation of C12 on a single IPv6 address the
  second case applies: the allocator cannot be restored from its own state.
\<close>

theorem state_roundtrip:
  assumes "ipnet_ok api"
  shows "if \<forall>ip \<in> set (allocated a). net_contains api (ia_network a) ip
    then \<exists>b. from_state api (to_state api a) = Inr b \<and> ia_network b = ia_network a \<and>
           set (allocated b) = set (allocated a)
    else \<exists>e. from_state api (to_state api a) = Inl e"
  using mark_all_spec [of "allocated a" api "\<lparr> ia_network = ia_network a, allocated = [] \<rparr>"]
    mark_all_error [of _ "allocated a" api "\<lparr> ia_network = ia_network a, allocated = [] \<rparr>"]
  by (auto simp: from_state_def to_state_def ip_allocator_new_def net_fields [OF assms])

theorem state_roundtrip_witness:
  "\<exists>b. from_state cidr_api (to_state cidr_api (sample_alloc\<lparr>allocated := [IpV4 167772161]\<rparr>)) = Inr b \<and>
     set (allocated b) = {IpV4 167772161}"
proof -
  have "net_contains cidr_api sample_net (IpV4 167772161)"
    by (simp add: cidr_api_def sample_net_def in_block_def cidr_network_def mask_to_def cidr_addr_def
        cidr_prefix_def block_size_def)
  then show ?thesis
    using state_roundtrip [OF cidr_api_ok, of "sample_alloc\<lparr>allocated := [IpV4 167772161]\<rparr>"]
    by (auto simp: sample_alloc_def)
qed

end
