(* ===== verification/Slice_Allocators.thy ===== *)
theory Slice_Allocators
  imports Slice_Contract Ip_Allocator
begin

text \<open>
  The allocators that carve slices out of a cluster network: \<open>NodeSliceAllocator\<close>, one sl per
  node, and \<open>ServiceSubnetRegistry\<close>, one per service and node, both of
  \<open>crates/zlayer-overlay/src/allocator.rs\<close>. Both start from a hash of the key and probe forward; the
  hash, the number of slices, the sl of an index and the probing loop are shared. A panic of an
  \<open>expect\<close> is the error \<open>Panicked\<close>.
\<close>

section \<open>Slices of a cluster network\<close>

definition FNV_OFFSET :: u64 where
  "FNV_OFFSET = 0xcbf29ce484222325"

definition FNV_PRIME :: u64 where
  "FNV_PRIME = 0x00000100000001b3"

definition fnv_bytes :: "u8 list \<Rightarrow> u64 \<Rightarrow> u64" where
  "fnv_bytes bs hash = fold (\<lambda>b hash. (hash XOR ucast b) * FNV_PRIME) bs hash"

definition hash_node_id :: "string \<Rightarrow> u64" where
  "hash_node_id node_id = fnv_bytes (as_bytes node_id) FNV_OFFSET"

definition hash_service_node :: "string \<Rightarrow> string \<Rightarrow> u64" where
  "hash_service_node service node =
     fnv_bytes (as_bytes node) ((fnv_bytes (as_bytes service) FNV_OFFSET XOR 0x1f) * FNV_PRIME)"

definition num_slices :: "('n, 'm) ipnet_api \<Rightarrow> ('n, 'm) ip_net \<Rightarrow> u8 \<Rightarrow> u64" where
  "num_slices api cidr p =
     (let bits = p - net_prefix_len api cidr in
      if bits \<ge> 64 then - 1 else push_bit (unat bits) 1)"

text \<open>\<open>wrapping_shl\<close> reduces the shift by the width; casting the index to 32 bits truncates it.\<close>

definition slice_at_index ::
  "('n, 'm) ipnet_api \<Rightarrow> ('n, 'm) ip_net \<Rightarrow> u8 \<Rightarrow> u64 \<Rightarrow> overlay_error + ('n, 'm) ip_net" where
  "slice_at_index api cidr p idx =
     (let shift = (ucast (net_max_prefix_len api cidr - p) :: u32) in
      case cidr of
        V4 v4 \<Rightarrow>
          let base = v4_network api v4;
              offset = push_bit (unat shift mod 32) (ucast idx :: u32);
              slice_addr = base + offset
          in (case v4_new api slice_addr p of None \<Rightarrow> Inl Panicked | Some n \<Rightarrow> Inr (V4 n))
      | V6 v6 \<Rightarrow>
          let base = v6_network api v6;
              offset = push_bit (unat shift mod 128) (ucast idx :: u128);
              slice_addr = base + offset
          in (case v6_new api slice_addr p of None \<Rightarrow> Inl Panicked | Some n \<Rightarrow> Inr (V6 n)))"

function probe ::
  "('n, 'm) ipnet_api \<Rightarrow> ('n, 'm) ip_net \<Rightarrow> u8 \<Rightarrow> ('n, 'm) ip_net list \<Rightarrow> u64 \<Rightarrow> u64 \<Rightarrow> nat \<Rightarrow>
   overlay_error + ('n, 'm) ip_net" where
  "probe api cidr p taken n start i =
     (if i \<ge> unat n then Inl NoAvailableIps
      else case slice_at_index api cidr p ((start + word_of_nat i) mod n) of
             Inl e \<Rightarrow> Inl e
           | Inr sl \<Rightarrow>
               if sl \<notin> set taken then Inr sl
               else probe api cidr p taken n start (Suc i))"
  by pat_completeness auto
termination
  by (relation "measure (\<lambda>(_, _, _, _, n, _, i). unat n - i)") auto

declare probe.simps [simp del]

definition check_prefix :: "('n, 'm) ipnet_api \<Rightarrow> ('n, 'm) ip_net \<Rightarrow> u8 \<Rightarrow> overlay_error + unit" where
  "check_prefix api cidr p =
     (if p \<le> net_prefix_len api cidr then Inl InvalidCidr
      else if p > net_max_prefix_len api cidr then Inl InvalidCidr
      else Inr ())"

definition check_slice ::
  "('n, 'm) ipnet_api \<Rightarrow> ('n, 'm) ip_net \<Rightarrow> u8 \<Rightarrow> ('n, 'm) ip_net \<Rightarrow> overlay_error + unit" where
  "check_slice api cidr p sl =
     (if net_prefix_len api sl \<noteq> p then Inl InvalidCidr
      else if \<not> net_contains api cidr (net_network api sl) then Inl InvalidCidr
      else Inr ())"

section \<open>Slices per node\<close>

record ('n, 'm) node_slice_allocator =
  nsa_cluster_cidr :: "('n, 'm) ip_net"
  nsa_slice_prefix :: u8
  nsa_assigned :: "(string, ('n, 'm) ip_net) hmap"

record node_slice_snapshot =
  nss_cluster_cidr :: string
  nss_slice_prefix :: u8
  nss_assigned :: "(string \<times> string) list"

definition node_slices_new ::
  "('n, 'm) ipnet_api \<Rightarrow> ('n, 'm) ip_net \<Rightarrow> u8 \<Rightarrow> overlay_error + ('n, 'm) node_slice_allocator" where
  "node_slices_new api cidr p =
     and_then (check_prefix api cidr p) (\<lambda>_.
       Inr \<lparr> nsa_cluster_cidr = cidr, nsa_slice_prefix = p, nsa_assigned = [] \<rparr>)"

definition node_assign ::
  "('n, 'm) ipnet_api \<Rightarrow> string \<Rightarrow> ('n, 'm) node_slice_allocator \<Rightarrow>
   overlay_error + (('n, 'm) ip_net \<times> ('n, 'm) node_slice_allocator)" where
  "node_assign api node_id a =
     (case hm_get (nsa_assigned a) node_id of
        Some existing \<Rightarrow> Inr (existing, a)
      | None \<Rightarrow>
          let n = num_slices api (nsa_cluster_cidr a) (nsa_slice_prefix a) in
          if n = 0 then Inl NoAvailableIps
          else
            let taken = map snd (nsa_assigned a);
                start = hash_node_id node_id mod n in
            and_then (probe api (nsa_cluster_cidr a) (nsa_slice_prefix a) taken n start 0) (\<lambda>sl.
              Inr (sl, a\<lparr>nsa_assigned := hm_insert node_id sl (nsa_assigned a)\<rparr>)))"

definition node_release ::
  "string \<Rightarrow> ('n, 'm) node_slice_allocator \<Rightarrow> bool \<times> ('n, 'm) node_slice_allocator" where
  "node_release node_id a =
     (hm_get (nsa_assigned a) node_id \<noteq> None, a\<lparr>nsa_assigned := hm_remove node_id (nsa_assigned a)\<rparr>)"

definition slice_for :: "('n, 'm) node_slice_allocator \<Rightarrow> string \<Rightarrow> ('n, 'm) ip_net option" where
  "slice_for a node_id = hm_get (nsa_assigned a) node_id"

definition node_assigned_count :: "('n, 'm) node_slice_allocator \<Rightarrow> nat" where
  "node_assigned_count a = length (nsa_assigned a)"

definition node_capacity :: "('n, 'm) ipnet_api \<Rightarrow> ('n, 'm) node_slice_allocator \<Rightarrow> u64" where
  "node_capacity api a = num_slices api (nsa_cluster_cidr a) (nsa_slice_prefix a)"

definition node_snapshot :: "('n, 'm) ipnet_api \<Rightarrow> ('n, 'm) node_slice_allocator \<Rightarrow> node_slice_snapshot" where
  "node_snapshot api a =
     \<lparr> nss_cluster_cidr = net_to_string api (nsa_cluster_cidr a),
       nss_slice_prefix = nsa_slice_prefix a,
       nss_assigned = map (\<lambda>(k, v). (k, net_to_string api v)) (nsa_assigned a) \<rparr>"

fun node_restore_all ::
  "('n, 'm) ipnet_api \<Rightarrow> u8 \<Rightarrow> (string \<times> string) list \<Rightarrow> ('n, 'm) node_slice_allocator \<Rightarrow>
   overlay_error + ('n, 'm) node_slice_allocator" where
  "node_restore_all api p [] a = Inr a"
| "node_restore_all api p ((node_id, slice_str) # rest) a =
     and_then (ok_or (net_parse api slice_str) InvalidCidr) (\<lambda>sl.
     and_then (check_slice api (nsa_cluster_cidr a) p sl) (\<lambda>_.
       node_restore_all api p rest (a\<lparr>nsa_assigned := hm_insert node_id sl (nsa_assigned a)\<rparr>)))"

definition node_restore ::
  "('n, 'm) ipnet_api \<Rightarrow> node_slice_snapshot \<Rightarrow> overlay_error + ('n, 'm) node_slice_allocator" where
  "node_restore api snap =
     and_then (ok_or (net_parse api (nss_cluster_cidr snap)) InvalidCidr) (\<lambda>cidr.
     and_then (node_slices_new api cidr (nss_slice_prefix snap)) (\<lambda>a.
       node_restore_all api (nss_slice_prefix snap) (nss_assigned snap) a))"

section \<open>Slices per service and node\<close>

record ('n, 'm) service_subnet_registry =
  ssr_cluster_cidr :: "('n, 'm) ip_net"
  ssr_slice_prefix :: u8
  ssr_assignments :: "(string \<times> string, ('n, 'm) ip_net) hmap"

record ('n, 'm) service_subnet_snapshot =
  sss_cluster_cidr :: "('n, 'm) ip_net"
  sss_slice_prefix :: u8
  sss_assignments :: "((string \<times> string) \<times> ('n, 'm) ip_net) list"

definition service_subnets_new ::
  "('n, 'm) ipnet_api \<Rightarrow> ('n, 'm) ip_net \<Rightarrow> u8 \<Rightarrow> overlay_error + ('n, 'm) service_subnet_registry" where
  "service_subnets_new api cidr p =
     and_then (check_prefix api cidr p) (\<lambda>_.
       Inr \<lparr> ssr_cluster_cidr = cidr, ssr_slice_prefix = p, ssr_assignments = [] \<rparr>)"

definition subnet_assign ::
  "('n, 'm) ipnet_api \<Rightarrow> string \<times> string \<Rightarrow> ('n, 'm) service_subnet_registry \<Rightarrow>
   overlay_error + (('n, 'm) ip_net \<times> ('n, 'm) service_subnet_registry)" where
  "subnet_assign api key a =
     (case hm_get (ssr_assignments a) key of
        Some existing \<Rightarrow> Inr (existing, a)
      | None \<Rightarrow>
          let n = num_slices api (ssr_cluster_cidr a) (ssr_slice_prefix a) in
          if n = 0 then Inl NoAvailableIps
          else
            let taken = map snd (ssr_assignments a);
                start = hash_service_node (fst key) (snd key) mod n in
            and_then (probe api (ssr_cluster_cidr a) (ssr_slice_prefix a) taken n start 0) (\<lambda>sl.
              Inr (sl, a\<lparr>ssr_assignments := hm_insert key sl (ssr_assignments a)\<rparr>)))"

definition subnet_release ::
  "string \<times> string \<Rightarrow> ('n, 'm) service_subnet_registry \<Rightarrow>
   ('n, 'm) ip_net option \<times> ('n, 'm) service_subnet_registry" where
  "subnet_release key a =
     (hm_get (ssr_assignments a) key, a\<lparr>ssr_assignments := hm_remove key (ssr_assignments a)\<rparr>)"

definition subnet_get :: "('n, 'm) service_subnet_registry \<Rightarrow> string \<times> string \<Rightarrow> ('n, 'm) ip_net option" where
  "subnet_get a key = hm_get (ssr_assignments a) key"

definition subnet_assigned_count :: "('n, 'm) service_subnet_registry \<Rightarrow> nat" where
  "subnet_assigned_count a = length (ssr_assignments a)"

definition subnet_capacity :: "('n, 'm) ipnet_api \<Rightarrow> ('n, 'm) service_subnet_registry \<Rightarrow> u64" where
  "subnet_capacity api a = num_slices api (ssr_cluster_cidr a) (ssr_slice_prefix a)"

definition subnet_snapshot :: "('n, 'm) service_subnet_registry \<Rightarrow> ('n, 'm) service_subnet_snapshot" where
  "subnet_snapshot a =
     \<lparr> sss_cluster_cidr = ssr_cluster_cidr a, sss_slice_prefix = ssr_slice_prefix a,
       sss_assignments = sort_key fst (ssr_assignments a) \<rparr>"

fun subnet_restore_all ::
  "('n, 'm) ipnet_api \<Rightarrow> u8 \<Rightarrow> ((string \<times> string) \<times> ('n, 'm) ip_net) list \<Rightarrow>
   ('n, 'm) service_subnet_registry \<Rightarrow> overlay_error + ('n, 'm) service_subnet_registry" where
  "subnet_restore_all api p [] a = Inr a"
| "subnet_restore_all api p ((key, sl) # rest) a =
     and_then (check_slice api (ssr_cluster_cidr a) p sl) (\<lambda>_.
       subnet_restore_all api p rest (a\<lparr>ssr_assignments := hm_insert key sl (ssr_assignments a)\<rparr>))"

definition subnet_restore ::
  "('n, 'm) ipnet_api \<Rightarrow> ('n, 'm) service_subnet_snapshot \<Rightarrow> overlay_error + ('n, 'm) service_subnet_registry" where
  "subnet_restore api snap =
     and_then (service_subnets_new api (sss_cluster_cidr snap) (sss_slice_prefix snap)) (\<lambda>a.
       subnet_restore_all api (sss_slice_prefix snap) (sss_assignments snap) a)"

section \<open>The geometry of slices\<close>

text \<open>
  A cluster network can be carved when the slice prefix is longer than its own, no longer than the
  address, and the number of slices fits the 64-bit counter.
\<close>

definition carvable :: "('n, 'm) ipnet_api \<Rightarrow> ('n, 'm) ip_net \<Rightarrow> u8 \<Rightarrow> bool" where
  "carvable api cidr p \<longleftrightarrow> ipnet_ok api \<and>
     unat (net_prefix_len api cidr) < unat p \<and> unat p \<le> unat (net_max_prefix_len api cidr) \<and>
     unat p - unat (net_prefix_len api cidr) < 64"

definition slices :: "('n, 'm) ipnet_api \<Rightarrow> ('n, 'm) ip_net \<Rightarrow> u8 \<Rightarrow> ('n, 'm) ip_net set" where
  "slices api cidr p = {s. \<exists>i < unat (num_slices api cidr p). slice_at_index api cidr p (word_of_nat i) = Inr s}"

lemma unat_num_slices:
  assumes "carvable api cidr p"
  shows "unat (num_slices api cidr p) = 2 ^ (unat p - unat (net_prefix_len api cidr))"
proof -
  let ?c = "net_prefix_len api cidr"
  have bits: "unat (p - ?c) = unat p - unat ?c"
    using assms by (simp add: carvable_def unat_sub word_le_nat_alt)
  moreover have "\<not> p - ?c \<ge> 64"
    using assms bits by (simp add: carvable_def word_le_nat_alt)
  moreover have "unat (push_bit b 1 :: u64) = 2 ^ b" if "b < 64" for b
    using that by (subst unsigned_push_bit_eq) (simp add: take_bit_nat_eq_self)
  ultimately show ?thesis
    using assms by (simp add: num_slices_def Let_def carvable_def)
qed

lemma family_slice:
  fixes mk :: "'a::len word \<Rightarrow> u8 \<Rightarrow> 'n option"
  assumes "family_ok mk network plen" and "unat (plen n) < unat p" and "unat p \<le> LENGTH('a)"
    and "unat off < 2 ^ (unat p - unat (plen n))"
  shows "\<exists>s. mk (network n + push_bit (LENGTH('a) - unat p) off) p = Some s \<and> plen s = p \<and>
    network s = network n + push_bit (LENGTH('a) - unat p) off"
proof -
  let ?addr = "network n + push_bit (LENGTH('a) - unat p) off"
  obtain s where s: "mk ?addr p = Some s"
    using family_okD(1) [OF assms(1), of ?addr p] assms(3) by (cases "mk ?addr p") auto
  have "block_size TYPE('a) p dvd unat ?addr"
    by (rule slice_aligned [OF family_okD(6) [OF assms(1)] assms(2-4)])
  then have "unat (network s) = unat ?addr"
    using family_okD(3) [OF assms(1) s] by simp
  with s family_okD(2) [OF assms(1) s] show ?thesis by (auto simp: word_unat_eq_iff)
qed

lemma unat_ucast_fits: "unat w < 2 ^ LENGTH('b) \<Longrightarrow> unat (ucast w :: 'b::len word) = unat w" for w :: "'a::len word"
  by (simp add: unsigned_ucast_eq take_bit_nat_eq_self)

lemma slice_shift:
  fixes W p :: u8
  assumes "0 < unat p" and "unat p \<le> unat W"
  shows "unat (ucast (W - p) :: u32) mod unat W = unat W - unat p"
proof -
  have "unat (ucast (W - p) :: u32) = unat (W - p)"
    using unat_bound [of "W - p"] by (intro unat_ucast_fits) simp
  also have "\<dots> = unat W - unat p" using assms(2) by (simp add: unat_sub word_le_nat_alt)
  finally show ?thesis using assms by simp
qed

lemma slice_V4:
  assumes "carvable api (V4 n) p" and "unat idx < 2 ^ (unat p - unat (net_prefix_len api (V4 n)))"
  shows "\<exists>s off. slice_at_index api (V4 n) p idx = Inr (V4 s) \<and> unat off = unat idx \<and>
    v4_prefix_len api s = p \<and> v4_network api s = v4_network api n + push_bit (32 - unat p) off"
proof -
  have ok: "ipnet_ok api" using assms(1) by (simp add: carvable_def)
  note f = net_fields [OF ok]
  have p: "unat (v4_prefix_len api n) < unat p" "unat p \<le> LENGTH(32)"
    using assms(1) by (simp_all add: carvable_def f)
  have "unat p - unat (v4_prefix_len api n) \<le> 32" using p by simp
  then have "(2 :: nat) ^ (unat p - unat (v4_prefix_len api n)) \<le> 2 ^ 32" by (rule power_increasing) simp
  then have "unat (ucast idx :: u32) = unat idx"
    using assms(2) by (intro unat_ucast_fits) (simp add: f)
  with assms(2) family_slice [OF ipnet_okD(1) [OF ok] p, of "ucast idx"] slice_shift [of p 32] p show ?thesis
    by (auto simp: slice_at_index_def Let_def f)
qed

lemma slice_V6:
  assumes "carvable api (V6 n) p" and "unat idx < 2 ^ (unat p - unat (net_prefix_len api (V6 n)))"
  shows "\<exists>s off. slice_at_index api (V6 n) p idx = Inr (V6 s) \<and> unat off = unat idx \<and>
    v6_prefix_len api s = p \<and> v6_network api s = v6_network api n + push_bit (128 - unat p) off"
proof -
  have ok: "ipnet_ok api" using assms(1) by (simp add: carvable_def)
  note f = net_fields [OF ok]
  have p: "unat (v6_prefix_len api n) < unat p" "unat p \<le> LENGTH(128)"
    using assms(1) by (simp_all add: carvable_def f)
  have "unat (ucast idx :: u128) = unat idx"
    using unat_bound [of idx] by (intro unat_ucast_fits) simp
  with assms(2) family_slice [OF ipnet_okD(2) [OF ok] p, of "ucast idx"] slice_shift [of p 128] p show ?thesis
    by (auto simp: slice_at_index_def Let_def f)
qed

lemma slice_at_index_ok:
  assumes "carvable api cidr p" and "unat idx < unat (num_slices api cidr p)"
  shows "\<exists>s. slice_at_index api cidr p idx = Inr s \<and> net_prefix_len api s = p \<and>
    net_contains api s (net_network api s) \<and> (\<forall>ip. net_contains api s ip \<longrightarrow> net_contains api cidr ip)"
proof (cases cidr)
  case (V4 n)
  have ok: "ipnet_ok api" using assms(1) by (simp add: carvable_def)
  note f = net_fields [OF ok]
  have c: "carvable api (V4 n) p" and i: "unat idx < 2 ^ (unat p - unat (net_prefix_len api (V4 n)))"
    using assms V4 unat_num_slices [OF assms(1)] by simp_all
  from slice_V4 [OF c i] obtain s off where s: "slice_at_index api cidr p idx = Inr (V4 s)" "unat off = unat idx"
    "v4_prefix_len api s = p" "v4_network api s = v4_network api n + push_bit (32 - unat p) off"
    unfolding V4 by blast
  have "in_block (v4_network api n) (v4_prefix_len api n) x" if "in_block (v4_network api s) p x" for x
    using slice_in_block [of "v4_prefix_len api n" "v4_network api n" p off x] c i that s(2,4)
      family_okD(6) [OF ipnet_okD(1) [OF ok], of n] by (simp add: carvable_def f)
  with s show ?thesis
    by (auto simp: V4 f net_contains_iff [OF ok] in_block_def)
next
  case (V6 n)
  have ok: "ipnet_ok api" using assms(1) by (simp add: carvable_def)
  note f = net_fields [OF ok]
  have c: "carvable api (V6 n) p" and i: "unat idx < 2 ^ (unat p - unat (net_prefix_len api (V6 n)))"
    using assms V6 unat_num_slices [OF assms(1)] by simp_all
  from slice_V6 [OF c i] obtain s off where s: "slice_at_index api cidr p idx = Inr (V6 s)" "unat off = unat idx"
    "v6_prefix_len api s = p" "v6_network api s = v6_network api n + push_bit (128 - unat p) off"
    unfolding V6 by blast
  have "in_block (v6_network api n) (v6_prefix_len api n) x" if "in_block (v6_network api s) p x" for x
    using slice_in_block [of "v6_prefix_len api n" "v6_network api n" p off x] c i that s(2,4)
      family_okD(6) [OF ipnet_okD(2) [OF ok], of n] by (simp add: carvable_def f)
  with s show ?thesis
    by (auto simp: V6 f net_contains_iff [OF ok] in_block_def)
qed

lemma slice_index_unique:
  assumes "carvable api cidr p" and "unat i < unat (num_slices api cidr p)"
    and "unat j < unat (num_slices api cidr p)"
    and "slice_at_index api cidr p i = Inr s" and "slice_at_index api cidr p j = Inr t"
    and "net_contains api s ip" and "net_contains api t ip"
  shows "i = j"
proof (cases cidr)
  case (V4 n)
  have ok: "ipnet_ok api" using assms(1) by (simp add: carvable_def)
  note f = net_fields [OF ok]
  have c: "carvable api (V4 n) p" and b: "unat i < 2 ^ (unat p - unat (v4_prefix_len api n))"
    "unat j < 2 ^ (unat p - unat (v4_prefix_len api n))"
    using assms(1-3) unat_num_slices [OF assms(1)] by (simp_all add: V4 f)
  from slice_V4 [OF c, of i] slice_V4 [OF c, of j] assms(4,5) b
  obtain s' t' off off' where "s = V4 s'" "t = V4 t'" "unat off = unat i" "unat off' = unat j"
    "v4_prefix_len api s' = p" "v4_network api s' = v4_network api n + push_bit (32 - unat p) off"
    "v4_prefix_len api t' = p" "v4_network api t' = v4_network api n + push_bit (32 - unat p) off'"
    unfolding V4 f by force
  with assms(6,7) slices_disjoint [OF family_okD(6) [OF ipnet_okD(1) [OF ok], of n], of p off off'] c b
  show ?thesis by (auto simp: carvable_def f net_contains_iff [OF ok] word_unat_eq_iff)
next
  case (V6 n)
  have ok: "ipnet_ok api" using assms(1) by (simp add: carvable_def)
  note f = net_fields [OF ok]
  have c: "carvable api (V6 n) p" and b: "unat i < 2 ^ (unat p - unat (v6_prefix_len api n))"
    "unat j < 2 ^ (unat p - unat (v6_prefix_len api n))"
    using assms(1-3) unat_num_slices [OF assms(1)] by (simp_all add: V6 f)
  from slice_V6 [OF c, of i] slice_V6 [OF c, of j] assms(4,5) b
  obtain s' t' off off' where "s = V6 s'" "t = V6 t'" "unat off = unat i" "unat off' = unat j"
    "v6_prefix_len api s' = p" "v6_network api s' = v6_network api n + push_bit (128 - unat p) off"
    "v6_prefix_len api t' = p" "v6_network api t' = v6_network api n + push_bit (128 - unat p) off'"
    unfolding V6 f by force
  with assms(6,7) slices_disjoint [OF family_okD(6) [OF ipnet_okD(2) [OF ok], of n], of p off off'] c b
  show ?thesis by (auto simp: carvable_def f net_contains_iff [OF ok] word_unat_eq_iff)
qed

lemma slice_index_bound: "i < unat (n :: u64) \<Longrightarrow> unat (word_of_nat i :: u64) = i"
  by (rule unat_word_of_nat_le [of _ n]) simp

lemma slicesE:
  assumes "carvable api cidr p" and "s \<in> slices api cidr p"
  shows "net_prefix_len api s = p \<and> net_contains api s (net_network api s) \<and>
    (\<forall>ip. net_contains api s ip \<longrightarrow> net_contains api cidr ip)"
proof -
  from assms(2) obtain i where "i < unat (num_slices api cidr p)" "slice_at_index api cidr p (word_of_nat i) = Inr s"
    by (auto simp: slices_def)
  with slice_at_index_ok [OF assms(1), of "word_of_nat i"] show ?thesis by (auto simp: slice_index_bound)
qed

lemma slices_apart:
  assumes "carvable api cidr p" and "s \<in> slices api cidr p" and "t \<in> slices api cidr p" and "s \<noteq> t"
  shows "\<not> (net_contains api s ip \<and> net_contains api t ip)"
proof
  assume both: "net_contains api s ip \<and> net_contains api t ip"
  from assms(2,3) obtain i j where "i < unat (num_slices api cidr p)" "slice_at_index api cidr p (word_of_nat i) = Inr s"
    "j < unat (num_slices api cidr p)" "slice_at_index api cidr p (word_of_nat j) = Inr t"
    by (auto simp: slices_def)
  with slice_index_unique [OF assms(1), of "word_of_nat i" "word_of_nat j" s t ip] both assms(4)
  show False by (auto simp: slice_index_bound)
qed

lemma card_slices:
  assumes "carvable api cidr p"
  shows "finite (slices api cidr p)" and "card (slices api cidr p) = unat (num_slices api cidr p)"
proof -
  let ?n = "unat (num_slices api cidr p)"
  let ?f = "\<lambda>i. projr (slice_at_index api cidr p (word_of_nat i))"
  have at: "slice_at_index api cidr p (word_of_nat i) = Inr (?f i) \<and> net_contains api (?f i) (net_network api (?f i))"
    if "i < ?n" for i
    using slice_at_index_ok [OF assms, of "word_of_nat i"] that slice_index_bound by fastforce
  have eq: "slices api cidr p = ?f ` {..< ?n}"
    using at by (force simp: slices_def image_iff)
  then show "finite (slices api cidr p)" by simp
  have "inj_on ?f {..< ?n}"
  proof (rule inj_onI)
    fix i j assume ij: "i \<in> {..< ?n}" "j \<in> {..< ?n}" "?f i = ?f j"
    with slice_index_unique [OF assms, of "word_of_nat i" "word_of_nat j" "?f i" "?f j" "net_network api (?f i)"]
      at [of i] at [of j] have "(word_of_nat i :: u64) = word_of_nat j" by (simp add: slice_index_bound)
    with slice_index_bound [of i "num_slices api cidr p"] slice_index_bound [of j "num_slices api cidr p"] ij(1,2)
    show "i = j" by (metis lessThan_iff)
  qed
  then show "card (slices api cidr p) = ?n" by (simp add: eq card_image)
qed

section \<open>Probing\<close>

lemma slices_indexI:
  assumes "slice_at_index api cidr p idx = Inr s" and "unat idx < unat (num_slices api cidr p)"
  shows "s \<in> slices api cidr p"
  using assms unfolding slices_def by (auto intro!: exI [of _ "unat idx"])

lemma probe_Inr:
  assumes "probe api cidr p taken n start i = Inr s" and "n = num_slices api cidr p"
  shows "s \<notin> set taken \<and> s \<in> slices api cidr p"
  using assms
proof (induction api cidr p taken n start i rule: probe.induct)
  case (1 api cidr p taken n start i)
  have i: "\<not> unat n \<le> i" using 1(2) by (auto simp: probe.simps [of api cidr p taken n start i])
  then have "0 < unat n" by simp
  then have idx: "unat ((start + word_of_nat i) mod n) < unat n" by (simp add: unat_mod)
  show ?case
  proof (cases "slice_at_index api cidr p ((start + word_of_nat i) mod n)")
    case (Inr t)
    then have step: "if t \<in> set taken then probe api cidr p taken n start (Suc i) = Inr s else t = s"
      using 1(2) i by (simp add: probe.simps [of api cidr p taken n start i] split: if_splits)
    from slices_indexI [OF Inr] idx 1(3) have "t \<in> slices api cidr p" by simp
    with step 1(1) [OF i Inr _ _ 1(3)] show ?thesis by (cases "t \<in> set taken") auto
  qed (use 1(2) i in \<open>simp add: probe.simps [of api cidr p taken n start i]\<close>)
qed

lemma probe_Inl:
  assumes "probe api cidr p taken n start i = Inl e" and "n = num_slices api cidr p"
    and "carvable api cidr p"
  shows "e = NoAvailableIps \<and> (\<forall>k s. i \<le> k \<longrightarrow> k < unat n \<longrightarrow>
    slice_at_index api cidr p ((start + word_of_nat k) mod n) = Inr s \<longrightarrow> s \<in> set taken)"
  using assms
proof (induction api cidr p taken n start i rule: probe.induct)
  case (1 api cidr p taken n start i)
  note unf = probe.simps [of api cidr p taken n start i]
  show ?case
  proof (cases "i < unat n")
    case True
    then have "0 < unat n" by simp
    then have idx: "unat ((start + word_of_nat i) mod n) < unat n" by (simp add: unat_mod)
    with slice_at_index_ok [OF 1(4)] 1(3) obtain t
      where t: "slice_at_index api cidr p ((start + word_of_nat i) mod n) = Inr t" by blast
    with 1(2) True have tk: "t \<in> set taken" and rest: "probe api cidr p taken n start (Suc i) = Inl e"
      by (auto simp: unf split: if_splits)
    from True have "\<not> unat n \<le> i" by simp
    from 1(1) [OF this t _ rest 1(3,4)] tk t show ?thesis
      by (metis Inr_inject le_neq_implies_less Suc_leI)
  qed (use 1(2) in \<open>simp add: unf\<close>)
qed

lemma probe_covers:
  assumes "carvable api cidr p" and "n = num_slices api cidr p" and "j < unat n" and "unat start < unat n"
  shows "\<exists>k < unat n. (start + word_of_nat k) mod n = (word_of_nat j :: u64)"
proof -
  let ?N = "unat n" and ?s = "unat start"
  let ?k = "(j + ?N - ?s) mod ?N"
  have "(2 :: nat) ^ (unat p - unat (net_prefix_len api cidr)) \<le> 2 ^ 63"
    by (rule power_increasing) (use assms(1) in \<open>auto simp: carvable_def\<close>)
  then have N: "0 < ?N" "?N \<le> 2 ^ 63"
    by (simp_all add: assms(2) unat_num_slices [OF assms(1)])
  have k: "?k < ?N" using N(1) by simp
  then have uk: "unat (word_of_nat ?k :: u64) = ?k" by (rule slice_index_bound)
  have "?s + ?k < 2 ^ 63 + 2 ^ 63"
    by (rule add_less_le_mono) (use less_le_trans [OF assms(4) N(2)] less_le_trans [OF k N(2)] in auto)
  then have "?s + ?k < 2 ^ 64" by simp
  then have "unat (start + word_of_nat ?k :: u64) = ?s + ?k"
    by (simp add: unat_word_ariths uk)
  then have "unat ((start + word_of_nat ?k) mod n) = (?s + ?k) mod ?N" by (simp add: unat_mod)
  also have "\<dots> = (j + ?N) mod ?N" using assms(4) by (simp add: mod_add_right_eq)
  also have "\<dots> = unat (word_of_nat j :: u64)" using assms(3) slice_index_bound [OF assms(3)] by simp
  finally show ?thesis using k by (auto simp: word_unat_eq_iff)
qed

lemma probe_full:
  assumes "probe api cidr p taken n start 0 = Inl e" and "n = num_slices api cidr p"
    and "carvable api cidr p" and "unat start < unat n"
  shows "slices api cidr p \<subseteq> set taken"
proof
  fix s assume "s \<in> slices api cidr p"
  then obtain j where j: "j < unat n" "slice_at_index api cidr p (word_of_nat j) = Inr s"
    by (auto simp: slices_def assms(2))
  from probe_covers [OF assms(3,2) j(1) assms(4)] obtain k where "k < unat n"
    "(start + word_of_nat k) mod n = (word_of_nat j :: u64)" by blast
  with probe_Inl [OF assms(1-3)] j(2) show "s \<in> set taken" by (metis zero_le)
qed

lemma num_slices_pos: "carvable api cidr p \<Longrightarrow> num_slices api cidr p \<noteq> 0"
  using unat_num_slices [of api cidr p] by auto

lemma start_bound: "n \<noteq> 0 \<Longrightarrow> unat (h mod n) < unat (n :: u64)"
  by (simp add: unat_mod unat_gt_0)

lemma slice_for_fun: "slice_for a = hm_get (nsa_assigned a)"
  by (rule ext) (simp add: slice_for_def)

lemma subnet_get_fun: "subnet_get a = hm_get (ssr_assignments a)"
  by (rule ext) (simp add: subnet_get_def)

section \<open>Both allocators keep the slice contract\<close>

interpretation nsl: keyed_slices
  "\<lambda>a. carvable api (nsa_cluster_cidr a) (nsa_slice_prefix a) \<and> hm_wf (nsa_assigned a)"
  "\<lambda>a. slices api (nsa_cluster_cidr a) (nsa_slice_prefix a)"
  slice_for "node_assign api" "\<lambda>k a. snd (node_release k a)"
  for api
proof (unfold_locales, goal_cases)
  case (1 s k v s')
  show ?case
  proof (cases "hm_get (nsa_assigned s) k")
    case None
    with 1 show ?thesis
      by (auto simp: node_assign_def slice_for_fun Let_def and_then_Inr_iff ran_hm_get [folded set_map]
        simp del: set_map dest!: probe_Inr split: if_splits)
  next
    case (Some u)
    with 1 have "v = u" "s' = s" by (simp_all add: node_assign_def)
    with Some 1(1) show ?thesis by (simp add: slice_for_fun fun_upd_idem)
  qed
next
  case (2 s k e)
  let ?n = "num_slices api (nsa_cluster_cidr s) (nsa_slice_prefix s)"
  have none: "hm_get (nsa_assigned s) k = None" using 2(2) by (auto simp: node_assign_def split: option.splits)
  from 2(1) have n: "?n \<noteq> 0" by (simp add: num_slices_pos)
  with 2(2) none obtain e' where "probe api (nsa_cluster_cidr s) (nsa_slice_prefix s) (map snd (nsa_assigned s)) ?n
      (hash_node_id k mod ?n) 0 = Inl e'"
    by (cases "probe api (nsa_cluster_cidr s) (nsa_slice_prefix s) (map snd (nsa_assigned s)) ?n
      (hash_node_id k mod ?n) 0") (auto simp: node_assign_def Let_def)
  from probe_full [OF this refl conjunct1 [OF 2(1)] start_bound [OF n]] 2(1) none show ?case
    by (simp add: slice_for_fun ran_hm_get)
qed (auto simp: node_release_def slice_for_fun)

interpretation ssl: keyed_slices
  "\<lambda>a. carvable api (ssr_cluster_cidr a) (ssr_slice_prefix a) \<and> hm_wf (ssr_assignments a)"
  "\<lambda>a. slices api (ssr_cluster_cidr a) (ssr_slice_prefix a)"
  subnet_get "subnet_assign api" "\<lambda>k a. snd (subnet_release k a)"
  for api
proof (unfold_locales, goal_cases)
  case (1 s k v s')
  show ?case
  proof (cases "hm_get (ssr_assignments s) k")
    case None
    with 1 show ?thesis
      by (auto simp: subnet_assign_def subnet_get_fun Let_def and_then_Inr_iff ran_hm_get [folded set_map]
        simp del: set_map dest!: probe_Inr split: if_splits)
  next
    case (Some u)
    with 1 have "v = u" "s' = s" by (simp_all add: subnet_assign_def)
    with Some 1(1) show ?thesis by (simp add: subnet_get_fun fun_upd_idem)
  qed
next
  case (2 s k e)
  let ?n = "num_slices api (ssr_cluster_cidr s) (ssr_slice_prefix s)"
  let ?start = "hash_service_node (fst k) (snd k) mod ?n"
  have none: "hm_get (ssr_assignments s) k = None" using 2(2) by (auto simp: subnet_assign_def split: option.splits)
  from 2(1) have n: "?n \<noteq> 0" by (simp add: num_slices_pos)
  with 2(2) none obtain e' where "probe api (ssr_cluster_cidr s) (ssr_slice_prefix s) (map snd (ssr_assignments s)) ?n
      ?start 0 = Inl e'"
    by (cases "probe api (ssr_cluster_cidr s) (ssr_slice_prefix s) (map snd (ssr_assignments s)) ?n ?start 0")
      (auto simp: subnet_assign_def Let_def)
  from probe_full [OF this refl conjunct1 [OF 2(1)] start_bound [OF n]] 2(1) none show ?case
    by (simp add: subnet_get_fun ran_hm_get)
qed (auto simp: subnet_release_def subnet_get_fun)

section \<open>Properties of the slice allocators\<close>

abbreviation node_run ::
  "('n, 'm) ipnet_api \<Rightarrow> string slice_op list \<Rightarrow> ('n, 'm) node_slice_allocator \<Rightarrow> ('n, 'm) node_slice_allocator" where
  "node_run api \<equiv> slice_run (node_assign api) (\<lambda>k a. snd (node_release k a))"

abbreviation subnet_run ::
  "('n, 'm) ipnet_api \<Rightarrow> (string \<times> string) slice_op list \<Rightarrow>
   ('n, 'm) service_subnet_registry \<Rightarrow> ('n, 'm) service_subnet_registry" where
  "subnet_run api \<equiv> slice_run (subnet_assign api) (\<lambda>k a. snd (subnet_release k a))"

lemma check_prefix_Inr:
  "check_prefix api cidr p = Inr () \<longleftrightarrow>
   unat (net_prefix_len api cidr) < unat p \<and> unat p \<le> unat (net_max_prefix_len api cidr)"
  by (auto simp: check_prefix_def word_le_nat_alt word_less_nat_alt)

lemma node_new_apart:
  assumes "ipnet_ok api" and "node_slices_new api cidr p = Inr a"
    and "unat p - unat (net_prefix_len api cidr) < 64"
  shows "nsl.apart api a" and "nsa_cluster_cidr a = cidr" and "nsa_slice_prefix a = p"
    and "nsa_assigned a = []" and "carvable api cidr p"
proof -
  show c: "carvable api cidr p" and flds: "nsa_cluster_cidr a = cidr" "nsa_slice_prefix a = p" "nsa_assigned a = []"
    using assms by (auto simp: node_slices_new_def and_then_Inr_iff carvable_def check_prefix_Inr)
  then show "nsl.apart api a" by (simp add: nsl.apart_def slice_for_fun)
qed

lemma subnet_new_apart:
  assumes "ipnet_ok api" and "service_subnets_new api cidr p = Inr a"
    and "unat p - unat (net_prefix_len api cidr) < 64"
  shows "ssl.apart api a" and "ssr_cluster_cidr a = cidr" and "ssr_slice_prefix a = p"
    and "ssr_assignments a = []" and "carvable api cidr p"
proof -
  show c: "carvable api cidr p" and flds: "ssr_cluster_cidr a = cidr" "ssr_slice_prefix a = p" "ssr_assignments a = []"
    using assms by (auto simp: service_subnets_new_def and_then_Inr_iff carvable_def check_prefix_Inr)
  then show "ssl.apart api a" by (simp add: ssl.apart_def subnet_get_fun)
qed


definition small_cluster :: "(32 cidr, 128 cidr) ip_net" where
  "small_cluster = V4 (167772160, 30)"

definition small_nodes :: "(32 cidr, 128 cidr) node_slice_allocator" where
  "small_nodes = \<lparr> nsa_cluster_cidr = small_cluster, nsa_slice_prefix = 31, nsa_assigned = [] \<rparr>"

lemma small_cluster_fields:
  "net_prefix_len cidr_api small_cluster = 30" "net_max_prefix_len cidr_api small_cluster = 32"
  by (simp_all add: small_cluster_def cidr_api_def cidr_prefix_def)

lemma small_nodes_new: "node_slices_new cidr_api small_cluster 31 = Inr small_nodes"
  by (simp add: node_slices_new_def check_prefix_def small_cluster_fields small_nodes_def)

lemma small_num: "num_slices cidr_api small_cluster 31 = 2"
  by (simp add: num_slices_def small_cluster_fields Let_def word_le_nat_alt)

lemma small_slice:
  "slice_at_index cidr_api small_cluster 31 0 = Inr (V4 (167772160, 31))"
  "slice_at_index cidr_api small_cluster 31 1 = Inr (V4 (167772162, 31))"
  by (simp_all add: slice_at_index_def small_cluster_def cidr_api_def cidr_new_def cidr_network_def mask_to_def
      cidr_addr_def cidr_prefix_def block_size_def)

lemma small_hash: "hash_node_id ''a'' = 12638187200555641996" "hash_node_id ''b'' = 12638190499090526629"
  by (simp_all add: hash_node_id_def fnv_bytes_def FNV_OFFSET_def FNV_PRIME_def as_bytes_def byte_of_char_def)

definition small_nodes2 :: "(32 cidr, 128 cidr) node_slice_allocator" where
  "small_nodes2 = small_nodes\<lparr>nsa_assigned := [(''a'', V4 (167772160, 31)), (''b'', V4 (167772162, 31))]\<rparr>"

lemma small_run: "node_run cidr_api [Assign ''a'', Assign ''b''] small_nodes = small_nodes2"
proof -
  have "node_assign cidr_api ''a'' small_nodes =
      Inr (V4 (167772160, 31), small_nodes\<lparr>nsa_assigned := [(''a'', V4 (167772160, 31))]\<rparr>)"
    by (simp add: node_assign_def small_nodes_def small_num small_hash Let_def probe.simps small_slice)
  moreover have "node_assign cidr_api ''b'' (small_nodes\<lparr>nsa_assigned := [(''a'', V4 (167772160, 31))]\<rparr>) =
      Inr (V4 (167772162, 31), small_nodes2)"
    by (simp add: node_assign_def small_nodes_def small_nodes2_def small_num small_hash Let_def probe.simps small_slice)
  ultimately show ?thesis by (simp add: slice_run_def)
qed


lemma card_ran_hm:
  assumes "hm_wf m" and "inj_on (hm_get m) (dom (hm_get m))"
  shows "card (ran (hm_get m)) = length m"
proof -
  have "Some ` ran (hm_get m) = hm_get m ` dom (hm_get m)"
    by (auto simp: ran_def dom_def image_iff) metis
  then have "card (ran (hm_get m)) = card (hm_get m ` dom (hm_get m))"
    by (metis card_image inj_Some)
  also have "\<dots> = card (dom (hm_get m))" using assms(2) by (rule card_image)
  also have "\<dots> = length m"
    using assms(1) by (simp add: dom_map_of_conv_image_fst) (metis distinct_card set_map length_map)
  finally show ?thesis .
qed

lemma node_assign_Inl: "node_assign api k a = Inl e \<Longrightarrow>
  carvable api (nsa_cluster_cidr a) (nsa_slice_prefix a) \<Longrightarrow> e = NoAvailableIps"
  by (auto simp: node_assign_def Let_def and_then_def dest: probe_Inl
      split: option.splits if_splits sum.splits)

text \<open>
  Asking for a slice succeeds whenever one is free, however the hashes collide: after any
  sequence of calls on a new allocator, an assignment fails only for a node without a slice when the
  number of assigned slices has reached the capacity, and then with the exhaustion error, never with a
  panic. Otherwise a node that has a slice is told the same one and nothing changes, and a new node is
  given a slice while every other node keeps its own.
\<close>

theorem node_assign_exact:
  assumes "ipnet_ok api" and "node_slices_new api cidr p = Inr a"
    and "unat p - unat (net_prefix_len api cidr) < 64" and "b = node_run api ops a"
  shows "case node_assign api k b of
      Inl e \<Rightarrow> e = NoAvailableIps \<and> slice_for b k = None \<and> node_assigned_count b = unat (node_capacity api b)
    | Inr (s, b') \<Rightarrow>
        (if slice_for b k = None then node_assigned_count b < unat (node_capacity api b)
         else slice_for b k = Some s \<and> b' = b) \<and>
        slice_for b' = (slice_for b)(k \<mapsto> s)"
proof -
  note new = node_new_apart [OF assms(1-3)]
  have ap: "nsl.apart api b" using nsl.apart_run [OF new(1), of ops] assms(4) by simp
  then have car: "carvable api (nsa_cluster_cidr b) (nsa_slice_prefix b)"
    and wf: "hm_wf (nsa_assigned b)"
    and ran: "ran (slice_for b) \<subseteq> slices api (nsa_cluster_cidr b) (nsa_slice_prefix b)"
    by (simp_all add: nsl.apart_def)
  have "card (ran (slice_for b)) = node_assigned_count b"
    using ap card_ran_hm [OF wf] by (simp add: nsl.apart_def slice_for_fun node_assigned_count_def)
  then have full: "ran (slice_for b) = slices api (nsa_cluster_cidr b) (nsa_slice_prefix b) \<longleftrightarrow>
      node_assigned_count b = unat (node_capacity api b)"
    and le: "node_assigned_count b \<le> unat (node_capacity api b)"
    using card_slices [OF car] card_mono [OF _ ran] card_subset_eq [OF _ ran] by (auto simp: node_capacity_def)
  show ?thesis
  proof (cases "node_assign api k b")
    case (Inl e)
    with nsl.assign_fails_iff [OF ap, of k] node_assign_Inl [OF Inl car] full show ?thesis by auto
  next
    case (Inr r)
    then obtain s b' where r: "node_assign api k b = Inr (s, b')" by (cases r) auto
    then have "\<not> (slice_for b k = None \<and> node_assigned_count b = unat (node_capacity api b))"
      using nsl.assign_fails_iff [OF ap, of k] full by auto
    moreover have "slice_for b' = (slice_for b)(k \<mapsto> s)"
      using nsl.assign_Inr [OF _ r] car wf by simp
    moreover have "slice_for b k = Some s \<and> b' = b" if "slice_for b k \<noteq> None"
      using r that by (auto simp: node_assign_def slice_for_def)
    ultimately show ?thesis using le by (auto simp: r)
  qed
qed

theorem node_assign_exact_witness:
  "node_assign cidr_api ''c'' small_nodes2 = Inl NoAvailableIps \<and>
   node_assigned_count small_nodes2 = unat (node_capacity cidr_api small_nodes2)"
proof -
  have cap: "node_assigned_count small_nodes2 = unat (node_capacity cidr_api small_nodes2)"
    "slice_for small_nodes2 ''c'' = None"
    by (simp_all add: node_assigned_count_def node_capacity_def small_nodes2_def small_nodes_def small_num slice_for_def)
  show ?thesis
  proof (cases "node_assign cidr_api ''c'' small_nodes2")
    case (Inl e)
    with node_assign_exact [OF cidr_api_ok small_nodes_new _ refl, of "[Assign ''a'', Assign ''b'']" "''c''"] cap
    show ?thesis by (simp add: small_run small_cluster_fields)
  next
    case (Inr r)
    with node_assign_exact [OF cidr_api_ok small_nodes_new _ refl, of "[Assign ''a'', Assign ''b'']" "''c''"] cap
    show ?thesis by (cases r) (simp add: small_run small_cluster_fields)
  qed
qed

lemma node_restore_all_ok:
  assumes "\<forall>kv \<in> set l. check_slice api (nsa_cluster_cidr a) p (snd kv) = Inr ()" and "ipnet_ok api"
  shows "node_restore_all api p (map (\<lambda>(k, v). (k, net_to_string api v)) l) a =
    Inr (a\<lparr>nsa_assigned := fold (\<lambda>(k, v). hm_insert k v) l (nsa_assigned a)\<rparr>)"
  using assms(1)
proof (induction l arbitrary: a)
  case (Cons kv l)
  obtain k v where kv: "kv = (k, v)" by fastforce
  from Cons.IH [of "a\<lparr>nsa_assigned := hm_insert k v (nsa_assigned a)\<rparr>"] Cons.prems show ?case
    by (simp add: kv net_fields(7) [OF assms(2)])
qed simp

lemma subnet_restore_all_ok:
  assumes "\<forall>kv \<in> set l. check_slice api (ssr_cluster_cidr a) p (snd kv) = Inr ()"
  shows "subnet_restore_all api p l a =
    Inr (a\<lparr>ssr_assignments := fold (\<lambda>(k, v). hm_insert k v) l (ssr_assignments a)\<rparr>)"
  using assms
proof (induction l arbitrary: a)
  case (Cons kv l)
  obtain k v where kv: "kv = (k, v)" by fastforce
  from Cons.IH [of "a\<lparr>ssr_assignments := hm_insert k v (ssr_assignments a)\<rparr>"] Cons.prems show ?case
    by (simp add: kv)
qed simp

lemma check_slice_slices:
  "carvable api cidr p \<Longrightarrow> s \<in> slices api cidr p \<Longrightarrow> check_slice api cidr p s = Inr ()"
  using slicesE [of api cidr p s] by (simp add: check_slice_def)

lemma carvable_check: "carvable api cidr p \<Longrightarrow> check_prefix api cidr p = Inr ()"
  by (simp add: carvable_def check_prefix_Inr)

text \<open>
  A leader that restarts from its snapshot has the same slices: restoring the snapshot of any
  allocator reached by assignments and releases succeeds and gives the same cluster network, the same
  prefix and the same slice for every node.
\<close>

theorem node_snapshot_roundtrip:
  assumes "ipnet_ok api" and "node_slices_new api cidr p = Inr a"
    and "unat p - unat (net_prefix_len api cidr) < 64" and "b = node_run api ops a"
  shows "\<exists>b'. node_restore api (node_snapshot api b) = Inr b' \<and> slice_for b' = slice_for b \<and>
    nsa_cluster_cidr b' = nsa_cluster_cidr b \<and> nsa_slice_prefix b' = nsa_slice_prefix b"
proof -
  let ?c = "nsa_cluster_cidr b" and ?p = "nsa_slice_prefix b"
  have ap: "nsl.apart api b"
    using nsl.apart_run [OF node_new_apart(1) [OF assms(1-3)], of ops] assms(4) by simp
  then have car: "carvable api ?c ?p" and wf: "hm_wf (nsa_assigned b)"
    and ran: "ran (slice_for b) \<subseteq> slices api ?c ?p"
    by (simp_all add: nsl.apart_def)
  have "\<forall>kv \<in> set (nsa_assigned b). check_slice api ?c ?p (snd kv) = Inr ()"
    using ran by (auto simp: slice_for_fun ran_hm_get [OF wf] intro!: check_slice_slices [OF car])
  then have "node_restore api (node_snapshot api b) =
      Inr \<lparr> nsa_cluster_cidr = ?c, nsa_slice_prefix = ?p,
            nsa_assigned = fold (\<lambda>(k, v). hm_insert k v) (nsa_assigned b) [] \<rparr>"
    by (simp add: node_restore_def node_snapshot_def net_fields(7) [OF assms(1)] node_slices_new_def
        carvable_check [OF car] node_restore_all_ok [OF _ assms(1)])
  then show ?thesis
    by (simp add: slice_for_fun hm_get_fold_insert map_of_rev_wf [OF wf])
qed

theorem node_snapshot_roundtrip_witness:
  "\<exists>b'. node_restore cidr_api (node_snapshot cidr_api small_nodes2) = Inr b' \<and>
     slice_for b' ''b'' = Some (V4 (167772162, 31))"
proof -
  have "slice_for small_nodes2 ''b'' = Some (V4 (167772162, 31))"
    by (simp add: slice_for_def small_nodes2_def)
  with node_snapshot_roundtrip [OF cidr_api_ok small_nodes_new _ refl, of "[Assign ''a'', Assign ''b'']"]
  show ?thesis by (auto simp: small_run small_cluster_fields)
qed

text \<open>
  Subnets of different pairs of a service and a node never overlap, after any sequence of
  assignments and releases on a new registry, and each has the configured prefix length and lies inside
  the cluster network.
\<close>

theorem service_subnets_disjoint:
  assumes "ipnet_ok api" and "service_subnets_new api cidr p = Inr a"
    and "unat p - unat (net_prefix_len api cidr) < 64" and "b = subnet_run api ops a"
    and "subnet_get b x = Some s" and "subnet_get b y = Some t" and "x \<noteq> y"
  shows "\<not> (net_contains api s ip \<and> net_contains api t ip) \<and>
    (net_contains api s ip \<longrightarrow> net_contains api cidr ip) \<and> net_prefix_len api s = p"
proof -
  note new = subnet_new_apart [OF assms(1-3)]
  have "s \<in> slices api cidr p \<and> t \<in> slices api cidr p \<and> s \<noteq> t"
    using ssl.run_distinct_slots [OF new(1), of ops x s y t] assms(4-7) by (simp add: new(2,3))
  with slices_apart [OF new(5), of s t ip] slicesE [OF new(5), of s] show ?thesis by simp
qed

definition small_subnets :: "(32 cidr, 128 cidr) service_subnet_registry" where
  "small_subnets = \<lparr> ssr_cluster_cidr = small_cluster, ssr_slice_prefix = 31, ssr_assignments = [] \<rparr>"

lemma small_subnets_new: "service_subnets_new cidr_api small_cluster 31 = Inr small_subnets"
  by (simp add: service_subnets_new_def check_prefix_def small_cluster_fields small_subnets_def)

lemma small_service_hash: "hash_service_node ''s'' ''a'' = 9374662746744100978"
  "hash_service_node ''s'' ''b'' = 9374661647232472767"
  by (simp_all add: hash_service_node_def fnv_bytes_def FNV_OFFSET_def FNV_PRIME_def as_bytes_def byte_of_char_def)

definition small_subnets2 :: "(32 cidr, 128 cidr) service_subnet_registry" where
  "small_subnets2 = small_subnets\<lparr>ssr_assignments :=
     [((''s'', ''b''), V4 (167772162, 31)), ((''s'', ''a''), V4 (167772160, 31))]\<rparr>"

lemma small_subnet_run:
  "subnet_run cidr_api [Assign (''s'', ''b''), Assign (''s'', ''a'')] small_subnets = small_subnets2"
proof -
  have "subnet_assign cidr_api (''s'', ''b'') small_subnets =
      Inr (V4 (167772162, 31), small_subnets\<lparr>ssr_assignments := [((''s'', ''b''), V4 (167772162, 31))]\<rparr>)"
    by (simp add: subnet_assign_def small_subnets_def small_num small_service_hash Let_def probe.simps small_slice)
  moreover have "subnet_assign cidr_api (''s'', ''a'')
        (small_subnets\<lparr>ssr_assignments := [((''s'', ''b''), V4 (167772162, 31))]\<rparr>) =
      Inr (V4 (167772160, 31), small_subnets2)"
    by (simp add: subnet_assign_def small_subnets_def small_subnets2_def small_num small_service_hash Let_def
        probe.simps small_slice)
  ultimately show ?thesis by (simp add: slice_run_def)
qed

theorem service_subnets_disjoint_witness:
  "subnet_get small_subnets2 (''s'', ''a'') = Some (V4 (167772160, 31)) \<and>
   subnet_get small_subnets2 (''s'', ''b'') = Some (V4 (167772162, 31)) \<and>
   \<not> (net_contains cidr_api (V4 (167772160, 31)) (IpV4 167772161) \<and>
      net_contains cidr_api (V4 (167772162, 31)) (IpV4 167772161))"
proof -
  have "subnet_get small_subnets2 (''s'', ''a'') = Some (V4 (167772160, 31))"
    "subnet_get small_subnets2 (''s'', ''b'') = Some (V4 (167772162, 31))"
    by (simp_all add: subnet_get_def small_subnets2_def)
  with service_subnets_disjoint [OF cidr_api_ok small_subnets_new _ refl,
      of "[Assign (''s'', ''b''), Assign (''s'', ''a'')]" "(''s'', ''a'')" _ "(''s'', ''b'')"]
  show ?thesis by (simp add: small_subnet_run small_cluster_fields)
qed

lemma sorted_map_unique:
  fixes l l' :: "('k :: linorder \<times> 'v) list"
  assumes "sorted (map fst l)" and "sorted (map fst l')" and "hm_wf l" and "hm_wf l'" and "hm_get l = hm_get l'"
  shows "l = l'"
proof -
  have "set (map fst l) = set (map fst l')"
    using assms(5) by (simp add: dom_map_of_conv_image_fst [symmetric])
  then have keys: "map fst l = map fst l'"
    using assms(1-4) by (simp add: sorted_distinct_set_unique)
  have "m = map (\<lambda>k. (k, the (hm_get m k))) (map fst m)" if "hm_wf m" for m :: "('k \<times> 'v) list"
  proof (rule nth_equalityI)
    fix i assume "i < length m"
    with hm_wf_mem_iff [OF that, of "fst (m ! i)" "snd (m ! i)"]
    show "m ! i = map (\<lambda>k. (k, the (hm_get m k))) (map fst m) ! i" by (simp add: prod_eq_iff)
  qed simp
  from this [OF assms(3)] this [OF assms(4)] keys assms(5) show ?thesis by metis
qed

lemma hm_wf_sort_key [simp]: "hm_wf (sort_key f l) = hm_wf l"
  by (simp add: distinct_map)

lemma hm_get_sort_key: "hm_wf l \<Longrightarrow> hm_get (sort_key fst l) = hm_get l"
  by (subst map_of_inject_set) simp_all

text \<open>
  The snapshot of a service subnet registry is canonical and complete: it lists the assignments
  in the order of their keys, so that two registries with the same assignments have the same snapshot
  whatever order they were made in, and restoring it gives a registry with the same assignments.
\<close>

theorem subnet_snapshot_canonical:
  assumes "ipnet_ok api" and "service_subnets_new api cidr p = Inr a"
    and "unat p - unat (net_prefix_len api cidr) < 64" and "b = subnet_run api ops a"
  shows "sorted (map fst (sss_assignments (subnet_snapshot b))) \<and>
    (\<exists>b'. subnet_restore api (subnet_snapshot b) = Inr b' \<and> subnet_get b' = subnet_get b \<and>
       ssr_cluster_cidr b' = ssr_cluster_cidr b \<and> ssr_slice_prefix b' = ssr_slice_prefix b) \<and>
    (subnet_get (subnet_run api ops' a) = subnet_get b \<longrightarrow>
       sss_assignments (subnet_snapshot (subnet_run api ops' a)) = sss_assignments (subnet_snapshot b))"
proof -
  let ?c = "ssr_cluster_cidr b" and ?p = "ssr_slice_prefix b" and ?l = "sort_key fst (ssr_assignments b)"
  have ap: "ssl.apart api (subnet_run api ops a)" for ops
    using ssl.apart_run [OF subnet_new_apart(1) [OF assms(1-3)], of ops] by simp
  then have car: "carvable api ?c ?p" and wf: "hm_wf (ssr_assignments b)"
    and ran: "ran (subnet_get b) \<subseteq> slices api ?c ?p"
    by (simp_all add: ssl.apart_def assms(4))
  have "\<forall>kv \<in> set ?l. check_slice api ?c ?p (snd kv) = Inr ()"
    using ran by (auto simp: subnet_get_fun ran_hm_get [OF wf] intro!: check_slice_slices [OF car])
  then have "subnet_restore api (subnet_snapshot b) =
      Inr \<lparr> ssr_cluster_cidr = ?c, ssr_slice_prefix = ?p,
            ssr_assignments = fold (\<lambda>(k, v). hm_insert k v) ?l [] \<rparr>"
    by (simp add: subnet_restore_def subnet_snapshot_def service_subnets_new_def carvable_check [OF car]
        subnet_restore_all_ok)
  moreover have "hm_get (fold (\<lambda>(k, v). hm_insert k v) ?l []) = subnet_get b"
    using wf by (simp add: hm_get_fold_insert map_of_rev_wf hm_get_sort_key subnet_get_fun)
  moreover have "sort_key fst (ssr_assignments (subnet_run api ops' a)) = ?l"
    if "subnet_get (subnet_run api ops' a) = subnet_get b"
    using that wf ap [of ops'] by (intro sorted_map_unique)
      (simp_all add: subnet_get_fun ssl.apart_def hm_get_sort_key)
  ultimately show ?thesis by (simp add: subnet_snapshot_def subnet_get_fun)
qed

theorem subnet_snapshot_canonical_witness:
  "sss_assignments (subnet_snapshot small_subnets2) =
     [((''s'', ''a''), V4 (167772160, 31)), ((''s'', ''b''), V4 (167772162, 31))] \<and>
   (\<exists>b'. subnet_restore cidr_api (subnet_snapshot small_subnets2) = Inr b' \<and> subnet_get b' = subnet_get small_subnets2)"
  using subnet_snapshot_canonical [OF cidr_api_ok small_subnets_new _ refl,
      of "[Assign (''s'', ''b''), Assign (''s'', ''a'')]"]
  by (auto simp: small_subnet_run small_cluster_fields subnet_snapshot_def small_subnets2_def)

end
