(* ===== verification/Cluster_State.thy ===== *)
theory Cluster_State
  imports Secrets_State Slice_Allocators
begin

text \<open>
  The replicated state of the scheduler, \<open>ClusterState\<close> of \<open>crates/zlayer-scheduler/src/raft.rs\<close>: the
  requests of the Raft log and what applying one does to services, nodes, scale events, secrets,
  worker leases, service subnets and dedicated-overlay endpoints. Floating-point measurements are only
  stored and have an abstract type with a zero; the clocks read while a request is applied are an
  argument; error texts are the constructors of \<open>cluster_error\<close>. Consensus itself, storage and
  transport are outside.
\<close>

section \<open>Data\<close>

type_synonym node_id = u64

datatype health_status = HealthUnknown | Healthy | Degraded | Unhealthy

record service_state =
  current_replicas :: u32
  desired_replicas :: u32
  min_replicas :: u32
  max_replicas :: u32
  health_status :: health_status
  last_scale_time :: "u64 option"
  assigned_nodes :: "node_id list"

record scale_event =
  ev_service_name :: string
  from_replicas :: u32
  to_replicas :: u32
  ev_reason :: string
  ev_timestamp :: u64

record worker_lease_record =
  lease_node_id :: node_id
  holder :: string
  acquired_ns :: u64
  renewed_ns :: u64
  ttl_secs :: u32
  revision :: u64

definition is_expired :: "worker_lease_record \<Rightarrow> u64 \<Rightarrow> u32 \<Rightarrow> bool" where
  "is_expired lease now_ns grace_secs \<longleftrightarrow>
     now_ns \<ge> sat_add
       (sat_add (renewed_ns lease) (sat_mul (ucast (ttl_secs lease)) 1000000000))
       (sat_mul (ucast grace_secs) 1000000000)"

record service_overlay_endpoint =
  ep_node_id :: node_id
  ep_service :: string
  ep_wg_public_key :: string
  ep_endpoint :: string
  ep_overlay_ip :: string
  ep_subnet :: string

definition map_key :: "node_id \<Rightarrow> string \<Rightarrow> string" where
  "map_key node_id service = show_word node_id @ ''/'' @ service"

datatype os_kind = Linux | Windows | Macos

datatype arch_kind = Amd64 | Arm64

record gpu_info_summary =
  gpu_vendor :: string
  gpu_model :: string
  gpu_memory_mb :: u64

record 'f gpu_utilization_report =
  gpu_index :: u32
  utilization_percent :: 'f
  gpu_memory_used_mb :: u64
  gpu_memory_total_mb :: u64
  temperature_c :: "u32 option"
  power_draw_w :: "'f option"

record 'f node_info =
  ni_node_id :: node_id
  ni_address :: string
  registered_at :: u64
  last_heartbeat :: u64
  ni_gpus :: "gpu_info_summary list"
  ni_wg_public_key :: string
  ni_overlay_ip :: string
  ni_overlay_port :: u16
  ni_advertise_addr :: string
  ni_api_port :: u16
  cpu_total :: 'f
  memory_total :: u64
  disk_total :: u64
  cpu_used :: 'f
  memory_used :: u64
  disk_used :: u64
  gpu_utilization :: "'f gpu_utilization_report list"
  ni_status :: string
  ni_mode :: string
  ni_os :: "os_kind option"
  ni_arch :: "arch_kind option"
  ni_slice_cidr :: string
  ni_labels :: "string \<rightharpoonup> string"

record 'f register_node =
  rn_node_id :: node_id
  rn_address :: string
  rn_wg_public_key :: string
  rn_overlay_ip :: string
  rn_overlay_port :: u16
  rn_advertise_addr :: string
  rn_api_port :: u16
  rn_cpu_total :: 'f
  rn_memory_total :: u64
  rn_disk_total :: u64
  rn_gpus :: "gpu_info_summary list"
  rn_mode :: string
  rn_os :: "os_kind option"
  rn_arch :: "arch_kind option"
  rn_slice_cidr :: string
  rn_labels :: "string \<rightharpoonup> string"

datatype 'f request =
    UpdateServiceState string service_state
  | RecordScaleEvent string u32 u32 string u64
  | RegisterNode "'f register_node"
  | UpdateNodeHeartbeat node_id u64 'f u64 u64 "'f gpu_utilization_report list"
  | UpdateNodeStatus node_id string
  | DeregisterNode node_id
  | UpdateServiceAssignment string "node_id list"
  | Secrets secrets_raft_op
  | UpdateNodeMode node_id string
  | GrantWorkerLease node_id string u64 u64 u32
  | RenewWorkerLease node_id u64 u32
  | ExpireWorkerLease node_id
  | RevokeWorkerLease node_id
  | AssignServiceSubnet string node_id
  | ReleaseServiceSubnet string node_id
  | SetNodeLabels node_id "string \<rightharpoonup> string" "string list"
  | SetServiceOverlayEndpoint service_overlay_endpoint
  | RemoveServiceOverlayEndpoint node_id string

datatype cluster_error =
    InvalidNodeMode string
  | NodeNotFound node_id
  | ServiceUnknown string
  | NoLease node_id
  | SecretsFailed string
  | SubnetFailed string node_id overlay_error

datatype response = Success "string option" | Failure cluster_error

record ('f, 'n, 'm) cluster_state =
  cs_services :: "string \<rightharpoonup> service_state"
  cs_nodes :: "node_id \<rightharpoonup> 'f node_info"
  scale_events :: "scale_event list"
  cs_secrets :: secrets_state
  worker_leases :: "node_id \<rightharpoonup> worker_lease_record"
  service_subnets :: "('n, 'm) service_subnet_registry"
  service_overlay_endpoints :: "(string, service_overlay_endpoint) hmap"

record clock =
  unix_millis :: nat
  utc_now :: timestamp

section \<open>The initial state\<close>

definition DEFAULT_SERVICE_SUBNET_CLUSTER_CIDR :: string where
  "DEFAULT_SERVICE_SUBNET_CLUSTER_CIDR = ''10.200.0.0/16''"

definition DEFAULT_SERVICE_SUBNET_SLICE_PREFIX :: u8 where
  "DEFAULT_SERVICE_SUBNET_SLICE_PREFIX = 28"

definition default_service_subnet_registry ::
  "('n, 'm) ipnet_api \<Rightarrow> overlay_error + ('n, 'm) service_subnet_registry" where
  "default_service_subnet_registry api =
     and_then (ok_or (net_parse api DEFAULT_SERVICE_SUBNET_CLUSTER_CIDR) Panicked) (\<lambda>cidr.
       case service_subnets_new api cidr DEFAULT_SERVICE_SUBNET_SLICE_PREFIX of
         Inl _ \<Rightarrow> Inl Panicked | Inr r \<Rightarrow> Inr r)"

definition cluster_state_new :: "('n, 'm) ipnet_api \<Rightarrow> overlay_error + ('f, 'n, 'm) cluster_state" where
  "cluster_state_new api =
     and_then (default_service_subnet_registry api) (\<lambda>subnets.
       Inr \<lparr> cs_services = Map.empty, cs_nodes = Map.empty, scale_events = [],
             cs_secrets = secrets_default, worker_leases = Map.empty, service_subnets = subnets,
             service_overlay_endpoints = [] \<rparr>)"

section \<open>Applying a request\<close>

definition apply_secrets ::
  "timestamp \<Rightarrow> secrets_raft_op \<Rightarrow> ('f, 'n, 'm) cluster_state \<Rightarrow> response \<times> ('f, 'n, 'm) cluster_state" where
  "apply_secrets now op st =
     (case secrets_apply now op (cs_secrets st) of
        Inr s \<Rightarrow> (Success None, st\<lparr>cs_secrets := s\<rparr>)
      | Inl e \<Rightarrow> (Failure (SecretsFailed e), st))"

definition apply_record_scale_event ::
  "string \<Rightarrow> u32 \<Rightarrow> u32 \<Rightarrow> string \<Rightarrow> u64 \<Rightarrow> ('f, 'n, 'm) cluster_state \<Rightarrow>
   response \<times> ('f, 'n, 'm) cluster_state" where
  "apply_record_scale_event name from_r to_r reason timestamp st =
     (let event = \<lparr> ev_service_name = name, from_replicas = from_r, to_replicas = to_r,
                    ev_reason = reason, ev_timestamp = timestamp \<rparr>;
          events = scale_events st @ [event];
          events = (if length events > 100 then tl events else events);
          services = (case cs_services st name of
                        None \<Rightarrow> cs_services st
                      | Some svc \<Rightarrow> (cs_services st)(name \<mapsto>
                          svc\<lparr>last_scale_time := Some timestamp, current_replicas := to_r\<rparr>))
      in (Success None, st\<lparr>scale_events := events, cs_services := services\<rparr>))"

definition node_from_request :: "u64 \<Rightarrow> 'f::zero register_node \<Rightarrow> 'f node_info" where
  "node_from_request now rn =
     \<lparr> ni_node_id = rn_node_id rn, ni_address = rn_address rn, registered_at = now, last_heartbeat = now,
       ni_gpus = rn_gpus rn, ni_wg_public_key = rn_wg_public_key rn, ni_overlay_ip = rn_overlay_ip rn,
       ni_overlay_port = rn_overlay_port rn, ni_advertise_addr = rn_advertise_addr rn,
       ni_api_port = rn_api_port rn, cpu_total = rn_cpu_total rn, memory_total = rn_memory_total rn,
       disk_total = rn_disk_total rn, cpu_used = 0, memory_used = 0, disk_used = 0, gpu_utilization = [],
       ni_status = ''ready'', ni_mode = rn_mode rn, ni_os = rn_os rn, ni_arch = rn_arch rn,
       ni_slice_cidr = rn_slice_cidr rn, ni_labels = rn_labels rn \<rparr>"

definition apply_register_node ::
  "nat \<Rightarrow> 'f::zero register_node \<Rightarrow> ('f, 'n, 'm) cluster_state \<Rightarrow> response \<times> ('f, 'n, 'm) cluster_state" where
  "apply_register_node millis rn st =
     (let now = (if millis < 2 ^ 64 then word_of_nat millis else - 1) in
      (Success None, st\<lparr>cs_nodes := (cs_nodes st)(rn_node_id rn \<mapsto> node_from_request now rn)\<rparr>))"

definition update_node ::
  "node_id \<Rightarrow> ('f node_info \<Rightarrow> 'f node_info) \<Rightarrow> ('f, 'n, 'm) cluster_state \<Rightarrow> ('f, 'n, 'm) cluster_state" where
  "update_node i f st =
     (case cs_nodes st i of None \<Rightarrow> st | Some n \<Rightarrow> st\<lparr>cs_nodes := (cs_nodes st)(i \<mapsto> f n)\<rparr>)"

fun cluster_apply ::
  "('n, 'm) ipnet_api \<Rightarrow> clock \<Rightarrow> 'f::zero request \<Rightarrow> ('f, 'n, 'm) cluster_state \<Rightarrow>
   response \<times> ('f, 'n, 'm) cluster_state" where
  "cluster_apply api clk (UpdateServiceState name s) st =
     (Success None, st\<lparr>cs_services := (cs_services st)(name \<mapsto> s)\<rparr>)"
| "cluster_apply api clk (RecordScaleEvent name from_r to_r reason timestamp) st =
     apply_record_scale_event name from_r to_r reason timestamp st"
| "cluster_apply api clk (RegisterNode rn) st = apply_register_node (unix_millis clk) rn st"
| "cluster_apply api clk (UpdateNodeHeartbeat i timestamp cpu mem disk gpus) st =
     (Success None, update_node i (\<lambda>n. n\<lparr>last_heartbeat := timestamp, cpu_used := cpu,
        memory_used := mem, disk_used := disk, gpu_utilization := gpus\<rparr>) st)"
| "cluster_apply api clk (UpdateNodeStatus i status) st =
     (Success None, update_node i (\<lambda>n. n\<lparr>ni_status := status\<rparr>) st)"
| "cluster_apply api clk (UpdateNodeMode i mode) st =
     (if mode \<noteq> ''full'' \<and> mode \<noteq> ''replicate'' then (Failure (InvalidNodeMode mode), st)
      else case cs_nodes st i of
             Some _ \<Rightarrow> (Success (Some (''node '' @ show_word i @ '' mode = '' @ mode)),
                        update_node i (\<lambda>n. n\<lparr>ni_mode := mode\<rparr>) st)
           | None \<Rightarrow> (Failure (NodeNotFound i), st))"
| "cluster_apply api clk (SetNodeLabels i new_labels remove) st =
     (case cs_nodes st i of
        Some _ \<Rightarrow> (Success (Some (''node '' @ show_word i @ '' labels updated'')),
                   update_node i (\<lambda>n. n\<lparr>ni_labels := fold (\<lambda>k m. m(k := None)) remove (ni_labels n ++ new_labels)\<rparr>) st)
      | None \<Rightarrow> (Failure (NodeNotFound i), st))"
| "cluster_apply api clk (DeregisterNode i) st =
     (Success None,
      st\<lparr>cs_nodes := (cs_nodes st)(i := None),
         cs_services := (\<lambda>name. map_option
           (\<lambda>svc. svc\<lparr>assigned_nodes := filter (\<lambda>n. n \<noteq> i) (assigned_nodes svc)\<rparr>) (cs_services st name))\<rparr>)"
| "cluster_apply api clk (UpdateServiceAssignment name node_ids) st =
     (case cs_services st name of
        Some svc \<Rightarrow> (Success None, st\<lparr>cs_services := (cs_services st)(name \<mapsto> svc\<lparr>assigned_nodes := node_ids\<rparr>)\<rparr>)
      | None \<Rightarrow> (Failure (ServiceUnknown name), st))"
| "cluster_apply api clk (Secrets op) st = apply_secrets (utc_now clk) op st"
| "cluster_apply api clk (GrantWorkerLease i h acquired renewed ttl) st =
     (Success None, st\<lparr>worker_leases := (worker_leases st)(i \<mapsto>
        \<lparr> lease_node_id = i, holder = h, acquired_ns = acquired, renewed_ns = renewed, ttl_secs = ttl,
          revision = 1 \<rparr>)\<rparr>)"
| "cluster_apply api clk (RenewWorkerLease i renewed ttl) st =
     (case worker_leases st i of
        Some lease \<Rightarrow>
          (Success None,
           if renewed > renewed_ns lease
           then st\<lparr>worker_leases := (worker_leases st)(i \<mapsto>
                  lease\<lparr>renewed_ns := renewed, ttl_secs := ttl, revision := sat_add (revision lease) 1\<rparr>)\<rparr>
           else st)
      | None \<Rightarrow> (Failure (NoLease i), st))"
| "cluster_apply api clk (ExpireWorkerLease i) st =
     (Success None, st\<lparr>worker_leases := (worker_leases st)(i := None)\<rparr>)"
| "cluster_apply api clk (RevokeWorkerLease i) st =
     (Success None, st\<lparr>worker_leases := (worker_leases st)(i := None)\<rparr>)"
| "cluster_apply api clk (AssignServiceSubnet name i) st =
     (case subnet_assign api (name, show_word i) (service_subnets st) of
        Inr (subnet, r) \<Rightarrow> (Success (Some (net_to_string api subnet)), st\<lparr>service_subnets := r\<rparr>)
      | Inl e \<Rightarrow> (Failure (SubnetFailed name i e), st))"
| "cluster_apply api clk (ReleaseServiceSubnet name i) st =
     (Success None, st\<lparr>service_subnets := snd (subnet_release (name, show_word i) (service_subnets st))\<rparr>)"
| "cluster_apply api clk (SetServiceOverlayEndpoint ep) st =
     (Success None, st\<lparr>service_overlay_endpoints :=
        hm_insert (map_key (ep_node_id ep) (ep_service ep)) ep (service_overlay_endpoints st)\<rparr>)"
| "cluster_apply api clk (RemoveServiceOverlayEndpoint i service) st =
     (Success None, st\<lparr>service_overlay_endpoints :=
        hm_remove (map_key i service) (service_overlay_endpoints st)\<rparr>)"

section \<open>Queries\<close>

definition get_service :: "('f, 'n, 'm) cluster_state \<Rightarrow> string \<Rightarrow> service_state option" where
  "get_service st name = cs_services st name"

definition get_node :: "('f, 'n, 'm) cluster_state \<Rightarrow> node_id \<Rightarrow> 'f node_info option" where
  "get_node st i = cs_nodes st i"

definition get_scale_events :: "('f, 'n, 'm) cluster_state \<Rightarrow> nat \<Rightarrow> scale_event list" where
  "get_scale_events st limit = drop (length (scale_events st) - limit) (scale_events st)"

definition nodes_hosting :: "('f, 'n, 'm) cluster_state \<Rightarrow> string \<Rightarrow> node_id list" where
  "nodes_hosting st service = (case cs_services st service of None \<Rightarrow> [] | Some svc \<Rightarrow> assigned_nodes svc)"

definition service_overlay_endpoints_for ::
  "('f, 'n, 'm) cluster_state \<Rightarrow> string \<Rightarrow> service_overlay_endpoint list" where
  "service_overlay_endpoints_for st service =
     filter (\<lambda>ep. ep_service ep = service) (map snd (service_overlay_endpoints st))"

section \<open>The log\<close>

fun cluster_run ::
  "('n, 'm) ipnet_api \<Rightarrow> (clock \<times> 'f::zero request) list \<Rightarrow> ('f, 'n, 'm) cluster_state \<Rightarrow>
   response list \<times> ('f, 'n, 'm) cluster_state" where
  "cluster_run api [] st = ([], st)"
| "cluster_run api ((clk, req) # log) st =
     (let (r, st') = cluster_apply api clk req st; (rs, st'') = cluster_run api log st' in (r # rs, st''))"

lemma cluster_run_Cons:
  "snd (cluster_run api (e # log) st) = snd (cluster_run api log (snd (cluster_apply api (fst e) (snd e) st)))"
  by (cases e) (simp add: case_prod_unfold Let_def)

section \<open>Replicas with different clocks\<close>

definition node_view :: "'f node_info \<Rightarrow> 'f node_info" where
  "node_view n = n\<lparr>registered_at := 0, last_heartbeat := 0\<rparr>"

definition cluster_agree :: "timestamp \<Rightarrow> ('f, 'n, 'm) cluster_state \<Rightarrow> ('f, 'n, 'm) cluster_state \<Rightarrow> bool" where
  "cluster_agree t a b \<longleftrightarrow>
     map_option node_view \<circ> cs_nodes a = map_option node_view \<circ> cs_nodes b \<and>
     secrets_agree t (cs_secrets a) (cs_secrets b) \<and>
     cs_services a = cs_services b \<and> scale_events a = scale_events b \<and>
     worker_leases a = worker_leases b \<and> service_subnets a = service_subnets b \<and>
     service_overlay_endpoints a = service_overlay_endpoints b"

fun request_expiry_ok :: "(string \<Rightarrow> timestamp) \<Rightarrow> 'f request \<Rightarrow> bool" where
  "request_expiry_ok expiry (Secrets op) = op_expiry_ok expiry op"
| "request_expiry_ok expiry _ = True"

lemma agree_nodes_None: "cluster_agree t a b \<Longrightarrow> cs_nodes a i = None \<longleftrightarrow> cs_nodes b i = None"
  by (auto simp: cluster_agree_def fun_eq_iff) (metis map_option_is_None)+

lemma update_node_nodes:
  "cs_nodes (update_node i f st) = (case cs_nodes st i of None \<Rightarrow> cs_nodes st | Some n \<Rightarrow> (cs_nodes st)(i \<mapsto> f n))"
  by (simp add: update_node_def split: option.splits)

lemma update_node_other [simp]:
  "cs_services (update_node i f st) = cs_services st" "scale_events (update_node i f st) = scale_events st"
  "cs_secrets (update_node i f st) = cs_secrets st" "worker_leases (update_node i f st) = worker_leases st"
  "service_subnets (update_node i f st) = service_subnets st"
  "service_overlay_endpoints (update_node i f st) = service_overlay_endpoints st"
  by (simp_all add: update_node_def split: option.splits)

lemma update_node_agree:
  assumes "cluster_agree t a b"
    and "\<And>n n'. node_view n = node_view n' \<Longrightarrow> node_view (f n) = node_view (f n')"
  shows "cluster_agree t (update_node i f a) (update_node i f b)"
proof -
  have eq: "map_option node_view (cs_nodes a j) = map_option node_view (cs_nodes b j)" for j
    using assms(1) by (simp add: cluster_agree_def fun_eq_iff)
  have "map_option node_view (cs_nodes (update_node i f a) j) =
      map_option node_view (cs_nodes (update_node i f b) j)" for j
  proof (cases "cs_nodes a i")
    case None
    with eq [of i] eq [of j] show ?thesis by (auto simp: update_node_nodes)
  next
    case (Some x)
    with eq [of i] obtain y where "cs_nodes b i = Some y" "node_view x = node_view y" by (cases "cs_nodes b i") auto
    with Some eq [of j] assms(2) [of x y] show ?thesis by (simp add: update_node_nodes)
  qed
  then show ?thesis using assms(1) by (simp add: cluster_agree_def fun_eq_iff)
qed

lemma node_view_upd:
  "node_view n = node_view n' \<Longrightarrow>
     node_view (n\<lparr>last_heartbeat := x, cpu_used := c, memory_used := m, disk_used := d, gpu_utilization := g\<rparr>) =
     node_view (n'\<lparr>last_heartbeat := x, cpu_used := c, memory_used := m, disk_used := d, gpu_utilization := g\<rparr>)"
  "node_view n = node_view n' \<Longrightarrow> node_view (n\<lparr>ni_status := s\<rparr>) = node_view (n'\<lparr>ni_status := s\<rparr>)"
  "node_view n = node_view n' \<Longrightarrow> node_view (n\<lparr>ni_mode := s\<rparr>) = node_view (n'\<lparr>ni_mode := s\<rparr>)"
  "node_view n = node_view n' \<Longrightarrow> node_view (n\<lparr>ni_labels := h (ni_labels n)\<rparr>) = node_view (n'\<lparr>ni_labels := h (ni_labels n')\<rparr>)"
  by (cases n; cases n'; simp add: node_view_def)+

lemma cluster_agree_apply:
  assumes "cluster_agree t a b"
    and "tokens_expiry_ok expiry (cs_secrets a)" and "tokens_expiry_ok expiry (cs_secrets b)"
    and "request_expiry_ok expiry req" and "utc_now clk \<le> t" and "utc_now clk' \<le> t"
  shows "fst (cluster_apply api clk req a) = fst (cluster_apply api clk' req b) \<and>
    cluster_agree t (snd (cluster_apply api clk req a)) (snd (cluster_apply api clk' req b))"
proof (cases req)
  case (UpdateNodeHeartbeat i timestamp cpu mem disk gpus)
  show ?thesis
    unfolding UpdateNodeHeartbeat cluster_apply.simps fst_conv snd_conv
    by (intro conjI refl update_node_agree [OF assms(1)] node_view_upd)
next
  case (UpdateNodeStatus i s)
  show ?thesis
    unfolding UpdateNodeStatus cluster_apply.simps fst_conv snd_conv
    by (intro conjI refl update_node_agree [OF assms(1)] node_view_upd)
next
  case (UpdateNodeMode i m)
  show ?thesis
    using agree_nodes_None [OF assms(1), of i] update_node_agree [OF assms(1) node_view_upd(3), where i = i] assms(1)
    by (auto simp: UpdateNodeMode split: option.splits)
next
  case (SetNodeLabels i l rem)
  show ?thesis
    using agree_nodes_None [OF assms(1), of i] assms(1)
      update_node_agree [OF assms(1) node_view_upd(4) [of _ _ "\<lambda>m. fold (\<lambda>k m. m(k := None)) rem (m ++ l)"], where i = i]
    by (auto simp: SetNodeLabels split: option.splits)
next
  case (RegisterNode rn)
  have "node_view (node_from_request x rn) = node_view (node_from_request y rn)" for x y
    by (simp add: node_view_def node_from_request_def)
  with assms(1) show ?thesis
    by (simp add: RegisterNode apply_register_node_def Let_def cluster_agree_def fun_eq_iff)
next
  case (DeregisterNode i)
  with assms(1) show ?thesis by (simp add: cluster_agree_def fun_eq_iff)
next
  case (Secrets op)
  have op: "op_expiry_ok expiry op" using assms(4) by (simp add: Secrets)
  from assms(1) have ag: "secrets_agree t (cs_secrets a) (cs_secrets b)" by (simp add: cluster_agree_def)
  show ?thesis
    using secrets_agree_apply [OF ag assms(2,3) op assms(5,6)] assms(1)
    by (auto simp: Secrets apply_secrets_def cluster_agree_def split: sum.splits)
qed (use assms(1) in \<open>auto simp: cluster_agree_def apply_record_scale_event_def Let_def
      split: option.splits sum.splits prod.splits\<close>)

lemma tokens_expiry_ok_cluster:
  assumes "tokens_expiry_ok expiry (cs_secrets st)" and "request_expiry_ok expiry req"
  shows "tokens_expiry_ok expiry (cs_secrets (snd (cluster_apply api clk req st)))"
proof (cases req)
  case (Secrets op)
  with assms show ?thesis
    by (auto simp: apply_secrets_def split: sum.splits intro: tokens_expiry_ok_apply)
qed (use assms(1) in \<open>auto simp: apply_record_scale_event_def apply_register_node_def Let_def
      split: option.splits sum.splits prod.splits\<close>)

lemma cluster_run_agree:
  assumes "map snd log = map snd log'" and "cluster_agree t a b"
    and "tokens_expiry_ok expiry (cs_secrets a)" and "tokens_expiry_ok expiry (cs_secrets b)"
    and "\<forall>req \<in> snd ` set log. request_expiry_ok expiry req"
    and "\<forall>clk \<in> fst ` (set log \<union> set log'). utc_now clk \<le> t"
  shows "fst (cluster_run api log a) = fst (cluster_run api log' b) \<and>
    cluster_agree t (snd (cluster_run api log a)) (snd (cluster_run api log' b))"
  using assms
proof (induction log log' arbitrary: a b rule: list_induct2')
  case (4 x log y log')
  obtain clk clk' req where x: "x = (clk, req)" and y: "y = (clk', req)"
    using "4.prems"(1) by (cases x; cases y) auto
  note step = cluster_agree_apply [of t a b expiry req clk clk' api]
  note IH = "4.IH" [of "snd (cluster_apply api clk req a)" "snd (cluster_apply api clk' req b)"]
  from "4.prems" IH step tokens_expiry_ok_cluster [of expiry a req api clk] tokens_expiry_ok_cluster [of expiry b req api clk']
  show ?case by (simp add: x y case_prod_unfold Let_def)
qed simp_all

lemma cluster_agree_refl [simp]: "cluster_agree t st st"
  by (simp add: cluster_agree_def secrets_agree_def)


definition sample_cluster :: "(int, 32 cidr, 128 cidr) cluster_state" where
  "sample_cluster =
     \<lparr> cs_services = Map.empty, cs_nodes = Map.empty, scale_events = [], cs_secrets = secrets_default,
       worker_leases = Map.empty, service_subnets = small_subnets, service_overlay_endpoints = [] \<rparr>"

section \<open>Scale events\<close>

fun recorded_event :: "'f request \<Rightarrow> scale_event list" where
  "recorded_event (RecordScaleEvent name from_r to_r reason timestamp) =
     [\<lparr> ev_service_name = name, from_replicas = from_r, to_replicas = to_r, ev_reason = reason, ev_timestamp = timestamp \<rparr>]"
| "recorded_event _ = []"

definition last_n :: "nat \<Rightarrow> 'a list \<Rightarrow> 'a list" where
  "last_n n xs = drop (length xs - n) xs"

lemma apply_scale_events:
  "scale_events (snd (cluster_apply api clk req st)) =
   (if recorded_event req = [] then scale_events st
    else let events = scale_events st @ recorded_event req in if length events > 100 then tl events else events)"
  by (cases req) (auto simp: apply_record_scale_event_def apply_register_node_def apply_secrets_def Let_def
      split: option.splits sum.splits prod.splits)

lemma last_n_snoc: "n > 0 \<Longrightarrow> last_n n (xs @ [x]) =
  (if length (last_n n xs) \<ge> n then tl (last_n n xs) @ [x] else last_n n xs @ [x])"
  by (auto simp: last_n_def drop_Suc tl_drop Suc_diff_le)

lemma cluster_run_events:
  assumes "scale_events st = last_n 100 past"
  shows "scale_events (snd (cluster_run api log st)) = last_n 100 (past @ concat (map (recorded_event \<circ> snd) log))"
  using assms
proof (induction log arbitrary: st past)
  case (Cons e log)
  obtain clk req where e: "e = (clk, req)" by fastforce
  have "scale_events (snd (cluster_apply api clk req st)) = last_n 100 (past @ recorded_event req)"
  proof (cases "recorded_event req")
    case (Cons ev evs)
    then have one: "recorded_event req = [ev]" by (cases req) auto
    have "length (last_n 100 past) \<le> 100" by (simp add: last_n_def)
    with Cons.prems show ?thesis
      unfolding apply_scale_events one
      by (auto simp: Let_def last_n_snoc tl_append split: list.splits)
  qed (use Cons.prems in \<open>simp add: apply_scale_events\<close>)
  from Cons.IH [OF this] show ?case by (simp add: e case_prod_unfold Let_def)
qed simp

text \<open>
  The scale history is a window: after any log, the state holds the last hundred scale events
  recorded since its creation, in order and with none missing, and asking for the most recent events
  returns the last ones of that window, as many as asked for.
\<close>

theorem scale_history_window:
  assumes "cluster_state_new api = Inr st"
  shows "scale_events (snd (cluster_run api log st)) = last_n 100 (concat (map (recorded_event \<circ> snd) log)) \<and>
    get_scale_events (snd (cluster_run api log st)) k = last_n (min k 100) (concat (map (recorded_event \<circ> snd) log))"
proof -
  let ?all = "concat (map (recorded_event \<circ> snd) log)"
  have "scale_events st = last_n 100 []"
    using assms by (auto simp: cluster_state_new_def and_then_Inr_iff last_n_def)
  from cluster_run_events [OF this, of api log]
  have ev: "scale_events (snd (cluster_run api log st)) = last_n 100 ?all" by simp
  have "last_n k (last_n 100 xs) = last_n (min k 100) xs" for xs :: "scale_event list"
    by (auto simp: last_n_def min_def intro!: arg_cong [where f = "\<lambda>n. drop n xs"])
  with ev show ?thesis by (simp add: get_scale_events_def last_n_def)
qed

section \<open>Worker leases\<close>

lemma unat_deadline:
  "unat (sat_add (sat_add (renewed_ns l) (sat_mul (ucast (ttl_secs l)) 1000000000)) (sat_mul (ucast g) 1000000000)) =
   min (unat (renewed_ns l) + (unat (ttl_secs l) + unat (g :: u32)) * 1000000000) (2 ^ 64 - 1)"
proof -
  have small: "unat (sat_mul (ucast (w :: u32)) 1000000000 :: u64) = unat w * 1000000000" for w
  proof -
    have w: "unat w < 2 ^ 32" using unat_bound [of w] by simp
    then have "unat (ucast w :: u64) = unat w"
      by (intro unat_ucast_fits) simp
    moreover have "unat w * 1000000000 \<le> 2 ^ LENGTH(64) - 1" using w by simp
    ultimately show ?thesis unfolding unat_sat_mul by (simp add: min_absorb1)
  qed
  have min_twice: "min (min x m + y) m = min (x + y) m" for x y m :: nat
    by (auto simp: min_def)
  show ?thesis unfolding unat_sat_add small min_twice by (simp add: distrib_right add.assoc)
qed

fun lease_request :: "'f request \<Rightarrow> node_id option" where
  "lease_request (GrantWorkerLease i _ _ _ _) = Some i"
| "lease_request (RenewWorkerLease i _ _) = Some i"
| "lease_request (ExpireWorkerLease i) = Some i"
| "lease_request (RevokeWorkerLease i) = Some i"
| "lease_request _ = None"

lemma apply_leases_frame:
  "lease_request req \<noteq> Some i \<Longrightarrow> worker_leases (snd (cluster_apply api clk req st)) i = worker_leases st i"
  by (cases req) (auto simp: apply_record_scale_event_def apply_register_node_def apply_secrets_def Let_def
      split: option.splits sum.splits prod.splits)

text \<open>
  Leases only move forward: a request other than a new grant never turns back the renewal time or
  the revision of a lease, keeps its holder and its acquisition time, and changes the lease of another
  node not at all; a renewal that is not newer than the recorded one changes nothing, and a renewal
  without a lease is refused without an effect. A lease is expired exactly from the renewal time plus
  its lifetime and the grace period on, computed without wrapping.
\<close>

theorem lease_forward_only:
  assumes "worker_leases st i = Some lease" and "\<forall>j h x y z. req \<noteq> GrantWorkerLease j h x y z"
    and "cluster_apply api clk req st = (resp, st')"
  shows "case worker_leases st' i of
      None \<Rightarrow> req = ExpireWorkerLease i \<or> req = RevokeWorkerLease i
    | Some lease' \<Rightarrow>
        renewed_ns lease \<le> renewed_ns lease' \<and> revision lease \<le> revision lease' \<and>
        holder lease' = holder lease \<and> acquired_ns lease' = acquired_ns lease \<and>
        ((\<forall>r ttl. req = RenewWorkerLease i r ttl \<longrightarrow> r \<le> renewed_ns lease) \<longrightarrow> lease' = lease) \<and>
        (is_expired lease' now grace \<longleftrightarrow>
          unat now \<ge> min (unat (renewed_ns lease') + (unat (ttl_secs lease') + unat grace) * 1000000000) (2 ^ 64 - 1))"
proof -
  have exp: "is_expired l now grace \<longleftrightarrow>
      unat now \<ge> min (unat (renewed_ns l) + (unat (ttl_secs l) + unat grace) * 1000000000) (2 ^ 64 - 1)" for l
    unfolding is_expired_def word_le_nat_alt unat_deadline ..
  have mono: "revision lease \<le> sat_add (revision lease) 1"
    using unat_bound [of "revision lease"] by (simp add: word_le_nat_alt unat_sat_add)
  have keep: ?thesis if "worker_leases st' i = Some lease"
    using that exp [of lease] by simp
  consider (other) "lease_request req \<noteq> Some i" | (renew) r ttl where "req = RenewWorkerLease i r ttl"
    | (remove) "req = ExpireWorkerLease i \<or> req = RevokeWorkerLease i"
    using assms(2) by (cases req) auto
  then show ?thesis
  proof cases
    case other
    from apply_leases_frame [OF this, of api clk st] assms(1,3) show ?thesis by (intro keep) simp
  next
    case renew
    show ?thesis
    proof (cases "renewed_ns lease < r")
      case True
      with assms(1,3) renew mono exp [of "lease\<lparr>renewed_ns := r, ttl_secs := ttl, revision := sat_add (revision lease) 1\<rparr>"]
      show ?thesis by (auto simp: not_le)
    next
      case False
      with assms(1,3) renew show ?thesis by (intro keep) auto
    qed
  next
    case remove
    with assms(3) show ?thesis by auto
  qed
qed

definition sample_lease :: worker_lease_record where
  "sample_lease = \<lparr> lease_node_id = 7, holder = ''w'', acquired_ns = 5, renewed_ns = 5, ttl_secs = 10, revision = 1 \<rparr>"

theorem lease_forward_only_witness:
  "\<exists>st'. cluster_apply cidr_api \<lparr> unix_millis = 0, utc_now = 0 \<rparr> (RenewWorkerLease 7 3 10)
       (sample_cluster\<lparr>worker_leases := [7 \<mapsto> sample_lease]\<rparr>) = (Success None, st') \<and>
     worker_leases st' 7 = Some sample_lease"
proof -
  let ?st = "sample_cluster\<lparr>worker_leases := [7 \<mapsto> sample_lease]\<rparr>"
  obtain resp st' where ap: "cluster_apply cidr_api \<lparr> unix_millis = 0, utc_now = 0 \<rparr> (RenewWorkerLease 7 3 10) ?st = (resp, st')"
    by fastforce
  then have "resp = Success None" by (simp add: sample_cluster_def)
  moreover have "(3 :: u64) \<le> renewed_ns sample_lease" by (simp add: sample_lease_def)
  moreover have "worker_leases ?st 7 = Some sample_lease" by simp
  ultimately show ?thesis
    using lease_forward_only [OF _ _ ap, of 7 sample_lease] ap by (auto split: option.splits)
qed

section \<open>Nodes and assignments\<close>

text \<open>
  Deregistering a node removes it everywhere the scheduler looks: the node is no longer
  registered, no service counts it among its hosts, every service keeps its other hosts in order, and
  every other node stays registered as it was.
\<close>

theorem deregister_removes:
  "nodes_hosting (snd (cluster_apply api clk (DeregisterNode i) st)) s = filter (\<lambda>n. n \<noteq> i) (nodes_hosting st s) \<and>
   get_node (snd (cluster_apply api clk (DeregisterNode i) st)) j = (if j = i then None else get_node st j) \<and>
   (get_service (snd (cluster_apply api clk (DeregisterNode i) st)) s = None \<longleftrightarrow> get_service st s = None)"
  by (auto simp: nodes_hosting_def get_node_def get_service_def split: option.splits)

section \<open>Dedicated-overlay endpoints\<close>

lemma map_key_inject [simp]: "map_key i s = map_key j t \<longleftrightarrow> i = j \<and> s = t"
proof -
  have "CHR ''/'' \<notin> set (show_nat n)" for n
    using show_nat_digits [of "CHR ''/''" n] by (auto simp: is_digit_def)
  then show ?thesis
    by (auto simp: map_key_def word_unat_eq_iff dest!: append_sep_inject [of "show_word i" "CHR ''/''" s "show_word j" t])
qed

definition endpoint_of :: "('f, 'n, 'm) cluster_state \<Rightarrow> node_id \<times> string \<Rightarrow> service_overlay_endpoint option" where
  "endpoint_of st k = hm_get (service_overlay_endpoints st) (map_key (fst k) (snd k))"

fun endpoint_effect ::
  "'f request \<Rightarrow> (node_id \<times> string \<rightharpoonup> service_overlay_endpoint) \<Rightarrow> (node_id \<times> string \<rightharpoonup> service_overlay_endpoint)" where
  "endpoint_effect (SetServiceOverlayEndpoint ep) m = m((ep_node_id ep, ep_service ep) \<mapsto> ep)"
| "endpoint_effect (RemoveServiceOverlayEndpoint i service) m = m((i, service) := None)"
| "endpoint_effect _ m = m"

definition endpoints_wf :: "('f, 'n, 'm) cluster_state \<Rightarrow> bool" where
  "endpoints_wf st \<longleftrightarrow> hm_wf (service_overlay_endpoints st) \<and>
     (\<forall>(key, ep) \<in> set (service_overlay_endpoints st). key = map_key (ep_node_id ep) (ep_service ep))"

lemma apply_endpoint_of: "endpoint_of (snd (cluster_apply api clk req st)) = endpoint_effect req (endpoint_of st)"
  by (cases req) (auto simp: endpoint_of_def fun_eq_iff prod_eq_iff apply_record_scale_event_def
      apply_register_node_def apply_secrets_def Let_def split: option.splits sum.splits prod.splits)

lemma endpoints_wf_apply: "endpoints_wf st \<Longrightarrow> endpoints_wf (snd (cluster_apply api clk req st))"
  by (cases req) (auto simp: endpoints_wf_def set_hm_insert set_hm_remove apply_record_scale_event_def
      apply_register_node_def apply_secrets_def Let_def split: option.splits sum.splits prod.splits if_splits)

lemma cluster_run_endpoints:
  "endpoint_of (snd (cluster_run api log st)) = fold endpoint_effect (map snd log) (endpoint_of st)"
  "endpoints_wf st \<Longrightarrow> endpoints_wf (snd (cluster_run api log st))"
  by (induction log arbitrary: st)
     (simp_all add: cluster_run_Cons apply_endpoint_of endpoints_wf_apply del: cluster_run.simps(2))

lemma endpoints_for_mem:
  assumes "endpoints_wf st"
  shows "ep \<in> set (service_overlay_endpoints_for st s) \<longleftrightarrow> (\<exists>i. endpoint_of st (i, s) = Some ep)"
proof -
  let ?m = "service_overlay_endpoints st"
  have wf: "hm_wf ?m" and keys: "\<And>key e. (key, e) \<in> set ?m \<Longrightarrow> key = map_key (ep_node_id e) (ep_service e)"
    using assms by (auto simp: endpoints_wf_def)
  have "ep \<in> set (service_overlay_endpoints_for st s) \<longleftrightarrow> (\<exists>key. (key, ep) \<in> set ?m \<and> ep_service ep = s)"
    by (force simp: service_overlay_endpoints_for_def)
  also have "\<dots> \<longleftrightarrow> (\<exists>i. (map_key i s, ep) \<in> set ?m)"
    using keys by fastforce
  finally show ?thesis by (simp add: endpoint_of_def hm_wf_mem_iff [OF wf])
qed

text \<open>
  C32. The endpoints published for dedicated overlays behave as one table indexed by node and service,
  although they are stored under a text key: after any log, publishing sets and removing clears exactly
  the entry of that node and service, no two entries share a key, and the endpoints listed for a
  service are exactly the entries of that service.
\<close>

theorem endpoints_refine_table:
  assumes "cluster_state_new api = Inr st" and "st' = snd (cluster_run api log st)"
  shows "endpoint_of st' = fold endpoint_effect (map snd log) Map.empty \<and>
    set (service_overlay_endpoints_for st' s) = ran (\<lambda>i. endpoint_of st' (i, s))"
proof -
  have init: "service_overlay_endpoints st = []"
    using assms(1) by (auto simp: cluster_state_new_def and_then_Inr_iff)
  then have "endpoint_of st = Map.empty" "endpoints_wf st"
    by (auto simp: endpoint_of_def endpoints_wf_def fun_eq_iff)
  with cluster_run_endpoints [where api = api and log = log and st = st] endpoints_for_mem [of st' _ s] assms(2) show ?thesis
    by (auto simp: ran_def)
qed

definition default_subnets :: "(32 cidr, 128 cidr) service_subnet_registry" where
  "default_subnets = \<lparr> ssr_cluster_cidr = V4 (180879360, 16), ssr_slice_prefix = 28, ssr_assignments = [] \<rparr>"

lemma default_cidr_parse: "cidr_parse ''10.200.0.0/16'' = Some (V4 (180879360, 16))"
  by (simp add: cidr_parse_def read_num_def is_digit_def read_nat_def digit_val_def Let_def)

lemma default_registry_cidr_api: "default_service_subnet_registry cidr_api = Inr default_subnets"
  by (simp add: default_service_subnet_registry_def DEFAULT_SERVICE_SUBNET_CLUSTER_CIDR_def
      DEFAULT_SERVICE_SUBNET_SLICE_PREFIX_def service_subnets_new_def check_prefix_def default_subnets_def
      cidr_api_def default_cidr_parse cidr_prefix_def)

lemma cluster_new_cidr_api:
  "cluster_state_new cidr_api = Inr (sample_cluster\<lparr>service_subnets := default_subnets\<rparr>)"
  by (simp add: cluster_state_new_def default_registry_cidr_api sample_cluster_def)

definition sample_endpoint :: service_overlay_endpoint where
  "sample_endpoint = \<lparr> ep_node_id = 1, ep_service = ''db'', ep_wg_public_key = ''k'', ep_endpoint = ''h:1'',
     ep_overlay_ip = ''10.0.0.1'', ep_subnet = ''10.0.0.0/28'' \<rparr>"

abbreviation clock0 :: clock where
  "clock0 \<equiv> \<lparr> unix_millis = 0, utc_now = 0 \<rparr>"

theorem endpoints_refine_table_witness:
  "set (service_overlay_endpoints_for (snd (cluster_run cidr_api
     [(clock0, SetServiceOverlayEndpoint sample_endpoint)] (sample_cluster\<lparr>service_subnets := default_subnets\<rparr>))) ''db'') =
   {sample_endpoint}"
  using endpoints_refine_table [OF cluster_new_cidr_api refl,
      of "[(clock0, SetServiceOverlayEndpoint sample_endpoint)]" "''db''"]
  by (auto simp: sample_endpoint_def ran_def split: if_splits)

theorem scale_history_window_witness:
  "map to_replicas (get_scale_events (snd (cluster_run cidr_api
     [(clock0, RecordScaleEvent ''web'' 1 2 ''cpu'' 5), (clock0, RecordScaleEvent ''web'' 2 3 ''cpu'' 6)]
     (sample_cluster\<lparr>service_subnets := default_subnets\<rparr>))) 1) = [3]"
  using scale_history_window [OF cluster_new_cidr_api,
      of "[(clock0, RecordScaleEvent ''web'' 1 2 ''cpu'' 5), (clock0, RecordScaleEvent ''web'' 2 3 ''cpu'' 6)]" 1]
  by (simp add: last_n_def)

end
