(* ===== verification/Agent_Types.thy ===== *)
theory Agent_Types
  imports Prelude
begin

text \<open>
  Vocabulary of the agent: its errors (\<open>crates/zlayer-agent/src/error.rs\<close>), the container states and
  container identifiers of \<open>runtime.rs\<close> with the two forms they are displayed in and the parser that
  reads them back, the health states of \<open>health.rs\<close>, and the scaling specification of a service.
\<close>

section \<open>Errors and states\<close>

text \<open>Durations are in nanoseconds.\<close>

type_synonym duration = nat

datatype agent_error =
    AgentNotFound string string
  | PullFailed string string
  | CreateFailed string string
  | StartFailed string string
  | UnexpectedExit string "32 word"
  | HealthCheckFailed string string
  | InitActionFailed string string
  | AgentTimeout duration
  | DependencyTimeout string string string duration
  | InvalidSpec string
  | NetworkError string
  | Configuration string
  | AgentInternal string
  | Unsupported string
  | WslGpuUnavailable string
  | GpuSharingUnavailable string string
  | RouteToPeer string string string
  | WrongPlatform string string string string

datatype container_state =
    Pending
  | Initializing
  | Running
  | Stopping
  | Exited "32 word"
  | Failed string

fun container_state_as_str :: "container_state \<Rightarrow> string" where
  "container_state_as_str Pending = ''pending''"
| "container_state_as_str Initializing = ''initializing''"
| "container_state_as_str Running = ''running''"
| "container_state_as_str Stopping = ''stopping''"
| "container_state_as_str (Exited _) = ''exited''"
| "container_state_as_str (Failed _) = ''failed''"

datatype health_state = HealthUnknown | HealthChecking | HealthOk | HealthBad u32 string

text \<open>The scaling part of a service specification, \<open>crates/zlayer-types/src/spec/types.rs\<close>.\<close>

record scale_targets =
  target_cpu :: "u8 option"
  target_memory :: "u8 option"
  target_rps :: "u32 option"

datatype scale_spec =
    Adaptive u32 u32 "duration option" scale_targets
  | Fixed u32
  | Manual

section \<open>Container identifiers\<close>

record container_id =
  cid_service :: string
  cid_replica :: u32
  cid_role :: string
  cid_node_id :: u64

definition default_container_role :: string where
  "default_container_role = ''default''"

definition container_id_new :: "string \<Rightarrow> u32 \<Rightarrow> container_id" where
  "container_id_new service replica =
     \<lparr> cid_service = service, cid_replica = replica, cid_role = default_container_role, cid_node_id = 0 \<rparr>"

definition with_role_and_node :: "string \<Rightarrow> u32 \<Rightarrow> string \<Rightarrow> u64 \<Rightarrow> container_id" where
  "with_role_and_node service replica role node_id =
     \<lparr> cid_service = service, cid_replica = replica, cid_role = role, cid_node_id = node_id \<rparr>"

definition is_legacy_shape :: "container_id \<Rightarrow> bool" where
  "is_legacy_shape c \<longleftrightarrow> cid_role c = ''default'' \<and> cid_node_id c = 0"

definition container_id_display :: "container_id \<Rightarrow> string" where
  "container_id_display c =
     (if is_legacy_shape c then cid_service c @ ''-rep-'' @ show_word (cid_replica c)
      else cid_service c @ ''-'' @ cid_role c @ ''-'' @ show_word (cid_replica c) @ ''-on-'' @ show_word (cid_node_id c))"

definition parse_display :: "string \<Rightarrow> container_id option" where
  "parse_display s =
     (case rsplit_once ''-on-'' s of
        Some (head, node_str) \<Rightarrow>
          Option.bind (parse_uint node_str) (\<lambda>node_id.
          Option.bind (rsplit_once ''-'' head) (\<lambda>(service_role, replica_str).
          Option.bind (parse_uint replica_str) (\<lambda>replica.
          Option.bind (rsplit_once ''-'' service_role) (\<lambda>(service, role).
            if service = [] \<or> role = [] then None
            else Some (with_role_and_node service replica role node_id)))))
      | None \<Rightarrow>
          (case rsplit_once ''-rep-'' s of
             Some (service, replica_str) \<Rightarrow>
               Option.bind (parse_uint replica_str) (\<lambda>replica.
                 if service = [] then None else Some (container_id_new service replica))
           | None \<Rightarrow> None))"

lemma show_word_no: "\<not> is_digit c \<Longrightarrow> c \<notin> set (show_word w)"
  using show_nat_digits by blast

lemmas rsplit_on = rsplit_once_last [where p = "''-on''" and c = "CHR ''-''", simplified]
lemmas rsplit_rep = rsplit_once_last [where p = "''-rep''" and c = "CHR ''-''", simplified]
lemmas rsplit_dash = rsplit_once_last [where p = "[]" and c = "CHR ''-''", simplified]

lemma parse_cluster_shape:
  "parse_display (service @ ''-'' @ role @ ''-'' @ show_word (replica :: u32) @ ''-on-'' @ show_word (node :: u64)) =
     (case rsplit_once ''-'' (service @ ''-'' @ role) of
        None \<Rightarrow> None
      | Some (service', role') \<Rightarrow>
          if service' = [] \<or> role' = [] then None else Some (with_role_and_node service' replica role' node))"
proof -
  have d: "CHR ''-'' \<notin> set (show_word w)" for w :: "'a::len word" by (rule show_word_no) (simp add: is_digit_def)
  have on: "rsplit_once ''-on-'' (service @ ''-'' @ role @ ''-'' @ show_word replica @ ''-on-'' @ show_word node) =
      Some (service @ ''-'' @ role @ ''-'' @ show_word replica, show_word node)"
    using rsplit_on [OF d [of node], of "service @ ''-'' @ role @ ''-'' @ show_word replica"] by simp
  have dash: "rsplit_once ''-'' (service @ ''-'' @ role @ ''-'' @ show_word replica) = Some (service @ ''-'' @ role, show_word replica)"
    using rsplit_dash [OF d [of replica], of "service @ ''-'' @ role"] by simp
  show ?thesis
    unfolding parse_display_def on option.case prod.case parse_show Option.bind.simps dash
    by (simp add: split: option.split)
qed

text \<open>An occurrence of \<open>-on-\<close> in a legacy name lies within the service name and the dash after it.\<close>

lemma on_in_legacy:
  fixes w :: u32
  assumes "service @ ''-rep-'' @ show_word w = a @ ''-on-'' @ b"
  shows "\<exists>b'. service @ ''-'' = a @ ''-on-'' @ b' \<and> b = b' @ ''rep-'' @ show_word w"
proof -
  let ?s = "service @ ''-rep-'' @ show_word w" and ?n = "length service"
  have "CHR ''o'' \<notin> set (''-rep-'' @ show_word w)" using show_word_no [of "CHR ''o''" w] by (simp add: is_digit_def)
  moreover have "?s ! Suc (length a) = CHR ''o''" "Suc (length a) < length ?s" unfolding assms by (simp_all add: nth_append)
  ultimately have lt: "Suc (length a) < ?n"
    by (metis add_diff_inverse_nat length_append nat_add_left_cancel_less nth_append nth_mem)
  have dash: "?s ! (length a + 3) = CHR ''-''" unfolding assms by (simp add: nth_append)
  have "length a + 3 \<noteq> ?n + 1"
  proof
    assume e: "length a + 3 = ?n + 1"
    from dash show False unfolding e by (simp add: nth_append)
  qed
  with lt have le: "length (a @ ''-on-'') \<le> length (service @ ''-'')" by simp
  have eq: "(service @ ''-'') @ (''rep-'' @ show_word w) = (a @ ''-on-'') @ b" using assms by simp
  then obtain us where us: "service @ ''-'' = (a @ ''-on-'') @ us \<and> us @ ''rep-'' @ show_word w = b \<or>
      (service @ ''-'') @ us = a @ ''-on-'' \<and> ''rep-'' @ show_word w = us @ b"
    unfolding append_eq_append_conv2 by blast
  have "us = []" if "(service @ ''-'') @ us = a @ ''-on-''"
    using arg_cong [OF that, of length] le by (simp flip: length_0_conv)
  with us have "service @ ''-'' = (a @ ''-on-'') @ us \<and> us @ ''rep-'' @ show_word w = b" by auto
  then show ?thesis by (intro exI [of _ us]) simp
qed

text \<open>
  C40. Which container names read back: parsing the displayed form of an identifier gives that identifier
  exactly when its service is not empty and, for a cluster identifier, its role is not empty and has no
  dash, or, for a legacy one, its service neither contains \<open>-on-\<close> nor ends in \<open>-on\<close>. In every other case
  the name is rejected or read as a different identifier.
\<close>

theorem container_id_roundtrip:
  "parse_display (container_id_display c) = Some c \<longleftrightarrow>
     cid_service c \<noteq> [] \<and>
     (if is_legacy_shape c then rsplit_once ''-on-'' (cid_service c @ ''-'') = None
      else cid_role c \<noteq> [] \<and> CHR ''-'' \<notin> set (cid_role c))"
proof (cases "is_legacy_shape c")
  case True
  let ?s = "cid_service c" and ?w = "cid_replica c"
  have c: "c = container_id_new ?s ?w"
    using True by (simp add: is_legacy_shape_def container_id_new_def default_container_role_def)
  have disp: "container_id_display c = ?s @ ''-rep-'' @ show_word ?w" using True by (simp add: container_id_display_def)
  have rep: "rsplit_once ''-rep-'' (?s @ ''-rep-'' @ show_word ?w) = Some (?s, show_word ?w)"
    using rsplit_rep [of "show_word ?w" ?s] show_word_no [of "CHR ''-''" ?w] by (simp add: is_digit_def)
  show ?thesis
  proof (cases "rsplit_once ''-on-'' (?s @ ''-rep-'' @ show_word ?w)")
    case None
    then have "rsplit_once ''-on-'' (?s @ ''-'') = None"
      unfolding rsplit_once_None by (metis append.assoc append_Cons append_Nil)
    moreover have "parse_display (container_id_display c) = (if ?s = [] then None else Some (container_id_new ?s ?w))"
      unfolding disp parse_display_def None rep by simp
    ultimately show ?thesis using True c by simp
  next
    case (Some hn)
    then obtain a b where ab: "rsplit_once ''-on-'' (?s @ ''-rep-'' @ show_word ?w) = Some (a, b)" by (cases hn) simp
    from on_in_legacy [OF rsplit_once_Some [OF ab]] obtain b' where b': "?s @ ''-'' = a @ ''-on-'' @ b'"
      "b = b' @ ''rep-'' @ show_word ?w" by blast
    have "parse_uint b = (None :: u64 option)"
    proof (cases "parse_uint b :: u64 option")
      case (Some w)
      from parse_uint_Some_digits [OF Some, of "CHR ''r''"] b'(2) show ?thesis by (simp add: is_digit_def)
    qed
    then have "parse_display (container_id_display c) = None" unfolding disp parse_display_def ab by simp
    moreover have "rsplit_once ''-on-'' (?s @ ''-'') \<noteq> None" unfolding rsplit_once_None using b'(1) by blast
    ultimately show ?thesis using True by simp
  qed
next
  case False
  let ?s = "cid_service c" and ?r = "cid_role c"
  have c: "c = with_role_and_node ?s (cid_replica c) ?r (cid_node_id c)" by (simp add: with_role_and_node_def)
  have p: "parse_display (container_id_display c) = (case rsplit_once ''-'' (?s @ ''-'' @ ?r) of
        None \<Rightarrow> None
      | Some (service', role') \<Rightarrow> if service' = [] \<or> role' = [] then None
          else Some (with_role_and_node service' (cid_replica c) role' (cid_node_id c)))"
    using False by (simp only: container_id_display_def if_False parse_cluster_shape)
  show ?thesis
  proof (cases "CHR ''-'' \<in> set ?r")
    case True
    then obtain x y where xy: "?r = x @ CHR ''-'' # y" "CHR ''-'' \<notin> set y" by (metis split_list_last)
    have "rsplit_once ''-'' (?s @ ''-'' @ ?r) = Some (?s @ ''-'' @ x, y)"
      using rsplit_dash [OF xy(2), of "?s @ ''-'' @ x"] xy(1) by simp
    moreover have "with_role_and_node (?s @ ''-'' @ x) (cid_replica c) y (cid_node_id c) \<noteq> c"
    proof
      assume e: "with_role_and_node (?s @ ''-'' @ x) (cid_replica c) y (cid_node_id c) = c"
      have "?r = y" by (subst e [symmetric]) (simp add: with_role_and_node_def)
      with True xy(2) show False by simp
    qed
    ultimately show ?thesis using p True False by simp
  next
    case nodash: False
    have "rsplit_once ''-'' (?s @ ''-'' @ ?r) = Some (?s, ?r)" using rsplit_dash [OF nodash, of ?s] by simp
    with p c nodash False show ?thesis by simp
  qed
qed

end
