(* ===== verification/Routes.thy ===== *)
theory Routes
  imports Prelude
begin

text \<open>
  The route table of the proxy, \<open>crates/zlayer-proxy/src/routes.rs\<close>: host and path matching, path
  rewriting, and the service registry, which keeps its routes ordered by the length of their path
  prefix. The endpoint specification it reads is that of \<open>crates/zlayer-types/src/spec/types.rs\<close>.
  The lock around the table is not modelled: each operation runs under it from start to end.
\<close>

section \<open>Endpoints\<close>

datatype protocol = Http | Https | ProtoTcp | ProtoUdp | Websocket

datatype expose_type = Public | Internal

datatype stream_health_check = TcpConnect | UdpProbe string "string option"

record stream_endpoint_config =
  sec_tls :: bool
  sec_proxy_protocol :: bool
  sec_session_timeout :: "string option"
  sec_health_check :: "stream_health_check option"

record tunnel_access_config =
  tac_enabled :: bool
  tac_max_ttl :: "string option"
  tac_audit :: bool

record endpoint_tunnel_config =
  etc_enabled :: bool
  etc_from :: "string option"
  etc_to :: "string option"
  etc_remote_port :: u16
  etc_expose :: "expose_type option"
  etc_access :: "tunnel_access_config option"

record endpoint_spec =
  ep_name :: string
  ep_protocol :: protocol
  ep_port :: u16
  ep_target_port :: "u16 option"
  ep_path :: "string option"
  ep_host :: "string option"
  ep_expose :: expose_type
  ep_stream :: "stream_endpoint_config option"
  ep_target_role :: "string option"
  ep_tunnel :: "endpoint_tunnel_config option"

definition endpoint_target_port :: "endpoint_spec \<Rightarrow> u16" where
  "endpoint_target_port e = (case ep_target_port e of None \<Rightarrow> ep_port e | Some p \<Rightarrow> p)"

section \<open>Matching\<close>

definition trim_end_slashes :: "string \<Rightarrow> string" where
  "trim_end_slashes s = rev (dropWhile (\<lambda>c. c = CHR ''/'') (rev s))"

definition host_matches :: "string \<Rightarrow> string \<Rightarrow> bool" where
  "host_matches pattern host =
     (if starts_with pattern ''*.'' then ends_with host (drop 1 pattern) else pattern = host)"

definition path_matches :: "string \<Rightarrow> string \<Rightarrow> bool" where
  "path_matches pre path =
     (if pre = ''/'' then True
      else
        let normalized = trim_end_slashes pre;
            normalized_path = trim_end_slashes path in
        starts_with normalized_path normalized \<and>
        (length normalized_path = length normalized \<or>
         (length normalized < length path \<and> path ! length normalized = CHR ''/'')))"

definition transform_path :: "string \<Rightarrow> string \<Rightarrow> bool \<Rightarrow> string" where
  "transform_path pre path strip =
     (if \<not> strip \<or> pre = ''/'' then path
      else
        let normalized_prefix = trim_end_slashes pre in
        case strip_prefix path normalized_prefix of
          Some remainder \<Rightarrow> if remainder = [] then ''/'' else remainder
        | None \<Rightarrow> path)"

definition endpoint_lb_key :: "string \<Rightarrow> string \<Rightarrow> string" where
  "endpoint_lb_key service_name endpoint_name = service_name @ ''#'' @ endpoint_name"

section \<open>Routes\<close>

record resolved_service =
  res_name :: string
  res_backends :: "socket_addr list"
  res_use_tls :: bool
  res_sni_hostname :: string
  res_expose :: expose_type
  res_protocol :: protocol
  res_strip_prefix :: bool
  res_path_prefix :: string
  res_target_port :: u16

record route_entry =
  rt_service :: string
  rt_endpoint :: string
  rt_host :: "string option"
  rt_path_prefix :: string
  rt_resolved :: resolved_service

definition from_endpoint :: "string \<Rightarrow> endpoint_spec \<Rightarrow> route_entry" where
  "from_endpoint service_name endpoint =
     (let path_prefix = (case ep_path endpoint of None \<Rightarrow> ''/'' | Some p \<Rightarrow> p);
          target_port = endpoint_target_port endpoint in
      \<lparr> rt_service = service_name, rt_endpoint = ep_name endpoint, rt_host = ep_host endpoint,
        rt_path_prefix = path_prefix,
        rt_resolved = \<lparr> res_name = endpoint_lb_key service_name (ep_name endpoint), res_backends = [],
          res_use_tls = (ep_protocol endpoint = Https), res_sni_hostname = [], res_expose = ep_expose endpoint,
          res_protocol = ep_protocol endpoint, res_strip_prefix = False, res_path_prefix = path_prefix,
          res_target_port = target_port \<rparr> \<rparr>)"

definition route_matches :: "route_entry \<Rightarrow> string option \<Rightarrow> string \<Rightarrow> bool" where
  "route_matches r host path =
     (case rt_host r of
        Some pattern \<Rightarrow>
          (case host of
             Some h \<Rightarrow> if \<not> host_matches pattern h then False else path_matches (rt_path_prefix r) path
           | None \<Rightarrow> False)
      | None \<Rightarrow> path_matches (rt_path_prefix r) path)"

type_synonym service_registry = "route_entry list"

definition routes_new :: service_registry where
  "routes_new = []"

fun position :: "('a \<Rightarrow> bool) \<Rightarrow> 'a list \<Rightarrow> nat option" where
  "position P [] = None"
| "position P (x # xs) = (if P x then Some 0 else map_option Suc (position P xs))"

definition routes_register :: "route_entry \<Rightarrow> service_registry \<Rightarrow> service_registry" where
  "routes_register entry routes =
     (let insert_idx = (case position (\<lambda>r. length (rt_path_prefix r) < length (rt_path_prefix entry)) routes of
                          None \<Rightarrow> length routes | Some i \<Rightarrow> i)
      in take insert_idx routes @ entry # drop insert_idx routes)"

definition unregister_service :: "string \<Rightarrow> service_registry \<Rightarrow> service_registry" where
  "unregister_service service_name routes = filter (\<lambda>r. rt_service r \<noteq> service_name) routes"

fun resolve :: "service_registry \<Rightarrow> string option \<Rightarrow> string \<Rightarrow> resolved_service option" where
  "resolve [] host path = None"
| "resolve (entry # routes) host path =
     (if route_matches entry host path then Some (rt_resolved entry) else resolve routes host path)"

definition set_backends :: "socket_addr list \<Rightarrow> route_entry \<Rightarrow> route_entry" where
  "set_backends backends r = r\<lparr>rt_resolved := (rt_resolved r)\<lparr>res_backends := backends\<rparr>\<rparr>"

definition route_update_backends :: "string \<Rightarrow> socket_addr list \<Rightarrow> service_registry \<Rightarrow> service_registry" where
  "route_update_backends service_name backends routes =
     map (\<lambda>r. if rt_service r = service_name then set_backends backends r else r) routes"

definition update_backends_for_endpoint ::
  "string \<Rightarrow> string \<Rightarrow> socket_addr list \<Rightarrow> service_registry \<Rightarrow> service_registry" where
  "update_backends_for_endpoint service_name endpoint_name backends routes =
     map (\<lambda>r. if rt_service r = service_name \<and> rt_endpoint r = endpoint_name then set_backends backends r else r) routes"

definition route_add_backend :: "string \<Rightarrow> socket_addr \<Rightarrow> service_registry \<Rightarrow> service_registry" where
  "route_add_backend service_name addr routes =
     map (\<lambda>r. if rt_service r = service_name \<and> addr \<notin> set (res_backends (rt_resolved r))
              then set_backends (res_backends (rt_resolved r) @ [addr]) r else r) routes"

definition route_remove_backend :: "string \<Rightarrow> socket_addr \<Rightarrow> service_registry \<Rightarrow> service_registry" where
  "route_remove_backend service_name addr routes =
     map (\<lambda>r. if rt_service r = service_name
              then set_backends (filter (\<lambda>a. a \<noteq> addr) (res_backends (rt_resolved r))) r else r) routes"

definition list_services :: "service_registry \<Rightarrow> string list" where
  "list_services routes =
     fold (\<lambda>entry seen. if rt_service entry \<notin> set seen then seen @ [rt_service entry] else seen) routes []"

definition route_count :: "service_registry \<Rightarrow> nat" where
  "route_count routes = length routes"

section \<open>Paths\<close>

lemma trim_end_slashes_split:
  "\<exists>n. s = trim_end_slashes s @ replicate n (CHR ''/'')"
proof (induction s rule: rev_induct)
  case (snoc c s)
  then obtain n where "s = trim_end_slashes s @ replicate n (CHR ''/'')" ..
  then have "s @ [CHR ''/''] = trim_end_slashes s @ replicate (Suc n) (CHR ''/'')"
    by (metis append.assoc replicate_append_same replicate_Suc)
  then have "\<exists>n. s @ [CHR ''/''] = trim_end_slashes s @ replicate n (CHR ''/'')" by (rule exI)
  moreover have "\<exists>n. s @ [c] = (s @ [c]) @ replicate n (CHR ''/'')" by (rule exI [of _ 0]) simp
  ultimately show ?case by (auto simp: trim_end_slashes_def)
qed (simp add: trim_end_slashes_def)

text \<open>The segments of a path: what lies between its slashes.\<close>

fun segments :: "string \<Rightarrow> string list" where
  "segments [] = [[]]"
| "segments (c # s) =
     (if c = CHR ''/'' then [] # segments s else (c # hd (segments s)) # tl (segments s))"

lemma segments_nonempty [simp]: "segments s \<noteq> []"
  by (cases s) simp_all

lemma segments_sep: "segments (s @ CHR ''/'' # t) = segments s @ segments t"
  by (induction s) simp_all

lemma segments_prefix:
  "take (length (segments s)) (segments t) = segments s \<longleftrightarrow> t = s \<or> (\<exists>u. t = s @ CHR ''/'' # u)"
proof
  assume "t = s \<or> (\<exists>u. t = s @ CHR ''/'' # u)"
  then show "take (length (segments s)) (segments t) = segments s" by (auto simp: segments_sep)
next
  assume "take (length (segments s)) (segments t) = segments s"
  then show "t = s \<or> (\<exists>u. t = s @ CHR ''/'' # u)"
  proof (induction s arbitrary: t)
    case Nil
    then show ?case by (cases t) (auto split: if_splits)
  next
    case (Cons a s)
    obtain x xs where s: "segments s = x # xs" by (cases "segments s") auto
    show ?case
    proof (cases t)
      case Nil
      with Cons.prems s show ?thesis by (auto split: if_splits)
    next
      case t: (Cons b t')
      obtain y ys where t': "segments t' = y # ys" by (cases "segments t'") auto
      have "a = b \<and> take (length (segments s)) (segments t') = segments s"
        using Cons.prems s t' by (auto simp: t split: if_splits)
      with Cons.IH [of t'] t show ?thesis by auto
    qed
  qed
qed

lemma trim_end_slashes_prefix: "\<exists>t. s = trim_end_slashes s @ t"
  using trim_end_slashes_split by blast

text \<open>
  Path matching works on whole segments: apart from the catch-all prefix, a prefix matches a path
  exactly when, trailing slashes aside, its segments are an initial part of the path's segments, so
  that \<open>/api\<close> matches \<open>/api/users\<close> and never \<open>/apiary\<close>.
\<close>

theorem path_matches_segments:
  "path_matches pre path \<longleftrightarrow> pre = ''/'' \<or>
     take (length (segments (trim_end_slashes pre))) (segments (trim_end_slashes path)) = segments (trim_end_slashes pre)"
proof -
  let ?n = "trim_end_slashes pre" and ?p = "trim_end_slashes path"
  obtain t where t: "path = ?p @ t" using trim_end_slashes_prefix by blast
  have "starts_with ?p ?n \<and> (length ?p = length ?n \<or> (length ?n < length path \<and> path ! length ?n = CHR ''/''))
      \<longleftrightarrow> ?p = ?n \<or> (\<exists>u. ?p = ?n @ CHR ''/'' # u)" (is "?l \<longleftrightarrow> ?r")
  proof
    assume l: ?l
    then obtain u where u: "?p = ?n @ u" by (auto simp: starts_with_iff)
    show ?r
    proof (cases u)
      case (Cons c v)
      have "path ! length ?n = c" by (subst t) (simp add: u Cons nth_append)
      with l u Cons show ?thesis by auto
    qed (use u in simp)
  next
    assume ?r
    then show ?l
    proof
      assume "\<exists>u. ?p = ?n @ CHR ''/'' # u"
      then obtain u where u: "?p = ?n @ CHR ''/'' # u" ..
      have "path ! length ?n = CHR ''/''" "length ?n < length path" by (subst t, simp add: u nth_append)+
      with u show ?l by (auto simp: starts_with_iff)
    qed (simp add: starts_with_iff)
  qed
  then show ?thesis unfolding segments_prefix path_matches_def Let_def by simp
qed
text \<open>
  Stripping the prefix of a matching route yields an absolute path: whatever the strip flag says, an
  absolute request path is handed on as an absolute path, and a stripped path put behind the prefix gives the
  request path back, up to the slash that stands for an empty rest.
\<close>

theorem stripped_path_absolute:
  assumes "path_matches pre path" and "starts_with path ''/''"
  shows "starts_with (transform_path pre path strip) ''/'' \<and>
    (strip \<and> pre \<noteq> ''/'' \<longrightarrow>
       path = trim_end_slashes pre @ transform_path pre path strip \<or>
       path = trim_end_slashes pre \<and> transform_path pre path strip = ''/'')"
proof (cases "strip \<and> pre \<noteq> ''/''")
  case True
  let ?n = "trim_end_slashes pre" and ?p = "trim_end_slashes path"
  obtain n where path: "path = ?p @ replicate n (CHR ''/'')" using trim_end_slashes_split by blast
  obtain u where u: "?p = ?n @ u" using assms(1) True by (auto simp: path_matches_def Let_def starts_with_iff)
  let ?r = "u @ replicate n (CHR ''/'')"
  have split: "path = ?n @ ?r" by (subst path) (simp add: u)
  have "starts_with ?r ''/''" if "?r \<noteq> []"
  proof (cases u)
    case Nil
    with that show ?thesis by (cases n) (simp_all add: starts_with_iff)
  next
    case (Cons c v)
    have "path ! length ?n = c" by (subst split) (simp add: Cons)
    with assms(1) True u Cons show ?thesis by (auto simp: path_matches_def Let_def starts_with_iff)
  qed
  moreover have "transform_path pre path strip = (if ?r = [] then ''/'' else ?r)"
    using True split by (auto simp: transform_path_def strip_prefix_def starts_with_iff)
  ultimately show ?thesis using split by (auto simp: starts_with_iff)
next
  case False
  with assms(2) show ?thesis by (auto simp: transform_path_def)
qed

theorem stripped_path_absolute_witness:
  "starts_with (transform_path ''/api/'' ''/api/users'' True) ''/''"
proof -
  have "path_matches ''/api/'' ''/api/users''" "starts_with ''/api/users'' ''/''"
    by (simp_all add: path_matches_def starts_with_def trim_end_slashes_def)
  then show ?thesis using stripped_path_absolute [of "''/api/''" "''/api/users''" True] by blast
qed

section \<open>The registry\<close>

text \<open>
  What the registry promises, over the routes in the order they were registered: registering appends,
  and resolving takes the matching route with the longest prefix, the earliest registered of several.
\<close>

datatype route_op =
    RegisterRoute route_entry
  | UnregisterService string
  | UpdateBackends string "socket_addr list"
  | UpdateEndpointBackends string string "socket_addr list"
  | AddBackend string socket_addr
  | RemoveBackend string socket_addr

fun routes_step :: "(route_entry \<Rightarrow> route_entry list \<Rightarrow> route_entry list) \<Rightarrow> route_op \<Rightarrow> route_entry list \<Rightarrow> route_entry list" where
  "routes_step reg (RegisterRoute e) rs = reg e rs"
| "routes_step reg (UnregisterService s) rs = unregister_service s rs"
| "routes_step reg (UpdateBackends s bs) rs = route_update_backends s bs rs"
| "routes_step reg (UpdateEndpointBackends s e bs) rs = update_backends_for_endpoint s e bs rs"
| "routes_step reg (AddBackend s a) rs = route_add_backend s a rs"
| "routes_step reg (RemoveBackend s a) rs = route_remove_backend s a rs"

definition routes_run :: "route_op list \<Rightarrow> service_registry" where
  "routes_run ops = fold (routes_step routes_register) ops routes_new"

definition registration_order :: "route_op list \<Rightarrow> route_entry list" where
  "registration_order ops = fold (routes_step (\<lambda>e rs. rs @ [e])) ops []"

abbreviation prefix_rank :: "route_entry \<Rightarrow> int" where
  "prefix_rank r \<equiv> - int (length (rt_path_prefix r))"

lemma position_split:
  "take (case position P xs of None \<Rightarrow> length xs | Some i \<Rightarrow> i) xs = takeWhile (\<lambda>x. \<not> P x) xs"
  "drop (case position P xs of None \<Rightarrow> length xs | Some i \<Rightarrow> i) xs = dropWhile (\<lambda>x. \<not> P x) xs"
  by (induction xs) (auto split: option.splits)

lemma routes_register_eq:
  "routes_register e rs = takeWhile (\<lambda>r. prefix_rank r \<le> prefix_rank e) rs @ e # dropWhile (\<lambda>r. prefix_rank r \<le> prefix_rank e) rs"
  unfolding routes_register_def Let_def position_split by (simp add: not_less)

lemma routes_step_sorted:
  "routes_step routes_register op (sort_key prefix_rank rs) = sort_key prefix_rank (routes_step (\<lambda>e rs. rs @ [e]) op rs)"
proof (cases op)
  case (RegisterRoute e)
  then show ?thesis by (simp only: routes_step.simps routes_register_eq sort_key_snoc)
qed (simp_all add: unregister_service_def filter_sort route_update_backends_def update_backends_for_endpoint_def
    route_add_backend_def route_remove_backend_def map_sort_key set_backends_def)

lemma routes_run_sorted: "routes_run ops = sort_key prefix_rank (registration_order ops)"
proof -
  have "fold (routes_step routes_register) ops (sort_key prefix_rank rs) =
      sort_key prefix_rank (fold (routes_step (\<lambda>e rs. rs @ [e])) ops rs)" for rs
  proof (induction ops arbitrary: rs)
    case (Cons op ops)
    show ?case by (simp only: fold_simps comp_apply routes_step_sorted Cons.IH)
  qed simp
  from this [of "[]"] show ?thesis by (simp add: routes_run_def registration_order_def routes_new_def)
qed

lemma resolve_filter: "resolve rs host path = map_option rt_resolved (find (\<lambda>r. route_matches r host path) rs)"
  by (induction rs) simp_all

text \<open>
  C14. The registry refines the table in registration order: after any operations the routes are those of
  the table, stably ordered by falling prefix length, and a request resolves to the longest matching
  prefix, the earliest registered route among several of that length, and to nothing exactly when no
  registered route matches.
\<close>

theorem registry_longest_prefix:
  "routes_run ops = sort_key prefix_rank (registration_order ops) \<and>
   (case resolve (routes_run ops) host path of
      None \<Rightarrow> \<forall>r \<in> set (registration_order ops). \<not> route_matches r host path
    | Some res \<Rightarrow> \<exists>before r later. filter (\<lambda>r. route_matches r host path) (registration_order ops) = before @ r # later \<and>
        res = rt_resolved r \<and>
        (\<forall>b \<in> set before. length (rt_path_prefix b) < length (rt_path_prefix r)) \<and>
        (\<forall>l \<in> set later. length (rt_path_prefix l) \<le> length (rt_path_prefix r)))"
proof (cases "min_by_key prefix_rank (filter (\<lambda>r. route_matches r host path) (registration_order ops))")
  case None
  then have "resolve (routes_run ops) host path = None"
    by (simp add: routes_run_sorted resolve_filter find_sort_key)
  with None show ?thesis by (simp add: routes_run_sorted filter_empty_conv)
next
  case (Some r)
  let ?ms = "filter (\<lambda>r. route_matches r host path) (registration_order ops)"
  have res: "resolve (routes_run ops) host path = Some (rt_resolved r)"
    by (simp add: routes_run_sorted resolve_filter find_sort_key Some)
  note m = min_by_key_Some [OF Some]
  then obtain before later where r: "?ms = before @ r # later" "\<forall>b \<in> set before. prefix_rank r < prefix_rank b"
    by (elim conjE exE)
  have "\<forall>l \<in> set later. prefix_rank r \<le> prefix_rank l" using m [THEN conjunct2, THEN conjunct1] unfolding r(1) by simp
  with r(2) have "\<forall>b \<in> set before. length (rt_path_prefix b) < length (rt_path_prefix r)"
    "\<forall>l \<in> set later. length (rt_path_prefix l) \<le> length (rt_path_prefix r)" by simp_all
  with r(1) have "\<exists>before q later. ?ms = before @ q # later \<and> rt_resolved r = rt_resolved q \<and>
        (\<forall>b \<in> set before. length (rt_path_prefix b) < length (rt_path_prefix q)) \<and>
        (\<forall>l \<in> set later. length (rt_path_prefix l) \<le> length (rt_path_prefix q))"
    by (intro exI [of _ before] exI [of _ r] exI [of _ later]) simp
  then show ?thesis unfolding res option.case by (intro conjI routes_run_sorted)
qed

definition sample_route :: "string \<Rightarrow> string \<Rightarrow> route_entry" where
  "sample_route service path = from_endpoint service
     \<lparr> ep_name = ''http'', ep_protocol = Http, ep_port = 80, ep_target_port = None, ep_path = Some path, ep_host = None,
       ep_expose = Public, ep_stream = None, ep_target_role = None, ep_tunnel = None \<rparr>"

lemma sample_route_sel [simp]:
  "rt_path_prefix (sample_route s p) = p" "rt_host (sample_route s p) = None" "rt_service (sample_route s p) = s"
  "rt_resolved (sample_route s p) =
     \<lparr> res_name = s @ ''#http'', res_backends = [], res_use_tls = False, res_sni_hostname = [], res_expose = Public,
       res_protocol = Http, res_strip_prefix = False, res_path_prefix = p, res_target_port = 80 \<rparr>"
  by (simp_all add: sample_route_def from_endpoint_def endpoint_lb_key_def endpoint_target_port_def)

theorem registry_longest_prefix_witness:
  "\<exists>res. resolve (routes_run [RegisterRoute (sample_route ''web'' ''/''), RegisterRoute (sample_route ''api'' ''/api'')])
     None ''/api/users'' = Some res \<and> res_name res = ''api#http''"
proof -
  let ?w = "sample_route ''web'' ''/''" and ?a = "sample_route ''api'' ''/api''"
  let ?ops = "[RegisterRoute ?w, RegisterRoute ?a]" and ?m = "\<lambda>r. route_matches r None ''/api/users''"
  have order: "registration_order ?ops = [?w, ?a]" by (simp add: registration_order_def)
  have m: "?m ?w" "?m ?a" by (simp_all add: route_matches_def path_matches_def trim_end_slashes_def starts_with_def)
  note spec = registry_longest_prefix [of ?ops None "''/api/users''", THEN conjunct2, unfolded order]
  show ?thesis
  proof (cases "resolve (routes_run ?ops) None ''/api/users''")
    case None
    with spec m show ?thesis by simp
  next
    case (Some res)
    from spec [unfolded Some option.case] obtain before r later where
      r: "filter ?m [?w, ?a] = before @ r # later" "res = rt_resolved r"
      "\<forall>l \<in> set later. length (rt_path_prefix l) \<le> length (rt_path_prefix r)" by blast
    have "[?w, ?a] = before @ r # later" using r(1) m by simp
    then have "r = ?a" using r(3) by (auto simp: Cons_eq_append_conv)
    with r(2) Some show ?thesis by simp
  qed
qed

end
