(* ===== verification/Startup_Contract.thy ===== *)
theory Startup_Contract
  imports Prelude
begin

text \<open>
  Dependency orders, and the contract of a planner that turns named items with dependencies into an order to
  start them in. The dependency graph of the agent provides it; the deployment relies on it.
\<close>

section \<open>Orders and cycles\<close>

text \<open>
  \<open>topo N xs\<close>: every element of the list comes after all its dependencies, and occurs once. \<open>edges N K\<close>
  is the dependency relation of the nodes \<open>K\<close>.
\<close>

definition topo :: "('a \<Rightarrow> 'a list) \<Rightarrow> 'a list \<Rightarrow> bool" where
  "topo N xs \<longleftrightarrow> (\<forall>ys y zs. xs = ys @ y # zs \<longrightarrow> y \<notin> set ys \<and> set (N y) \<subseteq> set ys)"

definition edges :: "('a \<Rightarrow> 'a list) \<Rightarrow> 'a set \<Rightarrow> ('a \<times> 'a) set" where
  "edges N K = {(a, b). a \<in> K \<and> b \<in> set (N a)}"

definition is_cycle :: "('a \<Rightarrow> 'a list) \<Rightarrow> 'a list \<Rightarrow> bool" where
  "is_cycle N cycle \<longleftrightarrow> 2 \<le> length cycle \<and> hd cycle = last cycle \<and> successively (\<lambda>a b. b \<in> set (N a)) cycle"

lemma topo_Nil [simp]: "topo N []"
  by (simp add: topo_def)

lemma topo_snoc: "topo N (xs @ [x]) \<longleftrightarrow> topo N xs \<and> x \<notin> set xs \<and> set (N x) \<subseteq> set xs"
proof
  assume t: "topo N (xs @ [x])"
  have "y \<notin> set ys \<and> set (N y) \<subseteq> set ys" if "xs = ys @ y # zs" for ys y zs
    using t [unfolded topo_def, rule_format, of ys y "zs @ [x]"] that by simp
  with t [unfolded topo_def, rule_format, of xs x "[]"] show "topo N xs \<and> x \<notin> set xs \<and> set (N x) \<subseteq> set xs"
    by (simp add: topo_def)
next
  assume a: "topo N xs \<and> x \<notin> set xs \<and> set (N x) \<subseteq> set xs"
  show "topo N (xs @ [x])"
    unfolding topo_def
  proof (intro allI impI)
    fix ys y zs
    assume eq: "xs @ [x] = ys @ y # zs"
    show "y \<notin> set ys \<and> set (N y) \<subseteq> set ys"
    proof (cases zs rule: rev_cases)
      case Nil
      with eq a show ?thesis by simp
    next
      case (snoc zs' z)
      with eq have "xs = ys @ y # zs'" by simp
      with a show ?thesis by (simp add: topo_def)
    qed
  qed
qed

lemma topo_distinct: "topo N xs \<Longrightarrow> distinct xs"
  by (induction xs rule: rev_induct) (auto simp: topo_snoc)

lemma takeWhile_upto: "c \<notin> set us \<Longrightarrow> takeWhile (\<lambda>x. x \<noteq> c) (us @ c # w) = us"
  by (induction us) auto

lemma topo_acyclic:
  assumes "topo N xs"
  shows "acyclic (edges N (set xs))"
proof (rule acyclicI_order)
  fix a b
  assume "(a, b) \<in> edges N (set xs)"
  then have a: "a \<in> set xs" and b: "b \<in> set (N a)" by (auto simp: edges_def)
  from split_list_first [OF a] obtain ys zs where xs: "xs = ys @ a # zs" "a \<notin> set ys" by blast
  with assms b have "b \<in> set ys" by (auto simp: topo_def)
  then obtain us vs where ys: "ys = us @ b # vs" "b \<notin> set us" using split_list_first by metis
  have "takeWhile (\<lambda>x. x \<noteq> b) xs = us" unfolding xs(1) ys(1) using takeWhile_upto [OF ys(2)] by simp
  moreover have "takeWhile (\<lambda>x. x \<noteq> a) xs = ys" unfolding xs(1) by (rule takeWhile_upto [OF xs(2)])
  ultimately show "length (takeWhile (\<lambda>x. x \<noteq> b) xs) < length (takeWhile (\<lambda>x. x \<noteq> a) xs)" by (simp add: ys(1))
qed

lemma cycle_not_acyclic:
  assumes "is_cycle N cycle" and "set cycle \<subseteq> K"
  shows "\<not> acyclic (edges N K)"
proof -
  have path: "successively (\<lambda>a b. b \<in> set (N a)) (x # xs) \<Longrightarrow> set (x # xs) \<subseteq> K \<Longrightarrow> xs \<noteq> [] \<Longrightarrow>
      (x, last xs) \<in> (edges N K)\<^sup>+" for x xs
  proof (induction xs arbitrary: x)
    case (Cons y ys)
    have "(x, y) \<in> edges N K" using Cons.prems by (simp add: edges_def)
    then show ?case using Cons.IH [of y] Cons.prems by (cases "ys = []") (auto intro: trancl_into_trancl2)
  qed simp
  obtain x xs where c: "cycle = x # xs" "xs \<noteq> []" using assms(1) by (cases cycle; cases "tl cycle") (auto simp: is_cycle_def)
  with path [of x xs] assms have "(x, x) \<in> (edges N K)\<^sup>+" by (auto simp: is_cycle_def)
  then show ?thesis by (auto simp: acyclic_def)
qed

section \<open>The contract\<close>

locale startup_planner =
  fixes ok :: "'s \<Rightarrow> bool"
    and deps :: "'s \<Rightarrow> 'n \<Rightarrow> 'n list"
    and names :: "'s \<Rightarrow> 'n set"
    and plan :: "'s \<Rightarrow> 'f + 'n list"
  assumes plan_order: "ok s \<Longrightarrow> plan s = Inr order \<Longrightarrow> topo (deps s) order \<and> set order = names s"
    and plan_fails: "ok s \<Longrightarrow> plan s = Inl f \<Longrightarrow>
      (\<exists>n. \<not> set (deps s n) \<subseteq> names s - {n}) \<or> \<not> acyclic (edges (deps s) UNIV)"
begin

lemma plan_distinct: "ok s \<Longrightarrow> plan s = Inr order \<Longrightarrow> distinct order"
  using plan_order topo_distinct by blast

lemma plan_deps_first: "ok s \<Longrightarrow> plan s = Inr (before @ n # later) \<Longrightarrow> set (deps s n) \<subseteq> set before"
  using plan_order [of s "before @ n # later"] unfolding topo_def by blast

lemma plan_once: "ok s \<Longrightarrow> plan s = Inr order \<Longrightarrow> n \<in> names s \<Longrightarrow> count_list order n = 1"
  using plan_order [of s order] plan_distinct [of s order] by (simp add: distinct_count_list)

lemma plan_sound:
  assumes "ok s" and "plan s = Inr order"
  shows "acyclic (edges (deps s) (names s)) \<and> (\<forall>n \<in> names s. set (deps s n) \<subseteq> names s - {n})"
proof
  note p = plan_order [OF assms]
  show "acyclic (edges (deps s) (names s))" using topo_acyclic [of "deps s" order] p by simp
  show "\<forall>n \<in> names s. set (deps s n) \<subseteq> names s - {n}"
  proof
    fix n
    assume "n \<in> names s"
    with p have "n \<in> set order" by simp
    then obtain before later where o: "order = before @ n # later" by (meson split_list)
    have "n \<notin> set before" using p unfolding o topo_def by blast
    moreover have "set (deps s n) \<subseteq> set before" using plan_deps_first [of s before n later] assms o by simp
    moreover have "set before \<subseteq> names s" using p unfolding o by auto
    ultimately show "set (deps s n) \<subseteq> names s - {n}" by blast
  qed
qed

end

end
