(* ===== verification/Dependency_Graph.thy ===== *)
theory Dependency_Graph
  imports Agent_Types Routes Startup_Contract
begin

text \<open>
  Startup ordering of services, \<open>crates/zlayer-agent/src/dependency.rs\<close>: the dependency graph with its
  validation, cycle detection (depth-first search in three colours), topological order (Kahn's
  algorithm) and reachability query.

  Of a service specification the graph reads the \<open>depends\<close> list only, so the services are a map from
  names to such lists. The iteration order of the map of nodes, which \<open>HashMap\<close> leaves open, is the
  argument \<open>keys\<close> of the constructor. Colours are the code's numbers. The depth-first search and Kahn's
  loop are total functions; walking back along the parents may not end on arbitrary input, and
  \<open>None\<close> stands for that. Counters of type \<open>usize\<close> are natural numbers, and decrementing one at zero,
  like unwrapping a missing entry, is a panic.
\<close>

section \<open>Specifications and errors\<close>

datatype dependency_condition = CondStarted | CondHealthy | CondReady

datatype timeout_action = ActFail | ActWarn | ActContinue

record depends_spec =
  dep_service :: string
  dep_condition :: dependency_condition
  dep_timeout :: "duration option"
  dep_on_timeout :: timeout_action

type_synonym services = "(string, depends_spec list) hmap"

datatype dependency_error =
    CyclicDependency "string list"
  | MissingService string string
  | SelfDependency string

fun dependency_error_display :: "dependency_error \<Rightarrow> string" where
  "dependency_error_display (CyclicDependency cycle) = ''Cyclic dependency detected: '' @ join_strings '' -> '' cycle"
| "dependency_error_display (MissingService service missing) =
     ''Service '' @ [CHR 0x27] @ service @ [CHR 0x27] @ '' depends on non-existent service '' @
     [CHR 0x27] @ missing @ [CHR 0x27]"
| "dependency_error_display (SelfDependency service) =
     ''Service '' @ [CHR 0x27] @ service @ [CHR 0x27] @ '' has a self-dependency''"

definition agent_error_from :: "dependency_error \<Rightarrow> agent_error" where
  "agent_error_from err = InvalidSpec (dependency_error_display err)"

text \<open>How building a graph can fail: with an error of the agent, by a panic, or by not returning.\<close>

datatype build_failure = BuildError agent_error | BuildPanic | BuildDiverges

section \<open>The graph\<close>

record dependency_node =
  node_service_name :: string
  node_depends_on :: "depends_spec list"

record dependency_graph =
  dg_keys :: "string list"
  dg_nodes :: "string \<rightharpoonup> dependency_node"
  dg_startup_order :: "string list"
  dg_adjacency :: "(string, string list) hmap"
  dg_reverse_adjacency :: "(string, string list) hmap"

section \<open>Cycle detection\<close>

type_synonym colors = "(string, u8) hmap"
type_synonym parents = "(string, string option) hmap"

abbreviation adj_list :: "(string, string list) hmap \<Rightarrow> string \<Rightarrow> string list" where
  "adj_list adj node \<equiv> (case hm_get adj node of Some deps \<Rightarrow> deps | None \<Rightarrow> [])"

partial_function (option) walk_back :: "parents \<Rightarrow> string \<Rightarrow> string \<Rightarrow> string list \<Rightarrow> string list option" where
  "walk_back parent dep current cycle =
     (if current = dep then Some cycle
      else
        case hm_get parent current of
          Some (Some p) \<Rightarrow> walk_back parent dep p (cycle @ [current])
        | _ \<Rightarrow> Some (cycle @ [current]))"

definition whites :: "colors \<Rightarrow> string set" where
  "whites color = {k. hm_get color k = Some 0}"

text \<open>
  \<open>dfs_deps adj node deps color parent\<close> visits the dependencies \<open>deps\<close> of \<open>node\<close>; visiting a white one is
  the recursive call of \<open>dfs_cycle_detect\<close>, which marks it gray, visits its dependencies and marks it
  black. The result is a cycle or the colours and parents reached.
\<close>

function dfs_deps :: "(string, string list) hmap \<Rightarrow> string \<Rightarrow> string list \<Rightarrow> colors \<Rightarrow> parents \<Rightarrow>
    (string list + colors \<times> parents) option" where
  "dfs_deps adj node [] color parent = Some (Inr (color, parent))"
| "dfs_deps adj node (dep # deps) color parent =
     (if hm_get color dep = Some 0 then
        (case dfs_deps adj dep (adj_list adj dep) (hm_insert dep 1 color) (hm_insert dep (Some node) parent) of
           None \<Rightarrow> None
         | Some (Inl cycle) \<Rightarrow> Some (Inl cycle)
         | Some (Inr (color', parent')) \<Rightarrow> dfs_deps adj node deps (hm_insert dep 2 color') parent')
      else if hm_get color dep = Some 1 then
        map_option (\<lambda>cycle. Inl (rev (cycle @ [dep]))) (walk_back parent dep node [dep])
      else dfs_deps adj node deps color parent)"
  by pat_completeness auto

definition dfs_cycle_detect :: "(string, string list) hmap \<Rightarrow> string \<Rightarrow> colors \<Rightarrow> parents \<Rightarrow>
    (string list + colors \<times> parents) option" where
  "dfs_cycle_detect adj node color parent =
     (case dfs_deps adj node (adj_list adj node) (hm_insert node 1 color) parent of
        None \<Rightarrow> None
      | Some (Inl cycle) \<Rightarrow> Some (Inl cycle)
      | Some (Inr (color', parent')) \<Rightarrow> Some (Inr (hm_insert node 2 color', parent')))"

lemma finite_whites [simp]: "finite (whites color)"
  unfolding whites_def by (rule finite_subset [OF _ finite_dom_map_of [of color]]) auto

lemma whites_insert: "c \<noteq> 0 \<Longrightarrow> whites (hm_insert k c color) = whites color - {k}"
  by (auto simp: whites_def)

lemma dfs_deps_whites:
  "dfs_deps_dom (adj, node, deps, color, parent) \<Longrightarrow>
   dfs_deps adj node deps color parent = Some (Inr (color', parent')) \<Longrightarrow> whites color' \<subseteq> whites color"
proof (induction adj node deps color parent arbitrary: color' parent' rule: dfs_deps.pinduct)
  case (1 adj node color parent)
  then show ?case by (simp add: dfs_deps.psimps)
next
  case (2 adj node dep deps color parent)
  show ?case
  proof (cases "hm_get color dep = Some 0")
    case True
    note eq = 2(5) [unfolded dfs_deps.psimps(2) [OF 2(1)] if_P [OF True]]
    from eq obtain c p where cp: "dfs_deps adj dep (adj_list adj dep) (hm_insert dep 1 color) (hm_insert dep (Some node) parent) = Some (Inr (c, p))"
      and rest: "dfs_deps adj node deps (hm_insert dep 2 c) p = Some (Inr (color', parent'))"
      by (auto split: option.splits sum.splits)
    from 2(2) [OF True cp] have "whites c \<subseteq> whites color" by (auto simp: whites_insert)
    with 2(3) [OF True cp refl refl rest] show ?thesis by (auto simp: whites_insert)
  next
    case False
    with 2(5) dfs_deps.psimps(2) [OF 2(1)] 2(4) [OF False] show ?thesis by (auto split: if_splits)
  qed
qed

lemma card_whites_less: "hm_get color dep = Some 0 \<Longrightarrow> W \<subseteq> whites color - {dep} \<Longrightarrow> card W < card (whites color)"
  by (rule psubset_card_mono [OF finite_whites]) (auto simp: whites_def)

termination dfs_deps
proof (relation "inv_image (less_than <*lex*> less_than) (\<lambda>(adj, node, deps, color, parent). (card (whites color), length deps))",
    goal_cases)
  case (2 adj node dep deps color parent)
  then show ?case using card_whites_less [OF 2, OF order_refl] by (simp add: whites_insert)
next
  case (3 adj node dep deps color parent r1 r2 c p)
  from dfs_deps_whites [of adj dep "adj_list adj dep" "hm_insert dep 1 color" "hm_insert dep (Some node) parent" c p] 3
  have "whites c - {dep} \<subseteq> whites color - {dep}" by (auto simp: whites_insert)
  from card_whites_less [OF 3(1) this] show ?case by (simp add: whites_insert)
qed auto

fun detect_from :: "(string, string list) hmap \<Rightarrow> string list \<Rightarrow> colors \<Rightarrow> parents \<Rightarrow> string list option option" where
  "detect_from adj [] color parent = Some None"
| "detect_from adj (start # ks) color parent =
     (if hm_get color start = Some 0 then
        (case dfs_cycle_detect adj start color parent of
           None \<Rightarrow> None
         | Some (Inl cycle) \<Rightarrow> Some (Some cycle)
         | Some (Inr (color', parent')) \<Rightarrow> detect_from adj ks color' parent')
      else detect_from adj ks color parent)"

text \<open>\<open>None\<close> when the search does not return, \<open>Some None\<close> when it finds no cycle.\<close>

definition detect_cycle :: "dependency_graph \<Rightarrow> string list option option" where
  "detect_cycle g =
     detect_from (dg_adjacency g) (dg_keys g)
       (map (\<lambda>name. (name, 0)) (dg_keys g)) (map (\<lambda>name. (name, None)) (dg_keys g))"

section \<open>Topological order\<close>

text \<open>Kahn's loop; \<open>None\<close> stands for the underflow of a counter.\<close>

fun relax :: "string list \<Rightarrow> (string, nat) hmap \<Rightarrow> string list \<Rightarrow> ((string, nat) hmap \<times> string list) option" where
  "relax [] in_degree queue = Some (in_degree, queue)"
| "relax (dependent # ds) in_degree queue =
     (case hm_get in_degree dependent of
        None \<Rightarrow> relax ds in_degree queue
      | Some degree \<Rightarrow>
          if degree = 0 then None
          else relax ds (hm_insert dependent (degree - 1) in_degree)
                 (if degree - 1 = 0 then queue @ [dependent] else queue))"

definition degree_sum :: "(string, nat) hmap \<Rightarrow> nat" where
  "degree_sum m = sum_list (map snd m)"

lemma degree_sum_insert:
  "hm_get m k = Some d \<Longrightarrow> d \<noteq> 0 \<Longrightarrow> Suc (degree_sum (hm_insert k (d - 1) m)) = degree_sum m"
  by (induction m) (auto simp: degree_sum_def split: if_splits)

lemma relax_measure:
  "relax ds m q = Some (m', q') \<Longrightarrow> degree_sum m' + length q' \<le> degree_sum m + length q"
proof (induction ds m q arbitrary: m' q' rule: relax.induct)
  case (2 d ds m q)
  show ?case
  proof (cases "hm_get m d")
    case (Some k)
    with 2(3) have "k \<noteq> 0" by (auto split: if_splits)
    with 2(2) [OF Some this] 2(3) Some degree_sum_insert [OF Some this] show ?thesis by (auto split: if_splits)
  qed (use 2 in simp)
qed simp

function kahn_loop :: "(string, string list) hmap \<Rightarrow> (string, nat) hmap \<Rightarrow> string list \<Rightarrow> string list \<Rightarrow> string list option" where
  "kahn_loop radj in_degree [] result = Some result"
| "kahn_loop radj in_degree (node # queue) result =
     (case relax (adj_list radj node) in_degree queue of
        None \<Rightarrow> None
      | Some (in_degree', queue') \<Rightarrow> kahn_loop radj in_degree' queue' (result @ [node]))"
  by pat_completeness auto
termination kahn_loop
  by (relation "measure (\<lambda>(radj, m, q, r). degree_sum m + length q)") (auto dest: relax_measure)

definition topological_sort :: "dependency_graph \<Rightarrow> build_failure + string list" where
  "topological_sort g =
     (let degree = (\<lambda>name. case hm_get (dg_adjacency g) name of None \<Rightarrow> 0 | Some deps \<Rightarrow> length deps);
          in_degree = map (\<lambda>name. (name, degree name)) (dg_keys g);
          queue = filter (\<lambda>name. degree name = 0) (dg_keys g)
      in case kahn_loop (dg_reverse_adjacency g) in_degree queue [] of
           None \<Rightarrow> Inl BuildPanic
         | Some result \<Rightarrow>
             if length result \<noteq> length (dg_keys g)
             then Inl (BuildError (InvalidSpec ''Dependency graph has unresolved cycles''))
             else Inr result)"

section \<open>Building\<close>

definition push_edge :: "string \<Rightarrow> string \<Rightarrow> (string, string list) hmap \<Rightarrow> (string, string list) hmap option" where
  "push_edge k v m = (case hm_get m k of None \<Rightarrow> None | Some vs \<Rightarrow> Some (hm_insert k (vs @ [v]) m))"

fun add_deps :: "services \<Rightarrow> string \<Rightarrow> depends_spec list \<Rightarrow> (string, string list) hmap \<Rightarrow> (string, string list) hmap \<Rightarrow>
    build_failure + (string, string list) hmap \<times> (string, string list) hmap" where
  "add_deps services name [] adj radj = Inr (adj, radj)"
| "add_deps services name (dep # deps) adj radj =
     (if dep_service dep = name then Inl (BuildError (agent_error_from (SelfDependency name)))
      else if hm_get services (dep_service dep) = None
      then Inl (BuildError (agent_error_from (MissingService name (dep_service dep))))
      else case push_edge name (dep_service dep) adj of
             None \<Rightarrow> Inl BuildPanic
           | Some adj' \<Rightarrow>
               (case push_edge (dep_service dep) name radj of
                  None \<Rightarrow> Inl BuildPanic
                | Some radj' \<Rightarrow> add_deps services name deps adj' radj'))"

fun add_edges :: "services \<Rightarrow> services \<Rightarrow> (string, string list) hmap \<Rightarrow> (string, string list) hmap \<Rightarrow>
    build_failure + (string, string list) hmap \<times> (string, string list) hmap" where
  "add_edges services [] adj radj = Inr (adj, radj)"
| "add_edges services ((name, deps) # rest) adj radj =
     and_then (add_deps services name deps adj radj) (\<lambda>(adj', radj'). add_edges services rest adj' radj')"

definition init_nodes :: "services \<Rightarrow> (string \<rightharpoonup> dependency_node)" where
  "init_nodes services =
     fold (\<lambda>(name, deps) nodes. nodes(name \<mapsto> \<lparr> node_service_name = name, node_depends_on = deps \<rparr>)) services Map.empty"

definition init_adjacency :: "services \<Rightarrow> (string, string list) hmap" where
  "init_adjacency services = fold (\<lambda>(name, deps). hm_insert name []) services []"

definition build :: "string list \<Rightarrow> services \<Rightarrow> build_failure + dependency_graph" where
  "build keys services =
     and_then (add_edges services services (init_adjacency services) (init_adjacency services)) (\<lambda>(adj, radj).
       let graph = \<lparr> dg_keys = keys, dg_nodes = init_nodes services, dg_startup_order = [],
             dg_adjacency = adj, dg_reverse_adjacency = radj \<rparr> in
       case detect_cycle graph of
         None \<Rightarrow> Inl BuildDiverges
       | Some (Some cycle) \<Rightarrow> Inl (BuildError (agent_error_from (CyclicDependency cycle)))
       | Some None \<Rightarrow>
           and_then (topological_sort graph) (\<lambda>order. Inr (graph\<lparr>dg_startup_order := order\<rparr>)))"

section \<open>Queries\<close>

definition dependencies :: "dependency_graph \<Rightarrow> string \<Rightarrow> depends_spec list option" where
  "dependencies g service = map_option node_depends_on (dg_nodes g service)"

definition dg_len :: "dependency_graph \<Rightarrow> nat" where
  "dg_len g = length (dg_keys g)"

definition dg_is_empty :: "dependency_graph \<Rightarrow> bool" where
  "dg_is_empty g \<longleftrightarrow> dg_keys g = []"

text \<open>
  The loop of \<open>depends_on\<close> over the dependencies of one node: \<open>None\<close> when the target is among them,
  otherwise the stack with the unvisited ones pushed. The top of the stack is its first element.
\<close>

fun push_deps :: "string \<Rightarrow> string list \<Rightarrow> string list \<Rightarrow> string list \<Rightarrow> string list option" where
  "push_deps b visited [] stack = Some stack"
| "push_deps b visited (dep # deps) stack =
     (if dep = b then None
      else push_deps b visited deps (if dep \<notin> set visited then dep # stack else stack))"

function search_deps :: "(string, string list) hmap \<Rightarrow> string \<Rightarrow> string list \<Rightarrow> string list \<Rightarrow> bool" where
  "search_deps adj b visited [] = False"
| "search_deps adj b visited (current # stack) =
     (if current \<in> set visited then search_deps adj b visited stack
      else
        case hm_get adj current of
          None \<Rightarrow> search_deps adj b (current # visited) stack
        | Some deps \<Rightarrow>
            (case push_deps b (current # visited) deps stack of
               None \<Rightarrow> True
             | Some stack' \<Rightarrow> search_deps adj b (current # visited) stack'))"
  by pat_completeness auto

lemma card_unvisited_less:
  "hm_get adj x = Some ds \<Longrightarrow> x \<notin> set visited \<Longrightarrow>
   card (fst ` set adj - insert x (set visited)) < card (fst ` set adj - set visited)"
  by (rule psubset_card_mono) (use map_of_SomeD [of adj x ds] in \<open>force+\<close>)

lemma card_unvisited_le: "card (K - insert x V) \<le> card (K - V)" if "finite K"
  using that by (intro card_mono) auto

termination search_deps
proof (relation "measures [\<lambda>(adj, b, visited, stack). card (fst ` set adj - set visited), \<lambda>(adj, b, visited, stack). length stack]",
    goal_cases)
  case (3 adj b visited current stack)
  then show ?case using card_unvisited_le [of "fst ` set adj" current "set visited"] by (auto simp: le_less)
next
  case (4 adj b visited current stack deps stack')
  then show ?case using card_unvisited_less [of adj current deps visited] by simp
qed auto

definition depends_on :: "dependency_graph \<Rightarrow> string \<Rightarrow> string \<Rightarrow> bool" where
  "depends_on g a b = (if a = b then False else search_deps (dg_adjacency g) b [] [a])"

definition dependents :: "dependency_graph \<Rightarrow> string \<Rightarrow> string list" where
  "dependents g service = adj_list (dg_reverse_adjacency g) service"

section \<open>Correctness of the depth-first search\<close>

definition gray_path :: "(string, string list) hmap \<Rightarrow> parents \<Rightarrow> string list \<Rightarrow> bool" where
  "gray_path adj parent p \<longleftrightarrow> successively (\<lambda>x y. hm_get parent x = Some (Some y) \<and> x \<in> set (adj_list adj y)) p"

definition dfs_inv :: "(string, string list) hmap \<Rightarrow> string set \<Rightarrow> colors \<Rightarrow> parents \<Rightarrow> string list \<Rightarrow> string list \<Rightarrow> bool" where
  "dfs_inv adj U color parent p blacks \<longleftrightarrow>
     distinct p \<and> (\<forall>k. k \<in> set p \<longleftrightarrow> hm_get color k = Some 1) \<and> gray_path adj parent p \<and>
     topo (adj_list adj) blacks \<and> (\<forall>k. k \<in> set blacks \<longleftrightarrow> hm_get color k = Some 2) \<and>
     (\<forall>k c. hm_get color k = Some c \<longrightarrow> c = 0 \<or> c = 1 \<or> c = 2) \<and>
     (\<forall>d \<in> U. hm_get color d \<noteq> None) \<and> (\<forall>k. \<forall>d \<in> set (adj_list adj k). hm_get color d \<noteq> None)"

lemma walk_back_path:
  assumes "gray_path adj parent (xs @ dep # ys)" and "dep \<notin> set xs"
  shows "walk_back parent dep (hd (xs @ [dep])) acc = Some (acc @ xs)"
  using assms
proof (induction xs arbitrary: acc)
  case Nil
  then show ?case by (subst walk_back.simps) simp
next
  case (Cons x xs)
  have "hm_get parent x = Some (Some (hd (xs @ [dep])))"
    using Cons.prems(1) by (cases xs) (simp_all add: gray_path_def)
  moreover have "gray_path adj parent (xs @ dep # ys)"
    using Cons.prems(1) by (cases xs) (simp_all add: gray_path_def)
  ultimately show ?case using Cons.IH [of "acc @ [x]"] Cons.prems(2) by (subst walk_back.simps) auto
qed

lemma gray_path_cycle:
  assumes "gray_path adj parent (xs @ dep # ys)" and "dep \<in> set (adj_list adj (hd (xs @ [dep])))"
  shows "is_cycle (adj_list adj) (rev (([dep] @ xs) @ [dep]))"
proof -
  have "gray_path adj parent ((xs @ [dep]) @ ys)" using assms(1) by simp
  then have "gray_path adj parent (xs @ [dep])" unfolding gray_path_def successively_append_iff by blast
  then have "successively (\<lambda>x y. x \<in> set (adj_list adj y)) (xs @ [dep])"
    unfolding gray_path_def by (rule successively_mono) simp
  then have "successively (\<lambda>x y. x \<in> set (adj_list adj y)) (dep # xs @ [dep])"
    using assms(2) by (cases xs) simp_all
  then have "successively (\<lambda>x y. y \<in> set (adj_list adj x)) (rev (dep # xs @ [dep]))"
    unfolding successively_rev .
  then show ?thesis by (simp add: is_cycle_def last_rev hd_rev)
qed

lemma gray_path_insert: "gray_path adj parent p \<Longrightarrow> k \<notin> set p \<Longrightarrow> gray_path adj (hm_insert k v parent) p"
proof -
  assume g: "gray_path adj parent p" and k: "k \<notin> set p"
  have "successively (\<lambda>x y. hm_get (hm_insert k v parent) x = Some (Some y) \<and> x \<in> set (adj_list adj y)) p =
      successively (\<lambda>x y. hm_get parent x = Some (Some y) \<and> x \<in> set (adj_list adj y)) p"
    by (rule successively_cong) (use k in auto)
  with g show ?thesis unfolding gray_path_def by simp
qed
lemma dfs_inv_visit:
  assumes inv: "dfs_inv adj U color parent (node # q) blacks" and dep: "dep \<in> set (adj_list adj node)"
    and white: "hm_get color dep = Some 0"
  shows "dfs_inv adj U (hm_insert dep 1 color) (hm_insert dep (Some node) parent) (dep # node # q) blacks"
proof -
  have notin: "dep \<notin> set (node # q)" "dep \<notin> set blacks" using inv white by (auto simp: dfs_inv_def)
  have "gray_path adj parent (node # q)" using inv by (simp add: dfs_inv_def)
  then have "gray_path adj (hm_insert dep (Some node) parent) (node # q)" by (rule gray_path_insert) (rule notin)
  then have "gray_path adj (hm_insert dep (Some node) parent) (dep # node # q)" using dep by (simp add: gray_path_def)
  moreover have "k \<in> set (dep # node # q) \<longleftrightarrow> hm_get (hm_insert dep 1 color) k = Some 1" for k
    using inv by (auto simp: dfs_inv_def)
  moreover have "k \<in> set blacks \<longleftrightarrow> hm_get (hm_insert dep 1 color) k = Some 2" for k
    using inv notin by (auto simp: dfs_inv_def)
  moreover have "c = 0 \<or> c = 1 \<or> c = 2" if "hm_get (hm_insert dep 1 color) k = Some c" for k c
    using inv that by (auto simp: dfs_inv_def split: if_splits)
  ultimately show ?thesis using inv notin unfolding dfs_inv_def by auto
qed

lemma dfs_inv_finish:
  assumes inv: "dfs_inv adj U color parent (dep # p) blacks" and ready: "set (adj_list adj dep) \<subseteq> set blacks"
  shows "dfs_inv adj U (hm_insert dep 2 color) parent p (blacks @ [dep])"
proof -
  have gray: "hm_get color dep = Some 1" using inv unfolding dfs_inv_def by (metis list.set_intros(1))
  then have "dep \<notin> set blacks" using inv by (auto simp: dfs_inv_def)
  then have "topo (adj_list adj) (blacks @ [dep])" using inv ready by (simp add: dfs_inv_def topo_snoc)
  moreover have "gray_path adj parent p" using inv by (cases p) (simp_all add: dfs_inv_def gray_path_def)
  moreover have "k \<in> set p \<longleftrightarrow> hm_get (hm_insert dep 2 color) k = Some 1" for k
    using inv by (auto simp: dfs_inv_def)
  moreover have "k \<in> set (blacks @ [dep]) \<longleftrightarrow> hm_get (hm_insert dep 2 color) k = Some 2" for k
    using inv by (auto simp: dfs_inv_def)
  moreover have "c = 0 \<or> c = 1 \<or> c = 2" if "hm_get (hm_insert dep 2 color) k = Some c" for k c
    using inv that by (auto simp: dfs_inv_def split: if_splits)
  ultimately show ?thesis using inv unfolding dfs_inv_def by auto
qed

lemma dfs_inv_gray:
  assumes inv: "dfs_inv adj U color parent (node # q) blacks" and dep: "dep \<in> set (adj_list adj node)"
    and gray: "hm_get color dep = Some 1"
  shows "\<exists>cycle. walk_back parent dep node [dep] = Some cycle \<and> is_cycle (adj_list adj) (rev (cycle @ [dep]))"
proof -
  have "dep \<in> set (node # q)" using inv gray unfolding dfs_inv_def by blast
  then obtain xs ys where xs: "node # q = xs @ dep # ys" "dep \<notin> set xs" using split_list_first by metis
  have path: "gray_path adj parent (xs @ dep # ys)" using inv by (simp add: dfs_inv_def xs(1))
  have node: "hd (xs @ [dep]) = node" using xs(1) by (cases xs) simp_all
  from walk_back_path [OF path xs(2), of "[dep]"] gray_path_cycle [OF path] dep show ?thesis unfolding node by auto
qed

lemma dfs_deps_correct:
  assumes "dfs_inv adj U color parent (node # q) blacks" and "set deps \<subseteq> set (adj_list adj node)"
  shows "\<exists>r. dfs_deps adj node deps color parent = Some r \<and>
    (case r of
       Inl cycle \<Rightarrow> is_cycle (adj_list adj) cycle
     | Inr (color', parent') \<Rightarrow> \<exists>blacks'. dfs_inv adj U color' parent' (node # q) blacks' \<and>
         set deps \<union> set blacks \<subseteq> set blacks')"
  using assms
proof (induction adj node deps color parent arbitrary: q blacks rule: dfs_deps.induct)
  case (1 adj node color parent)
  then show ?case by auto
next
  case (2 adj node dep deps color parent)
  have dep: "dep \<in> set (adj_list adj node)" and deps: "set deps \<subseteq> set (adj_list adj node)" using 2(5) by auto
  consider (white) "hm_get color dep = Some 0" | (gray) "hm_get color dep = Some 1" | (black) "hm_get color dep = Some 2"
    using 2(4) dep unfolding dfs_inv_def by blast
  then show ?case
  proof cases
    case white
    from 2(1) [OF white dfs_inv_visit [OF 2(4) dep white] order_refl] obtain r where
      r: "dfs_deps adj dep (adj_list adj dep) (hm_insert dep 1 color) (hm_insert dep (Some node) parent) = Some r"
      and post: "case r of Inl cycle \<Rightarrow> is_cycle (adj_list adj) cycle
        | Inr (c, p) \<Rightarrow> \<exists>blacks'. dfs_inv adj U c p (dep # node # q) blacks' \<and> set (adj_list adj dep) \<union> set blacks \<subseteq> set blacks'"
      by blast
    show ?thesis
    proof (cases r)
      case (Inl cycle)
      with r post white show ?thesis by simp
    next
      case (Inr cp)
      obtain c p where cp: "cp = (c, p)" by fastforce
      from post [unfolded Inr cp sum.case prod.case] obtain blacks' where
        b: "dfs_inv adj U c p (dep # node # q) blacks'" "set (adj_list adj dep) \<union> set blacks \<subseteq> set blacks'" by blast
      have fin: "dfs_inv adj U (hm_insert dep 2 c) p (node # q) (blacks' @ [dep])"
        by (rule dfs_inv_finish [OF b(1)]) (use b(2) in simp)
      from 2(2) [OF white r Inr cp [symmetric] fin deps] obtain r' where
        r': "dfs_deps adj node deps (hm_insert dep 2 c) p = Some r'"
        and post': "case r' of Inl cycle \<Rightarrow> is_cycle (adj_list adj) cycle
          | Inr (c, p) \<Rightarrow> \<exists>bl. dfs_inv adj U c p (node # q) bl \<and> set deps \<union> set (blacks' @ [dep]) \<subseteq> set bl" by blast
      have eq: "dfs_deps adj node (dep # deps) color parent = Some r'" using white r r' by (simp add: Inr cp)
      have "case r' of Inl cycle \<Rightarrow> is_cycle (adj_list adj) cycle
          | Inr (c, p) \<Rightarrow> \<exists>bl. dfs_inv adj U c p (node # q) bl \<and> set (dep # deps) \<union> set blacks \<subseteq> set bl"
      proof (cases r')
        case (Inr d)
        obtain c' p' where d: "d = (c', p')" by fastforce
        from post' [unfolded Inr d sum.case prod.case] obtain bl where
          bl: "dfs_inv adj U c' p' (node # q) bl" "set deps \<union> set (blacks' @ [dep]) \<subseteq> set bl" by blast
        from bl(2) b(2) have "set (dep # deps) \<union> set blacks \<subseteq> set bl" by auto
        with bl(1) show ?thesis unfolding Inr d by auto
      qed (use post' in simp)
      with eq show ?thesis by blast
    qed
  next
    case gray
    with dfs_inv_gray [OF 2(4) dep gray] show ?thesis by auto
  next
    case black
    then have "dep \<in> set blacks" using 2(4) by (simp add: dfs_inv_def)
    moreover from 2(3) [OF _ _ 2(4) deps] black obtain r where
      r: "dfs_deps adj node deps color parent = Some r"
      and post: "case r of Inl cycle \<Rightarrow> is_cycle (adj_list adj) cycle
          | Inr (c, p) \<Rightarrow> \<exists>bl. dfs_inv adj U c p (node # q) bl \<and> set deps \<union> set blacks \<subseteq> set bl" by auto
    ultimately show ?thesis using black by (auto split: sum.splits)
  qed
qed

lemma detect_from_correct:
  assumes "dfs_inv adj U color parent [] blacks" and "set ks \<subseteq> U"
  shows "\<exists>r. detect_from adj ks color parent = Some r \<and>
    (case r of
       Some cycle \<Rightarrow> is_cycle (adj_list adj) cycle
     | None \<Rightarrow> \<exists>blacks'. topo (adj_list adj) blacks' \<and> set ks \<union> set blacks \<subseteq> set blacks')"
  using assms
proof (induction ks arbitrary: color parent blacks)
  case Nil
  then show ?case by (auto simp: dfs_inv_def)
next
  case (Cons k ks)
  have ks: "k \<in> U" "set ks \<subseteq> U" using Cons.prems(2) by auto
  then obtain c where c: "hm_get color k = Some c" using Cons.prems(1) unfolding dfs_inv_def by blast
  then have "c = 0 \<or> c = 1 \<or> c = 2" "c \<noteq> 1" using Cons.prems(1) unfolding dfs_inv_def by (blast, auto)
  with c have k: "hm_get color k = Some 0 \<or> hm_get color k = Some 2" by auto
  have rest: ?case if inv: "dfs_inv adj U c p [] bl" and sub: "set blacks \<subseteq> set bl" "k \<in> set bl"
    and step: "detect_from adj (k # ks) color parent = detect_from adj ks c p" for c p bl
  proof -
    from Cons.IH [OF inv ks(2)] obtain r where r: "detect_from adj ks c p = Some r"
      "case r of Some cycle \<Rightarrow> is_cycle (adj_list adj) cycle
       | None \<Rightarrow> \<exists>blacks'. topo (adj_list adj) blacks' \<and> set ks \<union> set bl \<subseteq> set blacks'" by blast
    have "case r of Some cycle \<Rightarrow> is_cycle (adj_list adj) cycle
       | None \<Rightarrow> \<exists>blacks'. topo (adj_list adj) blacks' \<and> set (k # ks) \<union> set blacks \<subseteq> set blacks'"
    proof (cases r)
      case None
      with r(2) obtain b where "topo (adj_list adj) b" "set ks \<union> set bl \<subseteq> set b" by auto
      with sub show ?thesis unfolding None by (auto intro!: exI [of _ b])
    qed (use r(2) in simp)
    with r(1) step show ?thesis by auto
  qed
  show ?case
  proof (cases "hm_get color k = Some 0")
    case False
    then have "k \<in> set blacks" using k Cons.prems(1) by (simp add: dfs_inv_def)
    from rest [OF Cons.prems(1) order_refl this] False show ?thesis by simp
  next
    case True
    have "dfs_inv adj U (hm_insert k 1 color) parent [k] blacks"
      using Cons.prems(1) True by (auto simp: dfs_inv_def gray_path_def)
    from dfs_deps_correct [OF this order_refl] obtain r where
      r: "dfs_deps adj k (adj_list adj k) (hm_insert k 1 color) parent = Some r"
      and post: "case r of Inl cycle \<Rightarrow> is_cycle (adj_list adj) cycle
        | Inr (c, p) \<Rightarrow> \<exists>bl. dfs_inv adj U c p [k] bl \<and> set (adj_list adj k) \<union> set blacks \<subseteq> set bl" by blast
    show ?thesis
    proof (cases r)
      case (Inl cycle)
      with r post True show ?thesis by (simp add: dfs_cycle_detect_def)
    next
      case (Inr cp)
      obtain c p where cp: "cp = (c, p)" by fastforce
      from post [unfolded Inr cp sum.case prod.case] obtain bl where
        bl: "dfs_inv adj U c p [k] bl" "set (adj_list adj k) \<union> set blacks \<subseteq> set bl" by blast
      have "dfs_inv adj U (hm_insert k 2 c) p [] (bl @ [k])" by (rule dfs_inv_finish [OF bl(1)]) (use bl(2) in simp)
      from rest [OF this] bl(2) r Inr cp True show ?thesis by (auto simp: dfs_cycle_detect_def)
    qed
  qed
qed

text \<open>The search returns, and it finds a cycle exactly when there is one.\<close>

lemma detect_cycle_correct:
  assumes "\<And>k. set (adj_list (dg_adjacency g) k) \<subseteq> set (dg_keys g)"
  shows "\<exists>r. detect_cycle g = Some r \<and>
    (case r of
       Some cycle \<Rightarrow> is_cycle (adj_list (dg_adjacency g)) cycle
     | None \<Rightarrow> acyclic (edges (adj_list (dg_adjacency g)) (set (dg_keys g))))"
proof -
  let ?c = "map (\<lambda>name. (name, 0 :: u8)) (dg_keys g)" and ?p = "map (\<lambda>name. (name, None)) (dg_keys g)"
  have c: "hm_get ?c k = (if k \<in> set (dg_keys g) then Some 0 else None)" for k
    by (simp add: map_of_map_restrict restrict_map_def)
  have "dfs_inv (dg_adjacency g) (set (dg_keys g)) ?c ?p [] []"
    using assms unfolding dfs_inv_def gray_path_def c by auto
  from detect_from_correct [OF this order_refl] obtain r where
    r: "detect_cycle g = Some r" "case r of Some cycle \<Rightarrow> is_cycle (adj_list (dg_adjacency g)) cycle
       | None \<Rightarrow> \<exists>bl. topo (adj_list (dg_adjacency g)) bl \<and> set (dg_keys g) \<union> set [] \<subseteq> set bl"
    unfolding detect_cycle_def by blast
  show ?thesis
  proof (cases r)
    case None
    with r(2) obtain bl where bl: "topo (adj_list (dg_adjacency g)) bl" "set (dg_keys g) \<subseteq> set bl" by auto
    have "acyclic (edges (adj_list (dg_adjacency g)) (set (dg_keys g)))"
      by (rule acyclic_subset [OF topo_acyclic [OF bl(1)]]) (use bl(2) in \<open>auto simp: edges_def\<close>)
    with r(1) None show ?thesis by simp
  qed (use r in simp)
qed

section \<open>Correctness of Kahn's algorithm\<close>

definition remaining :: "('a \<Rightarrow> 'a list) \<Rightarrow> 'a list \<Rightarrow> 'a \<Rightarrow> nat" where
  "remaining N r n = length (filter (\<lambda>d. d \<notin> set r) (N n))"

definition has_degrees :: "'a set \<Rightarrow> ('a \<Rightarrow> nat) \<Rightarrow> ('a, nat) hmap \<Rightarrow> bool" where
  "has_degrees K f m \<longleftrightarrow> (\<forall>n. hm_get m n = (if n \<in> K then Some (f n) else None))"

definition kahn_inv :: "('a \<Rightarrow> 'a list) \<Rightarrow> 'a set \<Rightarrow> ('a, nat) hmap \<Rightarrow> 'a list \<Rightarrow> 'a list \<Rightarrow> bool" where
  "kahn_inv N K m q r \<longleftrightarrow>
     topo N r \<and> distinct (r @ q) \<and> set (r @ q) = {n \<in> K. remaining N r n = 0} \<and> has_degrees K (remaining N r) m"

lemma remaining_snoc: "x \<notin> set r \<Longrightarrow> remaining N r n = remaining N (r @ [x]) n + count_list (N n) x"
proof -
  assume x: "x \<notin> set r"
  have "length (filter (\<lambda>d. d \<notin> set r) ds) = length (filter (\<lambda>d. d \<notin> set (r @ [x])) ds) + count_list ds x" for ds
    using x by (induction ds) auto
  then show ?thesis unfolding remaining_def .
qed

lemma remaining_0: "remaining N r n = 0 \<longleftrightarrow> set (N n) \<subseteq> set r"
  by (auto simp: remaining_def filter_empty_conv)

lemma relax_correct:
  assumes "has_degrees K f m" and "set ds \<subseteq> K" and "\<And>n. n \<in> set ds \<Longrightarrow> count_list ds n \<le> f n"
  shows "\<exists>m' new. relax ds m q = Some (m', q @ new) \<and> has_degrees K (\<lambda>n. f n - count_list ds n) m' \<and>
    distinct new \<and> set new = {n \<in> set ds. f n = count_list ds n}"
  using assms
proof (induction ds arbitrary: m q f)
  case Nil
  then show ?case by auto
next
  case (Cons d ds)
  let ?m = "hm_insert d (f d - 1) m" and ?f = "f(d := f d - 1)"
  let ?q = "if f d - 1 = 0 then q @ [d] else q"
  have d: "hm_get m d = Some (f d)" using Cons.prems(1,2) by (simp add: has_degrees_def)
  have pos: "f d \<noteq> 0" using Cons.prems(3) [of d] by simp
  have deg: "has_degrees K ?f ?m" using Cons.prems(1,2) by (auto simp: has_degrees_def)
  have le: "count_list ds n \<le> ?f n" if "n \<in> set ds" for n
    using Cons.prems(3) [of n] that by (auto split: if_splits)
  from Cons.IH [OF deg _ le, of ?q] Cons.prems(2) obtain m' new where
    new: "relax ds ?m ?q = Some (m', ?q @ new)" "has_degrees K (\<lambda>n. ?f n - count_list ds n) m'"
    "distinct new" "set new = {n \<in> set ds. ?f n = count_list ds n}" by auto
  have mem: "n \<in> set new \<longleftrightarrow> n \<in> set ds \<and> ?f n = count_list ds n" for n unfolding new(4) by blast
  have minus: "(\<lambda>n. ?f n - count_list ds n) = (\<lambda>n. f n - count_list (d # ds) n)" by auto
  have step: "relax (d # ds) m q = Some (m', ?q @ new)" using d pos new(1) by simp
  show ?case
  proof (cases "f d - 1 = 0")
    case True
    then have one: "f d = 1" using pos by simp
    have nd: "d \<notin> set ds" using le [of d] True by (auto simp: count_list_0_iff)
    then have none: "count_list ds d = 0" by (simp add: count_list_0_iff)
    have "n \<in> set (d # new) \<longleftrightarrow> n \<in> set (d # ds) \<and> f n = count_list (d # ds) n" for n
      by (cases "n = d") (use one none mem [of n] in simp_all)
    then have "set (d # new) = {n \<in> set (d # ds). f n = count_list (d # ds) n}" by blast
    moreover have "distinct (d # new)" using new(3) mem [of d] nd by simp
    moreover have "relax (d # ds) m q = Some (m', q @ d # new)" using step True by simp
    ultimately show ?thesis using new(2) unfolding minus by blast
  next
    case False
    have "d \<in> set ds" if "f d = Suc (count_list ds d)" using that False count_list_0_iff [of ds d] by auto
    then have "n \<in> set new \<longleftrightarrow> n \<in> set (d # ds) \<and> f n = count_list (d # ds) n" for n
      by (cases "n = d") (use pos mem [of n] in auto)
    then have "set new = {n \<in> set (d # ds). f n = count_list (d # ds) n}" by blast
    moreover have "relax (d # ds) m q = Some (m', q @ new)" using step False by simp
    ultimately show ?thesis using new(2,3) unfolding minus by blast
  qed
qed

lemma kahn_step:
  assumes inv: "kahn_inv N K m (x # q) r" and sub: "set ds \<subseteq> K"
    and cnt: "\<And>n. n \<in> K \<Longrightarrow> count_list ds n = count_list (N n) x"
  shows "\<exists>m' q'. relax ds m q = Some (m', q') \<and> kahn_inv N K m' q' (r @ [x])"
proof -
  have x: "x \<in> K" "x \<notin> set r" "set (N x) \<subseteq> set r" and dist: "distinct (r @ [x] @ q)"
    using inv by (auto simp: kahn_inv_def remaining_0)
  have zero: "n \<in> set (r @ x # q) \<longleftrightarrow> n \<in> K \<and> remaining N r n = 0" for n using inv unfolding kahn_inv_def by blast
  have rem: "remaining N r n = remaining N (r @ [x]) n + count_list ds n" if "n \<in> K" for n
    using remaining_snoc [OF x(2), of N n] cnt [OF that] by simp
  have deg: "has_degrees K (remaining N r) m" using inv by (simp add: kahn_inv_def)
  have le: "count_list ds n \<le> remaining N r n" if "n \<in> set ds" for n using rem [of n] sub that by auto
  from relax_correct [OF deg sub le, of q] obtain m' new where
    new: "relax ds m q = Some (m', q @ new)" "has_degrees K (\<lambda>n. remaining N r n - count_list ds n) m'"
    "distinct new" "set new = {n \<in> set ds. remaining N r n = count_list ds n}" by blast
  have in_new: "n \<in> set new \<longleftrightarrow> n \<in> K \<and> remaining N (r @ [x]) n = 0 \<and> n \<notin> set (r @ x # q)" for n
    unfolding new(4) zero using rem [of n] sub count_list_0_iff [of ds n] by auto
  have "has_degrees K (remaining N (r @ [x])) m'"
    using new(2) rem by (auto simp: has_degrees_def)
  moreover have "topo N (r @ [x])" using inv x by (simp add: kahn_inv_def topo_snoc)
  moreover have "distinct ((r @ [x]) @ q @ new)" using dist new(3) in_new by auto
  moreover have "set ((r @ [x]) @ q @ new) = {n \<in> K. remaining N (r @ [x]) n = 0}"
  proof -
    have "remaining N (r @ [x]) n = 0" if "n \<in> set (r @ x # q)" for n using that rem [of n] unfolding zero by simp
    then show ?thesis using in_new zero by auto
  qed
  ultimately show ?thesis using new(1) unfolding kahn_inv_def by blast
qed

lemma kahn_loop_correct:
  assumes "kahn_inv N K m q r"
    and "\<And>x. x \<in> K \<Longrightarrow> set (adj_list radj x) \<subseteq> K"
    and "\<And>x n. x \<in> K \<Longrightarrow> n \<in> K \<Longrightarrow> count_list (adj_list radj x) n = count_list (N n) x"
  shows "\<exists>r' m'. kahn_loop radj m q r = Some r' \<and> kahn_inv N K m' [] r'"
  using assms
proof (induction radj m q r rule: kahn_loop.induct)
  case (1 radj m r)
  then show ?case by auto
next
  case (2 radj m x q r)
  have x: "x \<in> K" using 2(2) by (auto simp: kahn_inv_def)
  from kahn_step [OF 2(2) 2(3) [OF x] 2(4) [OF x]] obtain m' q' where
    step: "relax (adj_list radj x) m q = Some (m', q')" "kahn_inv N K m' q' (r @ [x])" by blast
  from 2(1) [OF step(1) refl step(2) 2(3,4)] obtain r' m'' where
    "kahn_loop radj m' q' (r @ [x]) = Some r'" "kahn_inv N K m'' [] r'" by blast
  with step(1) show ?case by auto
qed

lemma kahn_complete:
  assumes "kahn_inv N K m [] r" and "finite K" and "acyclic (edges N K)" and "\<And>n. n \<in> K \<Longrightarrow> set (N n) \<subseteq> K"
  shows "set r = K"
proof (rule ccontr)
  assume ne: "set r \<noteq> K"
  have r: "set r = {n \<in> K. remaining N r n = 0}" using assms(1) by (simp add: kahn_inv_def)
  have "finite (edges N K)" by (rule finite_subset [of _ "K \<times> K"]) (use assms(2,4) in \<open>auto simp: edges_def\<close>)
  then have wf: "wf ((edges N K)\<inverse>)" using assms(3) by (rule finite_acyclic_wf_converse)
  have "set r \<subseteq> K" unfolding r by blast
  with ne obtain n0 where "n0 \<in> K - set r" by blast
  then obtain z where z: "z \<in> K - set r" and min: "\<And>y. (y, z) \<in> (edges N K)\<inverse> \<Longrightarrow> y \<notin> K - set r"
    by (rule wfE_min [OF wf]) blast
  have "d \<in> set r" if "d \<in> set (N z)" for d
    using min [of d] z assms(4) [of z] that by (auto simp: edges_def)
  then have "remaining N r z = 0" unfolding remaining_0 by (rule subsetI)
  with z have "z \<in> set r" unfolding r by simp
  with z show False by simp
qed

lemma topological_sort_correct:
  assumes "distinct (dg_keys g)"
    and "\<And>x. set (adj_list (dg_adjacency g) x) \<subseteq> set (dg_keys g)"
    and "\<And>x. set (adj_list (dg_reverse_adjacency g) x) \<subseteq> set (dg_keys g)"
    and "\<And>x n. count_list (adj_list (dg_reverse_adjacency g) x) n = count_list (adj_list (dg_adjacency g) n) x"
    and "acyclic (edges (adj_list (dg_adjacency g)) (set (dg_keys g)))"
  shows "\<exists>order. topological_sort g = Inr order \<and> topo (adj_list (dg_adjacency g)) order \<and> set order = set (dg_keys g)"
proof -
  let ?N = "adj_list (dg_adjacency g)" and ?K = "set (dg_keys g)"
  let ?deg = "\<lambda>name. case hm_get (dg_adjacency g) name of None \<Rightarrow> 0 | Some deps \<Rightarrow> length deps"
  have deg: "?deg n = remaining ?N [] n" for n by (simp add: remaining_def split: option.split)
  have "kahn_inv ?N ?K (map (\<lambda>name. (name, ?deg name)) (dg_keys g)) (filter (\<lambda>name. ?deg name = 0) (dg_keys g)) []"
    unfolding kahn_inv_def deg using assms(1) by (auto simp: has_degrees_def map_of_map_restrict restrict_map_def)
  from kahn_loop_correct [OF this assms(3,4)] obtain r m where
    r: "kahn_loop (dg_reverse_adjacency g) (map (\<lambda>name. (name, ?deg name)) (dg_keys g)) (filter (\<lambda>name. ?deg name = 0) (dg_keys g)) [] = Some r"
    and inv: "kahn_inv ?N ?K m [] r" by blast
  have set: "set r = ?K" by (rule kahn_complete [OF inv _ assms(5,2)]) simp
  have topo: "topo ?N r" using inv by (simp add: kahn_inv_def)
  have "length r = length (dg_keys g)"
    using distinct_card [OF topo_distinct [OF topo]] distinct_card [OF assms(1)] set by simp
  with r have "topological_sort g = Inr r" unfolding topological_sort_def Let_def by simp
  with set topo show ?thesis by blast
qed

section \<open>Correctness of building\<close>

definition deps_of :: "services \<Rightarrow> string \<Rightarrow> string list" where
  "deps_of services n = (case hm_get services n of None \<Rightarrow> [] | Some deps \<Rightarrow> map dep_service deps)"

definition dep_edges :: "services \<Rightarrow> (string \<times> string) set" where
  "dep_edges services = {(n, m). m \<in> set (deps_of services n)}"

definition valid_deps :: "services \<Rightarrow> string \<Rightarrow> depends_spec list \<Rightarrow> bool" where
  "valid_deps services name deps \<longleftrightarrow>
     (\<forall>d \<in> set deps. dep_service d \<noteq> name \<and> hm_get services (dep_service d) \<noteq> None)"

definition edge_error :: "services \<Rightarrow> dependency_error \<Rightarrow> bool" where
  "edge_error services e \<longleftrightarrow>
     (case e of
        SelfDependency n \<Rightarrow> n \<in> set (deps_of services n)
      | MissingService n m \<Rightarrow> m \<in> set (deps_of services n) \<and> hm_get services m = None
      | CyclicDependency cycle \<Rightarrow> is_cycle (deps_of services) cycle)"

text \<open>\<open>adj\<close> and \<open>radj\<close> hold the edges \<open>A\<close> between the nodes \<open>K\<close>, in both directions.\<close>

definition has_edges :: "string set \<Rightarrow> (string \<Rightarrow> string list) \<Rightarrow> (string, string list) hmap \<Rightarrow> (string, string list) hmap \<Rightarrow> bool" where
  "has_edges K A adj radj \<longleftrightarrow>
     (\<forall>n. hm_get adj n = (if n \<in> K then Some (A n) else None)) \<and>
     (\<forall>n. n \<notin> K \<longrightarrow> hm_get radj n = None) \<and>
     (\<forall>n \<in> K. \<exists>ys. hm_get radj n = Some ys \<and> (\<forall>x. count_list ys x = count_list (A x) n))"

lemma has_edges_push:
  assumes h: "has_edges K A adj radj" and K: "name \<in> K" "d \<in> K"
  shows "\<exists>adj' radj'. push_edge name d adj = Some adj' \<and> push_edge d name radj = Some radj' \<and>
    has_edges K (A(name := A name @ [d])) adj' radj'"
proof -
  let ?A = "A(name := A name @ [d])"
  have adj: "hm_get adj name = Some (A name)" using h K by (simp add: has_edges_def)
  obtain ys where ys: "hm_get radj d = Some ys" "\<And>x. count_list ys x = count_list (A x) d"
    using h K(2) unfolding has_edges_def by blast
  let ?adj = "hm_insert name (A name @ [d]) adj" and ?radj = "hm_insert d (ys @ [name]) radj"
  have "\<exists>zs. hm_get ?radj n = Some zs \<and> (\<forall>x. count_list zs x = count_list (?A x) n)" if "n \<in> K" for n
  proof (cases "n = d")
    case True
    then show ?thesis using ys(2) by auto
  next
    case False
    from h that obtain zs where zs: "hm_get radj n = Some zs" "\<forall>x. count_list zs x = count_list (A x) n"
      unfolding has_edges_def by blast
    have "count_list zs x = count_list (?A x) n" for x using zs(2) False by simp
    with zs(1) False show ?thesis by simp
  qed
  moreover have "hm_get ?adj n = (if n \<in> K then Some (?A n) else None)" for n
    using h K by (auto simp: has_edges_def)
  moreover have "hm_get ?radj n = None" if "n \<notin> K" for n using h K that by (auto simp: has_edges_def)
  ultimately have "has_edges K ?A ?adj ?radj" unfolding has_edges_def by blast
  with adj ys(1) show ?thesis by (simp add: push_edge_def)
qed

lemma add_deps_correct:
  assumes "has_edges K A adj radj" and "K = {n. hm_get services n \<noteq> None}" and "name \<in> K"
  shows "case add_deps services name deps adj radj of
      Inl f \<Rightarrow> (\<exists>d \<in> set deps. dep_service d = name \<and> f = BuildError (agent_error_from (SelfDependency name)) \<or>
        hm_get services (dep_service d) = None \<and> f = BuildError (agent_error_from (MissingService name (dep_service d))))
    | Inr (adj', radj') \<Rightarrow> valid_deps services name deps \<and> has_edges K (A(name := A name @ map dep_service deps)) adj' radj'"
  using assms(1)
proof (induction deps arbitrary: A adj radj)
  case Nil
  then show ?case by (simp add: valid_deps_def)
next
  case (Cons d deps)
  show ?case
  proof (cases "dep_service d = name \<or> hm_get services (dep_service d) = None")
    case True
    then show ?thesis by auto
  next
    case False
    then have dK: "dep_service d \<in> K" using assms(2) by simp
    let ?A = "A(name := A name @ [dep_service d])"
    from has_edges_push [OF Cons.prems assms(3) dK] obtain adj' radj' where
      p: "push_edge name (dep_service d) adj = Some adj'" "push_edge (dep_service d) name radj = Some radj'"
      and h: "has_edges K ?A adj' radj'" by blast
    have eq: "add_deps services name (d # deps) adj radj = add_deps services name deps adj' radj'" using False p by auto
    have A: "?A(name := ?A name @ map dep_service deps) = A(name := A name @ map dep_service (d # deps))" by simp
    have v: "valid_deps services name (d # deps) = valid_deps services name deps" using False by (auto simp: valid_deps_def)
    show ?thesis
    proof (cases "add_deps services name deps adj' radj'")
      case (Inl f)
      with Cons.IH [OF h] show ?thesis unfolding eq by auto
    next
      case (Inr ar)
      obtain a b where ab: "ar = (a, b)" by fastforce
      from Cons.IH [OF h, unfolded A] show ?thesis unfolding eq v Inr ab by simp
    qed
  qed
qed

lemma add_edges_correct:
  assumes "has_edges K A adj radj" and "K = {n. hm_get services n \<noteq> None}"
    and "hm_wf rest" and "\<And>n deps. (n, deps) \<in> set rest \<Longrightarrow> hm_get services n = Some deps"
  shows "case add_edges services rest adj radj of
      Inl f \<Rightarrow> (\<exists>e. f = BuildError (agent_error_from e) \<and> edge_error services e)
    | Inr (adj', radj') \<Rightarrow> (\<forall>(n, deps) \<in> set rest. valid_deps services n deps) \<and>
        has_edges K (\<lambda>n. A n @ deps_of rest n) adj' radj'"
  using assms(1,3,4)
proof (induction rest arbitrary: A adj radj)
  case Nil
  then show ?case by (simp add: deps_of_def)
next
  case (Cons nd rest)
  obtain n deps where nd: "nd = (n, deps)" by fastforce
  have get: "hm_get services n = Some deps" by (rule Cons.prems(3)) (simp add: nd)
  then have nK: "n \<in> K" and names: "deps_of services n = map dep_service deps" using assms(2) by (simp_all add: deps_of_def)
  note one = add_deps_correct [OF Cons.prems(1) assms(2) nK, of deps]
  show ?case
  proof (cases "add_deps services n deps adj radj")
    case (Inl f)
    from one [unfolded Inl sum.case] obtain d where d: "d \<in> set deps"
      "dep_service d = n \<and> f = BuildError (agent_error_from (SelfDependency n)) \<or>
       hm_get services (dep_service d) = None \<and> f = BuildError (agent_error_from (MissingService n (dep_service d)))" by blast
    have self: "edge_error services (SelfDependency n)" if "dep_service d = n"
      using that d(1) names by (auto simp: edge_error_def)
    have missing: "edge_error services (MissingService n (dep_service d))" if "hm_get services (dep_service d) = None"
      using that d(1) names by (simp add: edge_error_def)
    from d(2) have "\<exists>e. f = BuildError (agent_error_from e) \<and> edge_error services e"
      by (elim disjE conjE) (intro exI conjI, assumption, erule self missing)+
    then show ?thesis using Inl nd by simp
  next
    case (Inr ar)
    obtain adj1 radj1 where ar: "ar = (adj1, radj1)" by fastforce
    from one [unfolded Inr ar sum.case prod.case] have v: "valid_deps services n deps"
      and h: "has_edges K (A(n := A n @ map dep_service deps)) adj1 radj1" by blast+
    have notin: "hm_get rest n = None" using Cons.prems(2) nd by (simp add: map_of_eq_None_iff)
    have A: "(\<lambda>x. (A(n := A n @ map dep_service deps)) x @ deps_of rest x) = (\<lambda>x. A x @ deps_of (nd # rest) x)"
      using notin by (auto simp: nd deps_of_def fun_eq_iff)
    have wf: "hm_wf rest" using Cons.prems(2) by simp
    have sub: "hm_get services n = Some deps" if "(n, deps) \<in> set rest" for n deps by (rule Cons.prems(3)) (simp add: that)
    have eq: "add_edges services (nd # rest) adj radj = add_edges services rest adj1 radj1" using Inr nd ar by simp
    show ?thesis
    proof (cases "add_edges services rest adj1 radj1")
      case (Inl f)
      from Cons.IH [OF h wf sub, unfolded Inl sum.case] show ?thesis unfolding eq Inl sum.case .
    next
      case (Inr ar2)
      obtain a b where ab: "ar2 = (a, b)" by fastforce
      from Cons.IH [OF h wf sub, unfolded A Inr ab sum.case prod.case] v show ?thesis
        unfolding eq Inr ab sum.case prod.case by (simp add: nd)
    qed
  qed
qed

lemma init_adjacency_get: "hm_get (init_adjacency services) n = (if n \<in> fst ` set services then Some [] else None)"
proof -
  have "hm_get (fold (\<lambda>(name, deps). hm_insert name []) services m) n =
      (if n \<in> fst ` set services then Some [] else hm_get m n)" for m :: "(string, string list) hmap"
  proof (induction services arbitrary: m)
    case (Cons nd services)
    then show ?case by (cases nd) auto
  qed simp
  then show ?thesis by (simp add: init_adjacency_def)
qed

lemma keys_dom: "set (map fst services) = {n. hm_get services n \<noteq> None}"
  by (simp add: set_eq_iff map_of_eq_None_iff)

lemma deps_of_dom: "m \<in> set (deps_of services n) \<Longrightarrow> hm_get services n \<noteq> None"
  by (cases "hm_get services n") (simp_all add: deps_of_def)

text \<open>The two outcomes of building, and the graph in the second.\<close>

lemma build_cases:
  assumes "hm_wf services" and "distinct keys" and "set keys = set (map fst services)"
  shows "(\<exists>e. build keys services = Inl (BuildError (agent_error_from e)) \<and> edge_error services e) \<or>
    (\<exists>adj radj order. build keys services = Inr \<lparr> dg_keys = keys, dg_nodes = init_nodes services, dg_startup_order = order,
         dg_adjacency = adj, dg_reverse_adjacency = radj \<rparr> \<and>
       (\<forall>(n, deps) \<in> set services. valid_deps services n deps) \<and> acyclic (dep_edges services) \<and>
       topo (deps_of services) order \<and> set order = set keys \<and>
       (\<forall>n. adj_list adj n = deps_of services n) \<and>
       (\<forall>m n. count_list (adj_list radj m) n = count_list (deps_of services n) m))"
proof -
  let ?K = "{n. hm_get services n \<noteq> None}" and ?i = "init_adjacency services"
  have "has_edges ?K (\<lambda>n. []) ?i ?i" using keys_dom [of services] by (auto simp: has_edges_def init_adjacency_get)
  from add_edges_correct [OF this refl assms(1), unfolded append_Nil] hm_wf_mem_iff [OF assms(1)]
  have ae: "case add_edges services services ?i ?i of
      Inl f \<Rightarrow> (\<exists>e. f = BuildError (agent_error_from e) \<and> edge_error services e)
    | Inr (adj', radj') \<Rightarrow> (\<forall>(n, deps) \<in> set services. valid_deps services n deps) \<and> has_edges ?K (deps_of services) adj' radj'"
    by blast
  show ?thesis
  proof (cases "add_edges services services ?i ?i")
    case (Inl f)
    with ae show ?thesis by (auto simp: build_def)
  next
    case (Inr ar)
    obtain adj radj where ar: "ar = (adj, radj)" by fastforce
    from ae [unfolded Inr ar sum.case prod.case] have v: "\<forall>(n, deps) \<in> set services. valid_deps services n deps"
      and h: "has_edges ?K (deps_of services) adj radj" by blast+
    let ?g = "\<lparr> dg_keys = keys, dg_nodes = init_nodes services, dg_startup_order = [],
       dg_adjacency = adj, dg_reverse_adjacency = radj \<rparr>"
    have adj: "adj_list adj n = deps_of services n" for n
      using h by (auto simp: has_edges_def deps_of_def split: option.split)
    have sub: "set (deps_of services n) \<subseteq> set keys" for n
      using v hm_wf_mem_iff [OF assms(1), of n] unfolding assms(3) keys_dom
      by (force simp: deps_of_def valid_deps_def split: option.splits)
    have cnt: "count_list (adj_list radj m) n = count_list (deps_of services n) m" for m n
    proof (cases "m \<in> ?K")
      case True
      then obtain ys where "hm_get radj m = Some ys" "\<forall>x. count_list ys x = count_list (deps_of services x) m"
        using h unfolding has_edges_def by blast
      then show ?thesis by simp
    next
      case False
      then have "hm_get radj m = None" using h unfolding has_edges_def by blast
      moreover have "m \<notin> set (deps_of services n)" using False sub [of n] unfolding assms(3) keys_dom by blast
      ultimately show ?thesis by (simp add: count_list_0_iff)
    qed
    have rsub: "set (adj_list radj m) \<subseteq> set keys" for m
    proof
      fix n
      assume "n \<in> set (adj_list radj m)"
      then have "count_list (deps_of services n) m \<noteq> 0" unfolding cnt [symmetric] by (simp add: count_list_0_iff)
      then have "m \<in> set (deps_of services n)" by (simp add: count_list_0_iff)
      then show "n \<in> set keys" unfolding assms(3) keys_dom using deps_of_dom [of m services n] by simp
    qed
    have ed: "edges (deps_of services) (set keys) = dep_edges services"
      unfolding edges_def dep_edges_def assms(3) keys_dom using deps_of_dom [of _ services] by blast
    have build: "build keys services = (case detect_cycle ?g of
         None \<Rightarrow> Inl BuildDiverges
       | Some (Some cycle) \<Rightarrow> Inl (BuildError (agent_error_from (CyclicDependency cycle)))
       | Some None \<Rightarrow> and_then (topological_sort ?g) (\<lambda>order. Inr (?g\<lparr>dg_startup_order := order\<rparr>)))"
      unfolding build_def Inr ar and_then_simps prod.case Let_def by (rule refl)
    from detect_cycle_correct [of ?g, unfolded dependency_graph.select_convs adj ed, OF sub] obtain r where
      r: "detect_cycle ?g = Some r" "case r of Some cycle \<Rightarrow> is_cycle (deps_of services) cycle | None \<Rightarrow> acyclic (dep_edges services)"
      by blast
    show ?thesis
    proof (cases r)
      case (Some cycle)
      with r have "edge_error services (CyclicDependency cycle)" by (simp add: edge_error_def)
      moreover have "build keys services = Inl (BuildError (agent_error_from (CyclicDependency cycle)))"
        unfolding build r Some by simp
      ultimately show ?thesis by blast
    next
      case None
      with r have ac: "acyclic (dep_edges services)" by simp
      from topological_sort_correct [of ?g, unfolded dependency_graph.select_convs adj ed cnt, OF assms(2) sub rsub refl ac]
      obtain order where
        o: "topological_sort ?g = Inr order" "topo (deps_of services) order" "set order = set keys"
        by blast
      have "build keys services = Inr (?g\<lparr>dg_startup_order := order\<rparr>)" unfolding build r None o(1) by simp
      with v ac o(2,3) adj cnt show ?thesis by simp
    qed
  qed
qed

lemma edge_error_invalid:
  assumes "hm_wf services" and "edge_error services e"
  shows "\<not> ((\<forall>(n, deps) \<in> set services. valid_deps services n deps) \<and> acyclic (dep_edges services))"
proof
  assume ok: "(\<forall>(n, deps) \<in> set services. valid_deps services n deps) \<and> acyclic (dep_edges services)"
  have valid: "m \<noteq> n \<and> hm_get services m \<noteq> None" if "m \<in> set (deps_of services n)" for n m
    using that ok hm_wf_mem_iff [OF assms(1), of n]
    by (cases "hm_get services n") (fastforce simp: deps_of_def valid_deps_def)+
  show False
  proof (cases e)
    case (CyclicDependency cycle)
    with assms(2) have c: "is_cycle (deps_of services) cycle" by (simp add: edge_error_def)
    have "\<not> acyclic (edges (deps_of services) UNIV)" by (rule cycle_not_acyclic [OF c]) simp
    with ok show False by (simp add: edges_def dep_edges_def)
  next
    case (MissingService n m)
    with assms(2) valid [of m n] show False by (simp add: edge_error_def)
  next
    case (SelfDependency n)
    with assms(2) valid [of n n] show False by (simp add: edge_error_def)
  qed
qed

text \<open>The graph provides the contract of a planner, for services together with an iteration order.\<close>

interpretation dg: startup_planner
  "\<lambda>(keys, services). hm_wf services \<and> distinct keys \<and> set keys = set (map fst services)"
  "\<lambda>(keys, services). deps_of services" "\<lambda>(keys, services). set (map fst services)"
  "\<lambda>(keys, services). map_sum (\<lambda>f. f) dg_startup_order (build keys services)"
proof (unfold_locales, goal_cases)
  case (1 s order)
  obtain keys services where s: "s = (keys, services)" by fastforce
  from 1(1) [unfolded s prod.case] have "hm_wf services" "distinct keys" and k: "set keys = set (map fst services)" by blast+
  from build_cases [OF this] 1(2) show ?case unfolding s prod.case by (elim disjE exE conjE) (simp_all add: k)
next
  case (2 s f)
  obtain keys services where s: "s = (keys, services)" by fastforce
  from 2(1) [unfolded s prod.case] have ok: "hm_wf services" "distinct keys" "set keys = set (map fst services)" by blast+
  from build_cases [OF ok] 2(2) obtain e where e: "edge_error services e" unfolding s prod.case by (elim disjE exE conjE) auto
  from edge_error_invalid [OF ok(1) e] show ?case
  proof (elim de_Morgan_conj [THEN iffD1, THEN disjE])
    assume "\<not> (\<forall>(n, deps) \<in> set services. valid_deps services n deps)"
    then obtain n deps d where nd: "(n, deps) \<in> set services" "d \<in> set deps"
      "dep_service d = n \<or> hm_get services (dep_service d) = None" by (auto simp: valid_deps_def)
    have "dep_service d \<in> set (deps_of services n)"
      using nd(2) hm_wf_mem_iff [OF ok(1), of n deps] nd(1) by (simp add: deps_of_def)
    with nd(3) have "\<not> set (deps_of services n) \<subseteq> set (map fst services) - {n}" unfolding keys_dom by blast
    then show ?case unfolding s prod.case by blast
  next
    assume "\<not> acyclic (dep_edges services)"
    then show ?case unfolding s prod.case by (simp add: edges_def dep_edges_def)
  qed
qed

lemma build_plan: "build keys services = Inr g \<Longrightarrow>
   (case (keys, services) of (keys, services) \<Rightarrow> map_sum (\<lambda>f. f) dg_startup_order (build keys services)) = Inr (dg_startup_order g)"
  by simp

text \<open>
  C6. Building a dependency graph succeeds exactly for well-formed acyclic services: no service depends on
  itself, every dependency exists and the dependency relation has no cycle. The startup order then lists
  every service once, each after all services it depends on. Neither the depth-first search nor Kahn's
  algorithm runs forever, and no counter underflows, in whatever order the maps are iterated.
\<close>

theorem build_correct:
  assumes "hm_wf services" and "distinct keys" and "set keys = set (map fst services)"
  shows "((\<exists>g. build keys services = Inr g) \<longleftrightarrow>
       (\<forall>(n, deps) \<in> set services. valid_deps services n deps) \<and> acyclic (dep_edges services)) \<and>
    (\<forall>g. build keys services = Inr g \<longrightarrow>
       distinct (dg_startup_order g) \<and> set (dg_startup_order g) = set (map fst services) \<and>
       (\<forall>before n later deps d. dg_startup_order g = before @ n # later \<and> hm_get services n = Some deps \<and> d \<in> set deps \<longrightarrow>
          dep_service d \<in> set before))"
proof (intro conjI allI impI)
  have ok: "case (keys, services) of (keys, services) \<Rightarrow> hm_wf services \<and> distinct keys \<and> set keys = set (map fst services)"
    using assms by simp
  show "(\<exists>g. build keys services = Inr g) \<longleftrightarrow>
      (\<forall>(n, deps) \<in> set services. valid_deps services n deps) \<and> acyclic (dep_edges services)"
    using build_cases [OF assms] edge_error_invalid [OF assms(1)] by fastforce
  fix g
  assume g: "build keys services = Inr g"
  show "distinct (dg_startup_order g)" by (rule dg.plan_distinct [OF ok build_plan [OF g]])
  show "set (dg_startup_order g) = set (map fst services)" using dg.plan_order [OF ok build_plan [OF g]] by simp
  fix before n later deps d
  assume o: "dg_startup_order g = before @ n # later \<and> hm_get services n = Some deps \<and> d \<in> set deps"
  have "set (deps_of services n) \<subseteq> set before"
    using dg.plan_deps_first [OF ok, of before n later] build_plan [OF g] o by simp
  then show "dep_service d \<in> set before" using o by (auto simp: deps_of_def)
qed

definition sample_dep :: "string \<Rightarrow> depends_spec" where
  "sample_dep s = \<lparr> dep_service = s, dep_condition = CondHealthy, dep_timeout = None, dep_on_timeout = ActFail \<rparr>"

definition sample_services :: services where
  "sample_services = [(''proxy'', [sample_dep ''api'', sample_dep ''db'']), (''api'', [sample_dep ''db'']), (''db'', [])]"

definition cyclic_services :: services where
  "cyclic_services = [(''api'', [sample_dep ''db'']), (''db'', [sample_dep ''api''])]"

lemma deps_of_sample [simp]:
  "deps_of sample_services n =
     (if n = ''proxy'' then [''api'', ''db''] else if n = ''api'' then [''db''] else [])"
  by (simp add: deps_of_def sample_services_def sample_dep_def)

lemma sample_services_ok:
  "hm_wf sample_services" "\<forall>(n, deps) \<in> set sample_services. valid_deps sample_services n deps"
  "acyclic (dep_edges sample_services)"
proof -
  show "hm_wf sample_services" by (simp add: sample_services_def)
  show "\<forall>(n, deps) \<in> set sample_services. valid_deps sample_services n deps"
    by (simp add: sample_services_def valid_deps_def sample_dep_def)
  show "acyclic (dep_edges sample_services)"
    by (rule acyclicI_order [of _ length]) (auto simp: dep_edges_def split: if_splits)
qed

theorem build_correct_witness:
  "\<exists>g before later. build [''db'', ''proxy'', ''api''] sample_services = Inr g \<and>
     dg_startup_order g = before @ ''proxy'' # later \<and> ''db'' \<in> set before"
proof -
  let ?keys = "[''db'', ''proxy'', ''api'']"
  have "distinct ?keys" "set ?keys = set (map fst sample_services)" by (simp_all add: sample_services_def insert_commute)
  note spec = build_correct [OF sample_services_ok(1) this]
  then obtain g where g: "build ?keys sample_services = Inr g" using sample_services_ok(2,3) by blast
  with spec have o: "set (dg_startup_order g) = set (map fst sample_services)"
    "\<And>before n later deps d. dg_startup_order g = before @ n # later \<Longrightarrow> hm_get sample_services n = Some deps \<Longrightarrow>
       d \<in> set deps \<Longrightarrow> dep_service d \<in> set before" by blast+
  have "''proxy'' \<in> set (dg_startup_order g)" unfolding o(1) by (simp add: sample_services_def)
  then obtain before later where b: "dg_startup_order g = before @ ''proxy'' # later" by (meson split_list)
  have "dep_service (sample_dep ''db'') \<in> set before"
    by (rule o(2) [OF b, of "[sample_dep ''api'', sample_dep ''db'']"]) (simp_all add: sample_services_def)
  with g b show ?thesis by (auto simp: sample_dep_def)
qed

text \<open>
  C25. Every failure to build is explained: the only errors are the rendered messages of a self-dependency,
  a missing dependency or a cycle that the services really have (a path of dependencies from a service
  back to itself). The panics the code allows for, and the late error about unresolved cycles, never
  happen.
\<close>

theorem build_errors_real:
  assumes "hm_wf services" and "distinct keys" and "set keys = set (map fst services)"
    and "build keys services = Inl failure"
  shows "\<exists>e. failure = BuildError (InvalidSpec (dependency_error_display e)) \<and>
    (case e of
       SelfDependency n \<Rightarrow> (n, n) \<in> dep_edges services
     | MissingService n m \<Rightarrow> (n, m) \<in> dep_edges services \<and> hm_get services m = None
     | CyclicDependency cycle \<Rightarrow> 2 \<le> length cycle \<and> hd cycle = last cycle \<and>
         successively (\<lambda>a b. (a, b) \<in> dep_edges services) cycle)"
proof -
  from build_cases [OF assms(1-3)] assms(4) obtain e where
    "failure = BuildError (agent_error_from e)" "edge_error services e" by auto
  then show ?thesis
    by (intro exI [of _ e]) (simp add: agent_error_from_def edge_error_def dep_edges_def is_cycle_def split: dependency_error.splits)
qed

theorem build_errors_real_witness:
  "\<exists>cycle. build [''api'', ''db''] cyclic_services =
      Inl (BuildError (InvalidSpec (dependency_error_display (CyclicDependency cycle)))) \<and> hd cycle = last cycle"
proof -
  let ?keys = "[''api'', ''db'']"
  have deps: "deps_of cyclic_services n = (if n = ''api'' then [''db''] else if n = ''db'' then [''api''] else [])" for n
    by (simp add: deps_of_def cyclic_services_def sample_dep_def)
  have ok: "hm_wf cyclic_services" "distinct ?keys" "set ?keys = set (map fst cyclic_services)"
    by (simp_all add: cyclic_services_def)
  have "is_cycle (deps_of cyclic_services) [''api'', ''db'', ''api'']" by (simp add: is_cycle_def deps)
  then have "edge_error cyclic_services (CyclicDependency [''api'', ''db'', ''api''])" by (simp add: edge_error_def)
  note invalid = edge_error_invalid [OF ok(1) this]
  from build_cases [OF ok] invalid obtain failure where f: "build ?keys cyclic_services = Inl failure" by blast
  from build_errors_real [OF ok f] obtain e where e: "failure = BuildError (InvalidSpec (dependency_error_display e))"
    "case e of
       SelfDependency n \<Rightarrow> (n, n) \<in> dep_edges cyclic_services
     | MissingService n m \<Rightarrow> (n, m) \<in> dep_edges cyclic_services \<and> hm_get cyclic_services m = None
     | CyclicDependency cycle \<Rightarrow> 2 \<le> length cycle \<and> hd cycle = last cycle \<and>
         successively (\<lambda>a b. (a, b) \<in> dep_edges cyclic_services) cycle" by blast
  have no: "(n, n) \<notin> dep_edges cyclic_services" "(n, m) \<in> dep_edges cyclic_services \<Longrightarrow> hm_get cyclic_services m \<noteq> None" for n m
    unfolding dep_edges_def deps by (auto simp: cyclic_services_def split: if_splits)
  show ?thesis
  proof (cases e)
    case (CyclicDependency cycle)
    with e f show ?thesis by auto
  next
    case (MissingService n m)
    with e(2) no(2) [of n m] show ?thesis by simp
  next
    case (SelfDependency n)
    with e(2) no(1) [of n] show ?thesis by simp
  qed
qed

section \<open>Correctness of the reachability query\<close>

lemma push_deps_eq:
  "push_deps b visited deps stack =
     (if b \<in> set deps then None else Some (rev (filter (\<lambda>d. d \<notin> set visited) deps) @ stack))"
  by (induction deps arbitrary: stack) auto

abbreviation adj_rel :: "(string, string list) hmap \<Rightarrow> (string \<times> string) set" where
  "adj_rel adj \<equiv> {(x, y). y \<in> set (adj_list adj x)}"

lemma search_deps_sound: "search_deps adj b visited stack \<Longrightarrow> \<exists>x \<in> set stack. (x, b) \<in> (adj_rel adj)\<^sup>+"
proof (induction adj b visited stack rule: search_deps.induct)
  case (2 adj b visited current stack)
  show ?case
  proof (cases "current \<in> set visited")
    case True
    with 2 show ?thesis by auto
  next
    case nv: False
    show ?thesis
    proof (cases "hm_get adj current")
      case None
      with 2 nv show ?thesis by auto
    next
      case (Some deps)
      have edge: "(current, d) \<in> adj_rel adj" if "d \<in> set deps" for d using that Some by simp
      show ?thesis
      proof (cases "b \<in> set deps")
        case True
        with edge show ?thesis by (auto intro: r_into_trancl)
      next
        case False
        let ?stack = "rev (filter (\<lambda>d. d \<notin> set (current # visited)) deps) @ stack"
        have "push_deps b (current # visited) deps stack = Some ?stack" using False by (simp add: push_deps_eq)
        with 2(3) [OF nv Some this] 2(4) nv Some obtain x where x: "x \<in> set ?stack" "(x, b) \<in> (adj_rel adj)\<^sup>+" by auto
        then consider "x \<in> set stack" | "x \<in> set deps" by auto
        then show ?thesis
        proof cases
          case 2
          from trancl_into_trancl2 [OF edge [OF this] x(2)] show ?thesis by auto
        qed (use x(2) in auto)
      qed
    qed
  qed
qed simp

lemma closed_no_path:
  assumes "\<And>v y. v \<in> V \<Longrightarrow> (v, y) \<in> R \<Longrightarrow> y \<in> V \<and> y \<noteq> b" and "x \<in> V"
  shows "(x, b) \<notin> R\<^sup>+"
proof
  assume "(x, b) \<in> R\<^sup>+"
  moreover have "y \<in> V \<and> y \<noteq> b" if "(x, y) \<in> R\<^sup>+" for y
    using that by (induction rule: trancl_induct) (use assms in blast)+
  ultimately show False by blast
qed

lemma search_deps_complete:
  assumes "\<not> search_deps adj b visited stack"
    and "\<And>v y. v \<in> set visited \<Longrightarrow> (v, y) \<in> adj_rel adj \<Longrightarrow> y \<in> set visited \<union> set stack \<and> y \<noteq> b"
  shows "\<forall>x \<in> set visited \<union> set stack. (x, b) \<notin> (adj_rel adj)\<^sup>+"
  using assms
proof (induction adj b visited stack rule: search_deps.induct)
  case (1 adj b visited)
  then show ?case using closed_no_path [of "set visited" "adj_rel adj" b] by simp
next
  case (2 adj b visited current stack)
  show ?case
  proof (cases "current \<in> set visited")
    case True
    have "\<not> search_deps adj b visited stack" using 2(4) True by simp
    moreover have "set visited \<union> set (current # stack) = set visited \<union> set stack" using True by auto
    ultimately show ?thesis using 2(1) [OF True] 2(5) by simp
  next
    case nv: False
    show ?thesis
    proof (cases "hm_get adj current")
      case None
      have un: "set (current # visited) \<union> set stack = set visited \<union> set (current # stack)" by auto
      have "\<not> search_deps adj b (current # visited) stack" using 2(4) nv None by simp
      moreover have "y \<in> set (current # visited) \<union> set stack \<and> y \<noteq> b"
        if "v \<in> set (current # visited)" "(v, y) \<in> adj_rel adj" for v y
        using that None 2(5) [of v y] unfolding un by auto
      ultimately show ?thesis using 2(2) [OF nv None] unfolding un by blast
    next
      case (Some deps)
      have nb: "b \<notin> set deps" using 2(4) nv Some by (auto simp: push_deps_eq)
      let ?stack = "rev (filter (\<lambda>d. d \<notin> set (current # visited)) deps) @ stack"
      have push: "push_deps b (current # visited) deps stack = Some ?stack" using nb by (simp add: push_deps_eq)
      have un: "set (current # visited) \<union> set ?stack = set visited \<union> set (current # stack) \<union> set deps" by auto
      have "\<not> search_deps adj b (current # visited) ?stack" using 2(4) nv Some push by simp
      moreover have "y \<in> set (current # visited) \<union> set ?stack \<and> y \<noteq> b"
        if "v \<in> set (current # visited)" "(v, y) \<in> adj_rel adj" for v y
        using that Some nb 2(5) [of v y] unfolding un by auto
      ultimately have "\<forall>x \<in> set (current # visited) \<union> set ?stack. (x, b) \<notin> (adj_rel adj)\<^sup>+"
        using 2(3) [OF nv Some push] by blast
      then show ?thesis unfolding un by blast
    qed
  qed
qed

text \<open>
  \<open>depends_on\<close> decides transitive dependency: on a built graph it answers yes exactly when there is a
  chain of dependencies from the first service to the second and the two differ.
\<close>

theorem depends_on_exact:
  assumes "hm_wf services" and "distinct keys" and "set keys = set (map fst services)"
    and "build keys services = Inr g"
  shows "depends_on g a b \<longleftrightarrow> a \<noteq> b \<and> (a, b) \<in> (dep_edges services)\<^sup>+"
proof -
  from build_cases [OF assms(1-3)] assms(4) have adj: "adj_list (dg_adjacency g) n = deps_of services n" for n by auto
  have rel: "adj_rel (dg_adjacency g) = dep_edges services" unfolding adj dep_edges_def ..
  show ?thesis
    using search_deps_sound [of "dg_adjacency g" b "[]" "[a]"] search_deps_complete [of "dg_adjacency g" b "[]" "[a]"]
    unfolding rel depends_on_def by auto
qed

theorem depends_on_exact_witness:
  "\<exists>g. build [''db'', ''proxy'', ''api''] sample_services = Inr g \<and> depends_on g ''proxy'' ''db'' \<and>
     \<not> depends_on g ''db'' ''proxy''"
proof -
  let ?keys = "[''db'', ''proxy'', ''api'']"
  have ok: "distinct ?keys" "set ?keys = set (map fst sample_services)" by (simp_all add: sample_services_def insert_commute)
  from build_cases [OF sample_services_ok(1) ok] edge_error_invalid [OF sample_services_ok(1)] sample_services_ok(2,3)
  obtain g where g: "build ?keys sample_services = Inr g" by blast
  note spec = depends_on_exact [OF sample_services_ok(1) ok g]
  have "(''proxy'', ''db'') \<in> (dep_edges sample_services)\<^sup>+" by (rule r_into_trancl) (simp add: dep_edges_def)
  moreover have "(''db'', y) \<notin> dep_edges sample_services" for y by (simp add: dep_edges_def)
  then have "(''db'', ''proxy'') \<notin> (dep_edges sample_services)\<^sup>+" by (meson converse_tranclE)
  ultimately show ?thesis using g spec by simp
qed

end
