(* ===== verification/Dependency_Wait.thy ===== *)
theory Dependency_Wait
  imports Dependency_Graph
begin

text \<open>
  Waiting for dependencies and deploying in dependency order: \<open>DependencyConditionChecker\<close> and
  \<open>DependencyWaiter\<close> of \<open>crates/zlayer-agent/src/dependency.rs\<close>, and \<open>deploy_with_dependencies\<close> and
  \<open>wait_for_dependencies\<close> of \<open>service.rs\<close>.

  What the code observes from outside, the container runtime, the health states, the proxy's route
  table and the clock, changes while it runs: an \<open>environment\<close> gives it for each step, and every poll is
  one step. A wait that never returns is \<open>None\<close>. Starting a service (\<open>upsert_service\<close>, \<open>scale_service\<close>) is
  an argument; a deployment records what it did as a list of events.
\<close>

section \<open>Conditions\<close>

record condition_checker =
  cc_container_state :: "container_id \<Rightarrow> agent_error + container_state"
  cc_health_states :: "string \<rightharpoonup> health_state"
  cc_service_registry :: "service_registry option"

definition check_started :: "condition_checker \<Rightarrow> string \<Rightarrow> agent_error + bool" where
  "check_started c service =
     (case cc_container_state c (container_id_new service 1) of
        Inr Running \<Rightarrow> Inr True
      | Inr _ \<Rightarrow> Inr False
      | Inl (AgentNotFound _ _) \<Rightarrow> Inr False
      | Inl e \<Rightarrow> Inl e)"

definition check_healthy :: "condition_checker \<Rightarrow> string \<Rightarrow> agent_error + bool" where
  "check_healthy c service =
     (case cc_health_states c service of Some HealthOk \<Rightarrow> Inr True | _ \<Rightarrow> Inr False)"

definition check_ready :: "condition_checker \<Rightarrow> string \<Rightarrow> agent_error + bool" where
  "check_ready c service =
     (case cc_service_registry c of
        Some registry \<Rightarrow>
          let services = list_services registry in
          if service \<notin> set services then Inr False
          else
            let host = service @ ''.default'' in
            (case resolve registry (Some host) ''/'' of
               Some resolved \<Rightarrow> Inr (res_backends resolved \<noteq> [])
             | None \<Rightarrow> Inr False)
      | None \<Rightarrow> check_healthy c service)"

definition check_condition :: "condition_checker \<Rightarrow> depends_spec \<Rightarrow> agent_error + bool" where
  "check_condition c dep =
     (case dep_condition dep of
        CondStarted \<Rightarrow> check_started c (dep_service dep)
      | CondHealthy \<Rightarrow> check_healthy c (dep_service dep)
      | CondReady \<Rightarrow> check_ready c (dep_service dep))"

section \<open>Waiting\<close>

datatype wait_result =
    Satisfied
  | TimedOutContinue
  | TimedOutWarn string dependency_condition
  | TimedOutFail string dependency_condition duration

fun is_satisfied :: "wait_result \<Rightarrow> bool" where
  "is_satisfied Satisfied = True"
| "is_satisfied _ = False"

fun should_continue :: "wait_result \<Rightarrow> bool" where
  "should_continue Satisfied = True"
| "should_continue TimedOutContinue = True"
| "should_continue (TimedOutWarn _ _) = True"
| "should_continue (TimedOutFail _ _ _) = False"

fun is_failure :: "wait_result \<Rightarrow> bool" where
  "is_failure (TimedOutFail _ _ _) = True"
| "is_failure _ = False"

record environment =
  env_checker :: "nat \<Rightarrow> condition_checker"
  env_clock :: "nat \<Rightarrow> duration"

record dependency_waiter =
  poll_interval :: duration

definition waiter_new :: dependency_waiter where
  "waiter_new = \<lparr> poll_interval = 1000000000 \<rparr>"

definition with_poll_interval :: "duration \<Rightarrow> dependency_waiter \<Rightarrow> dependency_waiter" where
  "with_poll_interval interval w = w\<lparr>poll_interval := interval\<rparr>"

definition handle_timeout :: "depends_spec \<Rightarrow> duration \<Rightarrow> wait_result" where
  "handle_timeout dep timeout =
     (case dep_on_timeout dep of
        ActFail \<Rightarrow> TimedOutFail (dep_service dep) (dep_condition dep) timeout
      | ActWarn \<Rightarrow> TimedOutWarn (dep_service dep) (dep_condition dep)
      | ActContinue \<Rightarrow> TimedOutContinue)"

partial_function (option) wait_loop ::
  "environment \<Rightarrow> depends_spec \<Rightarrow> duration \<Rightarrow> duration \<Rightarrow> nat \<Rightarrow> (wait_result \<times> nat) option" where
  "wait_loop env dep timeout start k =
     (if check_condition (env_checker env k) dep = Inr True then Some (Satisfied, Suc k)
      else if env_clock env k - start \<ge> timeout then Some (handle_timeout dep timeout, Suc k)
      else wait_loop env dep timeout start (Suc k))"

text \<open>The clock is read at step \<open>k\<close>, then polling starts; the result comes with the next step.\<close>

definition wait_for_dependency ::
  "environment \<Rightarrow> depends_spec \<Rightarrow> nat \<Rightarrow> ((agent_error + wait_result) \<times> nat) option" where
  "wait_for_dependency env dep k =
     (let timeout = (case dep_timeout dep of Some t \<Rightarrow> t | None \<Rightarrow> 300 * 1000000000);
          start = env_clock env k
      in map_option (\<lambda>(r, k'). (Inr r, k')) (wait_loop env dep timeout start (Suc k)))"

fun wait_for_all ::
  "environment \<Rightarrow> depends_spec list \<Rightarrow> nat \<Rightarrow> ((agent_error + wait_result list) \<times> nat) option" where
  "wait_for_all env [] k = Some (Inr [], k)"
| "wait_for_all env (dep # deps) k =
     (case wait_for_dependency env dep k of
        None \<Rightarrow> None
      | Some (Inl e, k') \<Rightarrow> Some (Inl e, k')
      | Some (Inr result, k') \<Rightarrow>
          if is_failure result then Some (Inr [result], k')
          else
            (case wait_for_all env deps k' of
               None \<Rightarrow> None
             | Some (Inl e, k'') \<Rightarrow> Some (Inl e, k'')
             | Some (Inr results, k'') \<Rightarrow> Some (Inr (result # results), k'')))"

section \<open>Deployment\<close>

record service_spec =
  spec_depends :: "depends_spec list"
  spec_scale :: scale_spec

fun condition_debug :: "dependency_condition \<Rightarrow> string" where
  "condition_debug CondStarted = ''Started''"
| "condition_debug CondHealthy = ''Healthy''"
| "condition_debug CondReady = ''Ready''"

fun first_failure :: "string \<Rightarrow> wait_result list \<Rightarrow> agent_error + unit" where
  "first_failure service [] = Inr ()"
| "first_failure service (result # results) =
     (case result of
        TimedOutFail dependency condition timeout \<Rightarrow>
          Inl (DependencyTimeout service dependency (condition_debug condition) timeout)
      | _ \<Rightarrow> first_failure service results)"

datatype deploy_event =
    Waited string "wait_result list"
  | Upserted string
  | Scaled string u32
  | MarkedStarted string

text \<open>The service manager builds its condition checkers without a route table.\<close>

definition without_registry :: "environment \<Rightarrow> environment" where
  "without_registry env = env\<lparr>env_checker := (\<lambda>k. (env_checker env k)\<lparr>cc_service_registry := None\<rparr>)\<rparr>"

definition wait_for_dependencies ::
  "environment \<Rightarrow> string \<Rightarrow> depends_spec list \<Rightarrow> nat \<Rightarrow> (deploy_event list \<times> (agent_error + unit) \<times> nat) option" where
  "wait_for_dependencies env service deps k =
     (case wait_for_all (without_registry env) deps k of
        None \<Rightarrow> None
      | Some (Inl e, k') \<Rightarrow> Some ([], Inl e, k')
      | Some (Inr results, k') \<Rightarrow> Some ([Waited service results], first_failure service results, k'))"

record starter =
  upsert_service :: "string \<Rightarrow> service_spec \<Rightarrow> nat \<Rightarrow> agent_error + unit"
  scale_service :: "string \<Rightarrow> u32 \<Rightarrow> nat \<Rightarrow> agent_error + unit"

definition initial_replicas :: "service_spec \<Rightarrow> u32" where
  "initial_replicas spec =
     (case spec_scale spec of Fixed replicas \<Rightarrow> replicas | Adaptive lo _ _ _ \<Rightarrow> lo | Manual \<Rightarrow> 1)"

definition start_one :: "starter \<Rightarrow> string \<Rightarrow> service_spec \<Rightarrow> nat \<Rightarrow> deploy_event list \<times> (agent_error + unit)" where
  "start_one st name spec k =
     (case upsert_service st name spec k of
        Inl e \<Rightarrow> ([Upserted name], Inl e)
      | Inr _ \<Rightarrow>
          let replicas = initial_replicas spec in
          (case scale_service st name replicas k of
             Inl e \<Rightarrow> ([Upserted name, Scaled name replicas], Inl e)
           | Inr _ \<Rightarrow> ([Upserted name, Scaled name replicas, MarkedStarted name], Inr ())))"

fun deploy_order ::
  "environment \<Rightarrow> starter \<Rightarrow> (string, service_spec) hmap \<Rightarrow> string list \<Rightarrow> nat \<Rightarrow>
   (deploy_event list \<times> (agent_error + unit)) option" where
  "deploy_order env st services [] k = Some ([], Inr ())"
| "deploy_order env st services (name # order) k =
     (case hm_get services name of
        None \<Rightarrow> Some ([], Inl (AgentInternal (''Service '' @ name @ '' not found'')))
      | Some spec \<Rightarrow>
          (case (if spec_depends spec = [] then Some ([], Inr (), k)
                 else wait_for_dependencies env name (spec_depends spec) k) of
             None \<Rightarrow> None
           | Some (ws, Inl e, _) \<Rightarrow> Some (ws, Inl e)
           | Some (ws, Inr _, k') \<Rightarrow>
               (case start_one st name spec k' of
                  (es, Inl e) \<Rightarrow> Some (ws @ es, Inl e)
                | (es, Inr _) \<Rightarrow>
                    (case deploy_order env st services order (Suc k') of
                       None \<Rightarrow> None
                     | Some (rest, r) \<Rightarrow> Some (ws @ es @ rest, r)))))"

definition deploy_with_dependencies ::
  "environment \<Rightarrow> starter \<Rightarrow> string list \<Rightarrow> (string, service_spec) hmap \<Rightarrow> nat \<Rightarrow>
   (deploy_event list \<times> (build_failure + unit)) option" where
  "deploy_with_dependencies env st keys services k =
     (if services = [] then Some ([], Inr ())
      else
        case build keys (map (\<lambda>(name, spec). (name, spec_depends spec)) services) of
          Inl f \<Rightarrow> Some ([], Inl f)
        | Inr graph \<Rightarrow>
            map_option (\<lambda>(es, r). (es, case r of Inl e \<Rightarrow> Inl (BuildError e) | Inr u \<Rightarrow> Inr u))
              (deploy_order env st services (dg_startup_order graph) k))"

fun check_each :: "condition_checker \<Rightarrow> depends_spec list \<Rightarrow> agent_error + bool" where
  "check_each c [] = Inr True"
| "check_each c (dep # deps) =
     and_then (check_condition c dep) (\<lambda>ok. if \<not> ok then Inr False else check_each c deps)"

definition check_dependencies :: "condition_checker \<Rightarrow> depends_spec list \<Rightarrow> agent_error + bool" where
  "check_dependencies c deps = check_each (c\<lparr>cc_service_registry := None\<rparr>) deps"

section \<open>Waiting returns\<close>

abbreviation wait_stops :: "environment \<Rightarrow> depends_spec \<Rightarrow> duration \<Rightarrow> duration \<Rightarrow> nat \<Rightarrow> bool" where
  "wait_stops env dep timeout start j \<equiv>
     check_condition (env_checker env j) dep = Inr True \<or> timeout \<le> env_clock env j - start"

lemma wait_loop_stops:
  assumes "wait_stops env dep timeout start (k + m)" and "\<And>j. j < m \<Longrightarrow> \<not> wait_stops env dep timeout start (k + j)"
  shows "wait_loop env dep timeout start k =
    Some (if check_condition (env_checker env (k + m)) dep = Inr True then Satisfied else handle_timeout dep timeout, Suc (k + m))"
  using assms
proof (induction m arbitrary: k)
  case 0
  then show ?case by (subst wait_loop.simps) auto
next
  case (Suc m)
  have "\<not> wait_stops env dep timeout start k" using Suc.prems(2) [of 0] by simp
  moreover have "wait_loop env dep timeout start (Suc k) =
      Some (if check_condition (env_checker env (Suc k + m)) dep = Inr True then Satisfied else handle_timeout dep timeout, Suc (Suc k + m))"
  proof (rule Suc.IH)
    show "wait_stops env dep timeout start (Suc k + m)" using Suc.prems(1) by simp
    show "\<not> wait_stops env dep timeout start (Suc k + j)" if "j < m" for j using Suc.prems(2) [of "Suc j"] that by simp
  qed
  ultimately show ?case by (subst wait_loop.simps) simp
qed

definition wait_timeout :: "depends_spec \<Rightarrow> duration" where
  "wait_timeout dep = (case dep_timeout dep of Some t \<Rightarrow> t | None \<Rightarrow> 300 * 1000000000)"

lemma wait_for_dependency_result:
  assumes "wait_stops env dep (wait_timeout dep) (env_clock env k) n" and "k < n"
  shows "\<exists>m \<le> n. k < m \<and> (\<forall>j. k < j \<and> j < m \<longrightarrow> \<not> wait_stops env dep (wait_timeout dep) (env_clock env k) j) \<and>
    wait_stops env dep (wait_timeout dep) (env_clock env k) m \<and>
    wait_for_dependency env dep k =
      Some (Inr (if check_condition (env_checker env m) dep = Inr True then Satisfied else handle_timeout dep (wait_timeout dep)), Suc m)"
proof -
  let ?P = "\<lambda>i. wait_stops env dep (wait_timeout dep) (env_clock env k) (Suc k + i)"
  have "?P (n - Suc k)" using assms by simp
  then have least: "?P (LEAST i. ?P i)" and le: "(LEAST i. ?P i) \<le> n - Suc k"
    by (rule LeastI [of ?P], rule Least_le [of ?P])
  define m where "m = Suc k + (LEAST i. ?P i)"
  have no: "\<not> ?P i" if "i < (LEAST i. ?P i)" for i using not_less_Least [OF that] .
  have "\<not> wait_stops env dep (wait_timeout dep) (env_clock env k) j" if "k < j" "j < m" for j
    using no [of "j - Suc k"] that by (simp add: m_def)
  moreover have "wait_for_dependency env dep k =
      Some (Inr (if check_condition (env_checker env m) dep = Inr True then Satisfied else handle_timeout dep (wait_timeout dep)), Suc m)"
    using wait_loop_stops [OF least no] by (simp add: wait_for_dependency_def wait_timeout_def m_def Let_def)
  moreover have "m \<le> n" "k < m" using le assms(2) by (simp_all add: m_def)
  moreover have "wait_stops env dep (wait_timeout dep) (env_clock env k) m" unfolding m_def by (rule least)
  ultimately show ?thesis by (intro exI [of _ m] conjI allI impI) (assumption | elim conjE)+
qed

text \<open>
  C29. Waiting for a dependency always ends, and rightly: when polls are at least a positive poll interval
  apart, the wait returns after at most two polls more than the timeout holds intervals; it reports
  success exactly when the last poll saw the condition, and otherwise the configured timeout action,
  not before the timeout. No earlier poll saw the condition. Errors of the condition check never
  surface.
\<close>

theorem wait_for_dependency_returns:
  assumes "0 < poll_interval w" and "env_clock env k \<le> env_clock env (Suc k)"
    and "\<And>j. k < j \<Longrightarrow> env_clock env j + poll_interval w \<le> env_clock env (Suc j)"
  shows "\<exists>n r. wait_for_dependency env dep k = Some (Inr r, Suc n) \<and>
    k < n \<and> n \<le> k + 2 + wait_timeout dep div poll_interval w \<and>
    (\<forall>j. k < j \<and> j < n \<longrightarrow> check_condition (env_checker env j) dep \<noteq> Inr True) \<and>
    (if check_condition (env_checker env n) dep = Inr True then r = Satisfied
     else r = handle_timeout dep (wait_timeout dep) \<and> wait_timeout dep \<le> env_clock env n - env_clock env k)"
proof -
  let ?T = "wait_timeout dep" and ?i = "poll_interval w"
  have grow: "env_clock env k + m * ?i \<le> env_clock env (Suc k + m)" for m
  proof (induction m)
    case (Suc m)
    with assms(3) [of "Suc k + m"] show ?case by simp
  qed (use assms(2) in simp)
  let ?n = "Suc k + Suc (?T div ?i)"
  have "?T < Suc (?T div ?i) * ?i" 
    using dividend_less_div_times [OF assms(1), of ?T] by (simp add: add.commute)
  then have "?T \<le> env_clock env ?n - env_clock env k" using grow [of "Suc (?T div ?i)"] by simp
  then have stop: "wait_stops env dep ?T (env_clock env k) ?n" and lt: "k < ?n" by simp_all
  from wait_for_dependency_result [OF stop lt] obtain m where m: "m \<le> ?n" "k < m"
    "\<forall>j. k < j \<and> j < m \<longrightarrow> \<not> wait_stops env dep ?T (env_clock env k) j" "wait_stops env dep ?T (env_clock env k) m"
    "wait_for_dependency env dep k =
      Some (Inr (if check_condition (env_checker env m) dep = Inr True then Satisfied else handle_timeout dep ?T), Suc m)" by blast
  have bound: "m \<le> k + 2 + ?T div ?i" using m(1) by simp
  show ?thesis
    by (rule exI [of _ m], rule exI, intro conjI, rule m(5), rule m(2), rule bound) (use m(3,4) in auto)
qed

definition sample_env :: environment where
  "sample_env = \<lparr> env_checker = (\<lambda>k. \<lparr> cc_container_state = (\<lambda>_. Inr Running),
       cc_health_states = (\<lambda>s. if s = ''db'' then Some HealthOk else None), cc_service_registry = None \<rparr>),
     env_clock = (\<lambda>k. k * 1000000000) \<rparr>"

theorem wait_for_dependency_returns_witness:
  "\<exists>n. wait_for_dependency sample_env (sample_dep ''api'') 5 =
     Some (Inr (TimedOutFail ''api'' CondHealthy 300000000000), Suc n) \<and> n \<le> 307"
proof -
  have no: "check_condition (env_checker sample_env j) (sample_dep ''api'') \<noteq> Inr True" for j
    by (simp add: sample_env_def sample_dep_def check_condition_def check_healthy_def)
  have t: "wait_timeout (sample_dep ''api'') = 300000000000" by (simp add: wait_timeout_def sample_dep_def)
  have clock: "env_clock sample_env k + poll_interval waiter_new \<le> env_clock sample_env (Suc k)" for k
    by (simp add: sample_env_def waiter_new_def)
  have i: "0 < poll_interval waiter_new" "300000000000 div poll_interval waiter_new = 300" by (simp_all add: waiter_new_def)
  have act: "handle_timeout (sample_dep ''api'') 300000000000 = TimedOutFail ''api'' CondHealthy 300000000000"
    by (simp add: handle_timeout_def sample_dep_def)
  from wait_for_dependency_returns [where k = 5 and dep = "sample_dep ''api''", OF i(1) add_leD1 [OF clock] clock, unfolded t i(2) act]
  obtain n r where n: "wait_for_dependency sample_env (sample_dep ''api'') 5 = Some (Inr r, Suc n)" "n \<le> 5 + 2 + 300"
    "r = TimedOutFail ''api'' CondHealthy 300000000000" using no by auto
  then show ?thesis by auto
qed

section \<open>Deployment follows the dependencies\<close>

text \<open>A clock that never goes back and passes every bound.\<close>

definition ticking :: "environment \<Rightarrow> bool" where
  "ticking env \<longleftrightarrow> (\<forall>j k. j \<le> k \<longrightarrow> env_clock env j \<le> env_clock env k) \<and> (\<forall>t. \<exists>k. t \<le> env_clock env k)"

lemma ticking_without_registry [simp]: "ticking (without_registry env) = ticking env"
  by (simp add: ticking_def without_registry_def)

lemma wait_for_dependency_total: "ticking env \<Longrightarrow> \<exists>r k'. wait_for_dependency env dep k = Some (Inr r, k')"
proof -
  assume t: "ticking env"
  then obtain n where n: "env_clock env k + wait_timeout dep \<le> env_clock env n" unfolding ticking_def by blast
  have "env_clock env n \<le> env_clock env (max n (Suc k))" using t unfolding ticking_def by simp
  with n have "wait_stops env dep (wait_timeout dep) (env_clock env k) (max n (Suc k))" by linarith
  moreover have "k < max n (Suc k)" by simp
  ultimately show ?thesis using wait_for_dependency_result by blast
qed

lemma wait_for_dependency_ok: "wait_for_dependency env dep k = Some (r, k') \<Longrightarrow> \<exists>x. r = Inr x"
  by (auto simp: wait_for_dependency_def Let_def)

lemma wait_for_all_total: "ticking env \<Longrightarrow> \<exists>rs k'. wait_for_all env deps k = Some (Inr rs, k')"
proof (induction deps arbitrary: k)
  case (Cons dep deps)
  obtain r k' where r: "wait_for_dependency env dep k = Some (Inr r, k')"
    using wait_for_dependency_total [OF Cons.prems] by blast
  obtain rs k'' where "wait_for_all env deps k' = Some (Inr rs, k'')" using Cons by blast
  with r show ?case by auto
qed simp

lemma not_failure: "\<not> is_failure r \<longleftrightarrow> should_continue r"
  by (cases r) simp_all

lemma first_failure_ok: "first_failure service rs = Inr () \<longleftrightarrow> list_all should_continue rs"
proof (induction rs)
  case (Cons r rs)
  then show ?case by (cases r) simp_all
qed simp

lemma wait_for_all_ok:
  "wait_for_all env deps k = Some (r, k') \<Longrightarrow> \<exists>rs. r = Inr rs \<and> (list_all should_continue rs \<longrightarrow> length rs = length deps)"
proof (induction deps arbitrary: k r k')
  case (Cons dep deps)
  obtain x k1 where x: "wait_for_dependency env dep k = Some (Inr x, k1)"
    using Cons.prems wait_for_dependency_ok [of env dep k] by (auto split: option.splits)
  show ?case
  proof (cases "is_failure x")
    case True
    with Cons.prems x not_failure [of x] show ?thesis by auto
  next
    case False
    then obtain r2 k2 where r2: "wait_for_all env deps k1 = Some (r2, k2)" using Cons.prems x by (auto split: option.splits)
    from Cons.IH [OF r2] obtain rs where "r2 = Inr rs" "list_all should_continue rs \<longrightarrow> length rs = length deps" by blast
    with Cons.prems x False r2 show ?thesis by auto
  qed
qed simp

lemma append_elem_cases:
  "xs @ ys = us @ x # vs \<Longrightarrow> (\<exists>ws. xs = us @ x # ws) \<or> (\<exists>ws. us = xs @ ws \<and> ys = ws @ x # vs)"
  by (auto simp: append_eq_append_conv2 Cons_eq_append_conv append_eq_Cons_conv)

lemma deploy_order_total:
  "ticking env \<Longrightarrow> \<exists>es r. deploy_order env st services order k = Some (es, r)"
proof (induction order arbitrary: k)
  case (Cons name order)
  show ?case
  proof (cases "hm_get services name")
    case (Some spec)
    obtain rs k' where "wait_for_all (without_registry env) (spec_depends spec) k = Some (Inr rs, k')"
      using wait_for_all_total [of "without_registry env" "spec_depends spec" k] Cons.prems by auto
    then have "\<exists>ws r k1. (if spec_depends spec = [] then Some ([], Inr (), k)
        else wait_for_dependencies env name (spec_depends spec) k) = Some (ws, r, k1)"
      by (simp add: wait_for_dependencies_def)
    then obtain ws r k1 where w: "(if spec_depends spec = [] then Some ([], Inr (), k)
        else wait_for_dependencies env name (spec_depends spec) k) = Some (ws, r, k1)" by (elim exE)
    obtain es q where e: "start_one st name spec k1 = (es, q)" by fastforce
    obtain es' q' where "deploy_order env st services order (Suc k1) = Some (es', q')" using Cons by blast
    with Some w e show ?thesis by (cases r; cases q) auto
  qed simp
qed simp

text \<open>What must have happened before a service is started.\<close>

definition may_start :: "(string, service_spec) hmap \<Rightarrow> deploy_event list \<Rightarrow> string \<Rightarrow> bool" where
  "may_start services before n \<longleftrightarrow> (\<exists>spec. hm_get services n = Some spec \<and>
     (\<forall>d \<in> set (spec_depends spec). MarkedStarted (dep_service d) \<in> set before) \<and>
     (spec_depends spec \<noteq> [] \<longrightarrow>
        (\<exists>results. Waited n results \<in> set before \<and> length results = length (spec_depends spec) \<and>
           list_all should_continue results)))"

abbreviation spec_deps :: "(string, service_spec) hmap \<Rightarrow> string \<Rightarrow> string list" where
  "spec_deps services n \<equiv> deps_of (map (\<lambda>(name, spec). (name, spec_depends spec)) services) n"

lemma spec_deps_eq: "spec_deps services n = (case hm_get services n of None \<Rightarrow> [] | Some spec \<Rightarrow> map dep_service (spec_depends spec))"
  by (simp add: deps_of_def map_of_map split: option.split)

lemma deploy_step_cases:
  assumes "deploy_order env st services (name # order) k = Some (es, r)" and "hm_get services name = Some spec"
  obtains (wait_failed) e where "r = Inl e" "\<And>n. Upserted n \<notin> set es"
  | (start_failed) ws es1 e where "r = Inl e" "es = ws @ Upserted name # es1" "\<And>n. Upserted n \<notin> set ws \<union> set es1"
      "spec_depends spec \<noteq> [] \<Longrightarrow> \<exists>results. Waited name results \<in> set ws \<and> length results = length (spec_depends spec) \<and> list_all should_continue results"
  | (started) ws k' es' where "deploy_order env st services order k' = Some (es', r)"
      "es = ws @ [Upserted name, Scaled name (initial_replicas spec), MarkedStarted name] @ es'" "\<And>n. Upserted n \<notin> set ws"
      "spec_depends spec \<noteq> [] \<Longrightarrow> \<exists>results. Waited name results \<in> set ws \<and> length results = length (spec_depends spec) \<and> list_all should_continue results"
proof -
  let ?w = "if spec_depends spec = [] then Some ([], Inr (), k) else wait_for_dependencies env name (spec_depends spec) k"
  obtain ws q k' where w: "?w = Some (ws, q, k')"
    using assms by (auto split: option.splits if_splits)
  have noup: "Upserted n \<notin> set ws" for n
    using w by (auto simp: wait_for_dependencies_def split: if_splits option.splits sum.splits)
  have ok: "\<exists>results. Waited name results \<in> set ws \<and> length results = length (spec_depends spec) \<and> list_all should_continue results"
    if "q = Inr ()" "spec_depends spec \<noteq> []"
    using w that wait_for_all_ok [of "without_registry env" "spec_depends spec" k] first_failure_ok [of name]
    by (auto simp: wait_for_dependencies_def split: if_splits option.splits sum.splits)
  show ?thesis
  proof (cases q)
    case (Inl e)
    with assms w noup show ?thesis by (intro wait_failed [of e]) auto
  next
    case (Inr u)
    obtain es1 q1 where s: "start_one st name spec k' = (es1, q1)" by fastforce
    show ?thesis
    proof (cases q1)
      case (Inl e)
      with s have "\<exists>es2. es1 = Upserted name # es2 \<and> (\<forall>n. Upserted n \<notin> set es2)"
        by (auto simp: start_one_def Let_def split: sum.splits)
      then obtain es2 where es2: "es1 = Upserted name # es2" "\<And>n. Upserted n \<notin> set es2" by blast
      have "r = Inl e \<and> es = ws @ es1" using assms w Inr s Inl by simp
      with es2 noup ok Inr show ?thesis by (intro start_failed [of e ws es2]) auto
    next
      case (Inr u1)
      with s have es1: "es1 = [Upserted name, Scaled name (initial_replicas spec), MarkedStarted name]"
        by (auto simp: start_one_def Let_def split: sum.splits)
      obtain es' where "deploy_order env st services order (Suc k') = Some (es', r)" "es = ws @ es1 @ es'"
        using assms w \<open>q = Inr u\<close> s Inr by (auto split: option.splits)
      with es1 noup ok \<open>q = Inr u\<close> show ?thesis by (intro started [of "Suc k'" es' ws]) auto
    qed
  qed
qed

lemma deploy_order_trace:
  assumes "deploy_order env st services order k = Some (es, r)"
    and "topo (spec_deps services) (xs @ order)" and "\<And>x. x \<in> set xs \<Longrightarrow> MarkedStarted x \<in> set P"
    and "es = before @ Upserted n # later"
  shows "may_start services (P @ before) n"
  using assms
proof (induction order arbitrary: k es xs P before)
  case Nil
  then show ?case by simp
next
  case (Cons name order)
  obtain spec where spec: "hm_get services name = Some spec"
    using Cons.prems(1,4) by (cases "hm_get services name") simp_all
  have "set (spec_deps services name) \<subseteq> set xs" using Cons.prems(2) unfolding topo_def by blast
  then have deps: "MarkedStarted (dep_service d) \<in> set P" if "d \<in> set (spec_depends spec)" for d
    using that Cons.prems(3) by (auto simp: spec_deps_eq spec)
  have may: "may_start services (P @ ws @ us) name"
    if "spec_depends spec \<noteq> [] \<Longrightarrow> \<exists>results. Waited name results \<in> set ws \<and> length results = length (spec_depends spec) \<and> list_all should_continue results"
    for ws us
    using that spec deps unfolding may_start_def by (intro exI [of _ spec]) auto
  from Cons.prems(1) spec show ?case
  proof (cases rule: deploy_step_cases)
    case (wait_failed e)
    with Cons.prems(4) show ?thesis by auto
  next
    case (start_failed ws es1 e)
    have "before = ws \<and> n = name"
      using append_elem_cases [of ws "Upserted name # es1" before "Upserted n" later] start_failed(2) start_failed(3) [of n] Cons.prems(4)
      by (auto simp: Cons_eq_append_conv)
    with may [OF start_failed(4), of "[]"] show ?thesis by simp
  next
    case (started ws k' es')
    let ?three = "[Upserted name, Scaled name (initial_replicas spec), MarkedStarted name]"
    have "ws @ ?three @ es' = before @ Upserted n # later" using started(2) Cons.prems(4) by simp
    from append_elem_cases [OF this] started(3) [of n] obtain us where
      us: "before = ws @ us" "?three @ es' = us @ Upserted n # later" by auto
    show ?thesis
    proof (cases us)
      case Nil
      with us may [OF started(4), of "[]"] show ?thesis by simp
    next
      case (Cons u us')
      with us(2) obtain us2 where us2: "us = ?three @ us2" "es' = us2 @ Upserted n # later"
        by (auto simp: Cons_eq_append_conv)
      have "may_start services ((P @ ws @ ?three) @ us2) n"
        by (rule Cons.IH [OF started(1), of "xs @ [name]"]) (use Cons.prems(2,3) us2(2) in auto)
      then show ?thesis by (simp add: us(1) us2(1))
    qed
  qed
qed

lemma deploy_order_done:
  assumes "deploy_order env st services order k = Some (es, Inr ())"
  shows "(\<forall>n \<in> set order. MarkedStarted n \<in> set es) \<and> (\<forall>n. count_list es (Upserted n) = count_list order n)"
  using assms
proof (induction order arbitrary: k es)
  case (Cons name order)
  obtain spec where spec: "hm_get services name = Some spec"
    using Cons.prems by (cases "hm_get services name") simp_all
  from Cons.prems spec show ?case
  proof (cases rule: deploy_step_cases)
    case (started ws k' es')
    have "count_list ws (Upserted n) = 0" for n using started(3) by (simp add: count_list_0_iff)
    with Cons.IH [OF started(1)] show ?thesis unfolding started(2) by (simp add: count_list_append)
  qed simp_all
qed simp

text \<open>
  C1. A deployment ends, and starts services in dependency order: as long as the clock advances it returns;
  before any service is brought up, every service it depends on has been brought up, scaled and marked
  started, and the wait for its dependencies returned one result per dependency, none of them a failure;
  when it succeeds, every service has been brought up exactly once and marked started.
\<close>

theorem deploy_follows_dependencies:
  assumes "hm_wf services" and "distinct keys" and "set keys = set (map fst services)" and "ticking env"
  shows "\<exists>events r. deploy_with_dependencies env st keys services k = Some (events, r) \<and>
    (\<forall>before n later. events = before @ Upserted n # later \<longrightarrow>
       (\<exists>spec. hm_get services n = Some spec \<and>
          (\<forall>d \<in> set (spec_depends spec). MarkedStarted (dep_service d) \<in> set before) \<and>
          (spec_depends spec \<noteq> [] \<longrightarrow>
             (\<exists>results. Waited n results \<in> set before \<and> length results = length (spec_depends spec) \<and>
                list_all should_continue results)))) \<and>
    (r = Inr () \<longrightarrow> (\<forall>n \<in> set keys. MarkedStarted n \<in> set events \<and> count_list events (Upserted n) = 1))"
proof (cases "services = []")
  case True
  then show ?thesis using assms(3) by (simp add: deploy_with_dependencies_def)
next
  case ne: False
  let ?s = "map (\<lambda>(name, spec). (name, spec_depends spec)) services"
  have keys: "map fst ?s = map fst services" by (induction services) auto
  have wf: "hm_wf ?s" "set keys = set (map fst ?s)" using assms(1,3) unfolding keys by simp_all
  show ?thesis
  proof (cases "build keys ?s")
    case (Inl f)
    with ne show ?thesis by (simp add: deploy_with_dependencies_def)
  next
    case (Inr g)
    have ok: "case (keys, ?s) of (keys, s) \<Rightarrow> hm_wf s \<and> distinct keys \<and> set keys = set (map fst s)"
      unfolding prod.case by (intro conjI wf assms(2))
    note plan = dg.plan_order [OF ok build_plan [OF Inr]]
    have topo: "topo (spec_deps services) (dg_startup_order g)" and order: "set (dg_startup_order g) = set keys"
      using plan [unfolded prod.case] wf(2) by (blast, metis)
    obtain es r where run: "deploy_order env st services (dg_startup_order g) k = Some (es, r)"
      using deploy_order_total [OF assms(4)] by blast
    have eq: "deploy_with_dependencies env st keys services k =
        Some (es, case r of Inl e \<Rightarrow> Inl (BuildError e) | Inr u \<Rightarrow> Inr u)"
      using ne Inr run by (simp add: deploy_with_dependencies_def)
    have trace: "may_start services before n" if "es = before @ Upserted n # later" for before n later
      using deploy_order_trace [OF run, of "[]" "[]" before n later] topo that by simp
    have fin: "MarkedStarted n \<in> set es \<and> count_list es (Upserted n) = 1" if "r = Inr ()" "n \<in> set keys" for n
    proof -
      have "n \<in> set (map fst ?s)" using that(2) wf(2) by blast
      then have "count_list (dg_startup_order g) n = 1"
        by (rule dg.plan_once [OF ok build_plan [OF Inr], unfolded prod.case])
      with deploy_order_done [of env st services "dg_startup_order g" k es] run that order show ?thesis by simp
    qed
    show ?thesis
      by (rule exI [of _ es], rule exI, intro conjI allI impI ballI, rule eq,
          rule trace [unfolded may_start_def], assumption) (use fin in \<open>auto split: sum.splits\<close>)
  qed
qed

definition sample_specs :: "(string, service_spec) hmap" where
  "sample_specs = map (\<lambda>(name, deps). (name, \<lparr> spec_depends = deps, spec_scale = Manual \<rparr>)) sample_services"

theorem deploy_follows_dependencies_witness:
  "\<exists>events r. deploy_with_dependencies sample_env \<lparr> upsert_service = \<lambda>_ _ _. Inr (), scale_service = \<lambda>_ _ _. Inr () \<rparr>
       [''db'', ''proxy'', ''api''] sample_specs 0 = Some (events, r) \<and>
     (\<forall>before later. events = before @ Upserted ''proxy'' # later \<longrightarrow> MarkedStarted ''db'' \<in> set before)"
proof -
  have wf: "hm_wf sample_specs" "distinct [''db'', ''proxy'', ''api'']"
    "set [''db'', ''proxy'', ''api''] = set (map fst sample_specs)"
    by (auto simp: sample_specs_def sample_services_def)
  have "\<exists>k. t \<le> env_clock sample_env k" for t by (rule exI [of _ t]) (simp add: sample_env_def)
  then have tick: "ticking sample_env" unfolding ticking_def by (simp add: sample_env_def)
  have spec: "hm_get sample_specs ''proxy'' = Some \<lparr> spec_depends = [sample_dep ''api'', sample_dep ''db''], spec_scale = Manual \<rparr>"
    by (simp add: sample_specs_def sample_services_def)
  have "dep_service (sample_dep ''db'') = ''db''" by (simp add: sample_dep_def)
  with deploy_follows_dependencies [OF wf tick, of "\<lparr> upsert_service = \<lambda>_ _ _. Inr (), scale_service = \<lambda>_ _ _. Inr () \<rparr>" 0] spec
  show ?thesis by fastforce
qed
section \<open>Readiness\<close>

lemma min_by_key_unique:
  assumes "\<forall>y \<in> set before. f x < f y" and "\<forall>y \<in> set later. f x \<le> f y"
  shows "min_by_key f (before @ x # later) = Some x"
  using assms(1)
proof (induction before)
  case Nil
  show ?case using assms(2) min_by_key_Some [of f later] by (cases "min_by_key f later") auto
next
  case (Cons b bs)
  then have "\<not> f b \<le> f x" by auto
  with Cons show ?case by simp
qed

lemma set_list_services: "set (list_services rs) = rt_service ` set rs"
proof -
  have "set (fold (\<lambda>entry seen. if rt_service entry \<notin> set seen then seen @ [rt_service entry] else seen) rs acc) =
      set acc \<union> rt_service ` set rs" for acc
    by (induction rs arbitrary: acc) auto
  then show ?thesis by (simp add: list_services_def)
qed

text \<open>
  When a dependency counts as ready: with a route table in which only the service's own routes match the
  host \<open>{service}.default\<close> at \<open>/\<close>, the \<open>ready\<close> condition holds exactly when the route such a request takes,
  the longest and then earliest registered match, exists and has a backend.
\<close>

theorem ready_exact:
  assumes "cc_service_registry c = Some (routes_run ops)"
    and "\<And>r. r \<in> set (registration_order ops) \<Longrightarrow> route_matches r (Some (service @ ''.default'')) ''/'' \<Longrightarrow> rt_service r = service"
  shows "check_ready c service = Inr
    (\<exists>before r later. filter (\<lambda>r. route_matches r (Some (service @ ''.default'')) ''/'') (registration_order ops) = before @ r # later \<and>
       (\<forall>b \<in> set before. length (rt_path_prefix b) < length (rt_path_prefix r)) \<and>
       (\<forall>l \<in> set later. length (rt_path_prefix l) \<le> length (rt_path_prefix r)) \<and>
       rt_service r = service \<and> res_backends (rt_resolved r) \<noteq> [])"
    (is "_ = Inr ?spec")
proof -
  let ?m = "\<lambda>r. route_matches r (Some (service @ ''.default'')) ''/''" and ?rs = "registration_order ops"
  have res: "resolve (routes_run ops) (Some (service @ ''.default'')) ''/'' = map_option rt_resolved (min_by_key prefix_rank (filter ?m ?rs))"
    by (simp add: routes_run_sorted resolve_filter find_sort_key)
  have mem: "service \<in> set (list_services (routes_run ops)) \<longleftrightarrow> (\<exists>r \<in> set ?rs. rt_service r = service)"
    by (auto simp: set_list_services routes_run_sorted)
  show ?thesis
  proof (cases "min_by_key prefix_rank (filter ?m ?rs)")
    case None
    then have "\<not> ?spec" by simp
    with None show ?thesis unfolding check_ready_def assms(1) option.case Let_def res by simp
  next
    case (Some r)
    from min_by_key_Some [OF Some] obtain before later where r: "r \<in> set (filter ?m ?rs)" "filter ?m ?rs = before @ r # later"
      "\<forall>b \<in> set before. prefix_rank r < prefix_rank b" "\<forall>y \<in> set (filter ?m ?rs). prefix_rank r \<le> prefix_rank y"
      by (elim conjE exE)
    have own: "rt_service r = service" "r \<in> set ?rs" using assms(2) [of r] r(1) by simp_all
    have "?spec \<longleftrightarrow> res_backends (rt_resolved r) \<noteq> []"
    proof
      assume ?spec
      then obtain b' r' l' where r': "filter ?m ?rs = b' @ r' # l'" "\<forall>b \<in> set b'. length (rt_path_prefix b) < length (rt_path_prefix r')"
        "\<forall>l \<in> set l'. length (rt_path_prefix l) \<le> length (rt_path_prefix r')" "res_backends (rt_resolved r') \<noteq> []"
        by (elim exE conjE)
      have "min_by_key prefix_rank (b' @ r' # l') = Some r'" using r'(2,3) by (intro min_by_key_unique) simp_all
      with Some r'(1,4) show "res_backends (rt_resolved r) \<noteq> []" by simp
    next
      assume "res_backends (rt_resolved r) \<noteq> []"
      moreover have "\<forall>b \<in> set before. length (rt_path_prefix b) < length (rt_path_prefix r)" using r(3) by simp
      moreover have "\<forall>l \<in> set later. length (rt_path_prefix l) \<le> length (rt_path_prefix r)" using r(4) unfolding r(2) by simp
      ultimately show ?spec using r(2) own(1) by (intro exI conjI)
    qed
    moreover have "check_ready c service = Inr (res_backends (rt_resolved r) \<noteq> [])"
      unfolding check_ready_def assms(1) option.case Let_def res Some mem using own by auto
    ultimately show ?thesis by simp
  qed
qed

definition ready_checker :: "route_op list \<Rightarrow> condition_checker" where
  "ready_checker ops = \<lparr> cc_container_state = (\<lambda>_. Inr Pending), cc_health_states = Map.empty,
     cc_service_registry = Some (routes_run ops) \<rparr>"

theorem ready_exact_witness:
  "check_ready (ready_checker [RegisterRoute (sample_route ''api'' ''/''), AddBackend ''api'' (IpV4 1, 80)]) ''api'' = Inr True"
proof -
  let ?ops = "[RegisterRoute (sample_route ''api'' ''/''), AddBackend ''api'' (IpV4 1, 80)]"
  let ?r = "set_backends [(IpV4 1, 80)] (sample_route ''api'' ''/'')"
  have order: "registration_order ?ops = [?r]" by (simp add: registration_order_def route_add_backend_def)
  have r: "rt_service ?r = ''api''" "route_matches ?r h ''/''" "res_backends (rt_resolved ?r) \<noteq> []" for h
    by (simp_all add: set_backends_def route_matches_def path_matches_def)
  have c: "cc_service_registry (ready_checker ?ops) = Some (routes_run ?ops)" by (simp add: ready_checker_def)
  have own: "rt_service q = ''api''" if "q \<in> set (registration_order ?ops)" for q using that r(1) by (simp add: order)
  have "\<exists>before q later. filter (\<lambda>q. route_matches q (Some (''api'' @ ''.default'')) ''/'') [?r] = before @ q # later \<and>
       (\<forall>b \<in> set before. length (rt_path_prefix b) < length (rt_path_prefix q)) \<and>
       (\<forall>l \<in> set later. length (rt_path_prefix l) \<le> length (rt_path_prefix q)) \<and>
       rt_service q = ''api'' \<and> res_backends (rt_resolved q) \<noteq> []"
    by (rule exI [of _ "[]"], rule exI [of _ ?r], rule exI [of _ "[]"]) (use r in simp)
  with ready_exact [OF c own] show ?thesis unfolding order by simp
qed

text \<open>
  Without that proviso the verdict can be another service's: here \<open>api\<close> has no backend, and counts as ready
  because the catch-all route of \<open>web\<close> has one.
\<close>

lemma ready_through_other_service:
  "check_ready (ready_checker [RegisterRoute (sample_route ''api'' ''/api''), RegisterRoute (sample_route ''web'' ''/''),
      AddBackend ''web'' (IpV4 1, 80)]) ''api'' = Inr True"
  by (simp add: check_ready_def ready_checker_def routes_run_def routes_new_def routes_register_def route_add_backend_def
      set_backends_def list_services_def route_matches_def path_matches_def trim_end_slashes_def starts_with_def)

end
