(* ===== verification/Floats.thy ===== *)
theory Floats
  imports Prelude Complex_Main
begin

text \<open>
  The operations of \<open>f64\<close> the scheduler uses, as a record the models take as an argument, over an arbitrary
  carrier. What is proved holds for every arithmetic, the rounding one of the hardware included; where
  a property needs a law of the order it names it as a hypothesis (\<open>f64_order_ok\<close>), and exact
  rational arithmetic is the instance its witness uses.
\<close>

section \<open>Operations\<close>

text \<open>
  \<open>f_of_uint\<close> is the conversion of an unsigned integer, \<open>f_lit m k\<close> the literal with digits \<open>m\<close> of which \<open>k\<close>
  follow the point, \<open>f_sum_start\<close> the value \<open>Iterator::sum\<close> starts from, and \<open>f_fmt1\<close> and \<open>f_display\<close> the texts of the
  formats \<open>{:.1}\<close> and \<open>{}\<close>.
\<close>

record 'f f64_ops =
  f_add :: "'f \<Rightarrow> 'f \<Rightarrow> 'f"
  f_sub :: "'f \<Rightarrow> 'f \<Rightarrow> 'f"
  f_mul :: "'f \<Rightarrow> 'f \<Rightarrow> 'f"
  f_div :: "'f \<Rightarrow> 'f \<Rightarrow> 'f"
  f_max :: "'f \<Rightarrow> 'f \<Rightarrow> 'f"
  f_midpoint :: "'f \<Rightarrow> 'f \<Rightarrow> 'f"
  f_lt :: "'f \<Rightarrow> 'f \<Rightarrow> bool"
  f_le :: "'f \<Rightarrow> 'f \<Rightarrow> bool"
  f_of_uint :: "nat \<Rightarrow> 'f"
  f_lit :: "nat \<Rightarrow> nat \<Rightarrow> 'f"
  f_sum_start :: 'f
  f_fmt1 :: "'f \<Rightarrow> string"
  f_display :: "'f \<Rightarrow> string"

definition f_sum :: "'f f64_ops \<Rightarrow> 'f list \<Rightarrow> 'f" where
  "f_sum fl xs = foldl (f_add fl) (f_sum_start fl) xs"

text \<open>\<open>f64::clamp\<close>: a value that compares with neither bound, such as NaN, is returned as it is.\<close>

definition f_clamp :: "'f f64_ops \<Rightarrow> 'f \<Rightarrow> 'f \<Rightarrow> 'f \<Rightarrow> 'f" where
  "f_clamp fl x lo hi =
     (let y = (if f_lt fl x lo then lo else x) in if f_lt fl hi y then hi else y)"

text \<open>\<open>partial_cmp(..).unwrap_or(Equal)\<close>.\<close>

definition f_cmp :: "'f f64_ops \<Rightarrow> 'f \<Rightarrow> 'f \<Rightarrow> ordering" where
  "f_cmp fl a b = (if f_lt fl a b then CmpLess else if f_lt fl b a then CmpGreater else CmpEqual)"

section \<open>Laws of the order\<close>

text \<open>
  A strict comparison followed by a weak one composes, and half of a positive 32-bit integer is less than
  it. Both hold of IEEE comparisons, where a comparison with NaN is false and halving such a number is exact.
\<close>

definition f64_order_ok :: "'f f64_ops \<Rightarrow> bool" where
  "f64_order_ok fl \<longleftrightarrow>
     (\<forall>x y z. f_lt fl x y \<longrightarrow> f_le fl y z \<longrightarrow> f_lt fl x z) \<and>
     (\<forall>n. 0 < n \<and> n < 2 ^ 32 \<longrightarrow> f_lt fl (f_mul fl (f_of_uint fl n) (f_lit fl 5 1)) (f_of_uint fl n))"

lemma half_below:
  assumes "f64_order_ok fl" and "0 < n" and "n < 2 ^ 32" and "f_le fl (f_of_uint fl n) v"
  shows "f_lt fl (f_mul fl (f_of_uint fl n) (f_lit fl 5 1)) v"
  using assms unfolding f64_order_ok_def by blast

section \<open>Exact arithmetic\<close>

definition rat_ops :: "rat f64_ops" where
  "rat_ops =
     \<lparr> f_add = (+), f_sub = (-), f_mul = (*), f_div = (/), f_max = max, f_midpoint = (\<lambda>a b. (a + b) / 2),
       f_lt = (<), f_le = (\<le>), f_of_uint = of_nat, f_lit = (\<lambda>m k. of_nat m / 10 ^ k), f_sum_start = 0,
       f_fmt1 = (\<lambda>r. show_nat (nat \<lfloor>r\<rfloor>) @ ''.'' @ show_nat (nat (\<lfloor>r * 10\<rfloor> mod 10))),
       f_display = (\<lambda>r. show_nat (nat \<lfloor>r\<rfloor>)) \<rparr>"

lemma rat_ops_sel:
  "f_add rat_ops = (+)" "f_sub rat_ops = (-)" "f_mul rat_ops = (*)" "f_div rat_ops = (/)" "f_max rat_ops = max"
  "f_lt rat_ops = (<)" "f_le rat_ops = (\<le>)" "f_of_uint rat_ops = of_nat" "f_lit rat_ops = (\<lambda>m k. of_nat m / 10 ^ k)"
  "f_sum_start rat_ops = 0" "f_midpoint rat_ops = (\<lambda>a b. (a + b) / 2)"
  by (simp_all add: rat_ops_def)

lemma rat_order_ok: "f64_order_ok rat_ops"
  unfolding f64_order_ok_def rat_ops_def by auto

end
