(* ===== verification/Autoscaler.thy ===== *)
theory Autoscaler
  imports Floats Agent_Types
begin

text \<open>
  The autoscaling loop of the scheduler: metrics aggregation and its cache
  (\<open>crates/zlayer-scheduler/src/metrics.rs\<close>), the autoscaler (\<open>autoscaler.rs\<close>), and the part of the scheduler that
  drives it (\<open>lib.rs\<close>: \<open>register_service\<close>, \<open>evaluate_service\<close>, \<open>apply_scaling\<close>, the body of \<open>run\<close>).
  What the loop meets outside itself is an argument of each evaluation: the answers of the metrics sources, the
  clock readings, whether the node leads, and the replies to the scaling request and the Raft
  proposals. Prometheus gauges and log lines are left out.
\<close>

section \<open>Errors and metrics\<close>

datatype scheduler_error =
    MetricsCollection string
  | Autoscaling string
  | RaftError string
  | ServiceNotFound string
  | InvalidConfig string
  | CooldownActive string
  | ScaleBoundsExceeded string
  | Storage string
  | Network string
  | Io string
  | AgentCommunication string
  | NotLeader
  | PlacementFailed string

text \<open>Instants are nanoseconds of a monotonic clock; \<open>elapsed\<close> saturates at zero.\<close>

type_synonym instant = nat

definition elapsed :: "instant \<Rightarrow> instant \<Rightarrow> duration" where
  "elapsed now t = now - t"

record 'f service_metrics =
  cpu_percent :: 'f
  memory_bytes :: u64
  memory_limit :: u64
  rps :: "'f option"
  metrics_at :: "instant option"

definition memory_percent :: "'f f64_ops \<Rightarrow> 'f service_metrics \<Rightarrow> 'f" where
  "memory_percent fl m =
     (if memory_limit m > 0
      then f_mul fl (f_div fl (f_of_uint fl (unat (memory_bytes m))) (f_of_uint fl (unat (memory_limit m)))) (f_lit fl 1000 1)
      else f_lit fl 0 1)"

definition is_stale :: "'f service_metrics \<Rightarrow> duration \<Rightarrow> instant \<Rightarrow> bool" where
  "is_stale m max_age now = (case metrics_at m of None \<Rightarrow> True | Some ts \<Rightarrow> elapsed now ts > max_age)"

record 'f aggregated_metrics =
  avg_cpu_percent :: 'f
  avg_memory_percent :: 'f
  total_rps :: "'f option"
  instance_count :: nat

definition aggregate :: "'f f64_ops \<Rightarrow> 'f service_metrics list \<Rightarrow> 'f aggregated_metrics" where
  "aggregate fl ms =
     (if ms = []
      then \<lparr> avg_cpu_percent = f_lit fl 0 1, avg_memory_percent = f_lit fl 0 1, total_rps = None, instance_count = 0 \<rparr>
      else let n = length ms;
               total_cpu = f_sum fl (map cpu_percent ms);
               total_memory_percent = f_sum fl (map (memory_percent fl) ms);
               rps_values = List.map_filter rps ms in
        \<lparr> avg_cpu_percent = f_div fl total_cpu (f_of_uint fl n),
          avg_memory_percent = f_div fl total_memory_percent (f_of_uint fl n),
          total_rps = (if rps_values = [] then None else Some (f_sum fl rps_values)),
          instance_count = n \<rparr>)"

record 'f metrics_collector =
  mc_cache :: "(string, 'f aggregated_metrics \<times> instant) hmap"
  mc_cache_ttl :: duration

text \<open>
  \<open>collect\<close> takes the answer each source gives if it is asked, and the clock at the look-up and at the store.
  A source that fails is skipped.
\<close>

definition collect ::
    "'f f64_ops \<Rightarrow> string \<Rightarrow> instant \<Rightarrow> instant \<Rightarrow> (scheduler_error + 'f service_metrics list) list \<Rightarrow>
     'f metrics_collector \<Rightarrow> (scheduler_error + 'f aggregated_metrics) \<times> 'f metrics_collector" where
  "collect fl service_name now_read now_store answers mc =
     (let fresh =
        (let all_metrics = concat (map (\<lambda>a. case a of Inl _ \<Rightarrow> [] | Inr ms \<Rightarrow> ms) answers) in
         if all_metrics = [] then (Inl (MetricsCollection (''No metrics available for service: '' @ service_name)), mc)
         else let aggregated = aggregate fl all_metrics in
           (Inr aggregated, mc\<lparr>mc_cache := hm_insert service_name (aggregated, now_store) (mc_cache mc)\<rparr>)) in
      case hm_get (mc_cache mc) service_name of
        Some (metrics, timestamp) \<Rightarrow> if elapsed now_read timestamp < mc_cache_ttl mc then (Inr metrics, mc) else fresh
      | None \<Rightarrow> fresh)"

definition invalidate_cache :: "string \<Rightarrow> 'f metrics_collector \<Rightarrow> 'f metrics_collector" where
  "invalidate_cache service_name mc = mc\<lparr>mc_cache := hm_remove service_name (mc_cache mc)\<rparr>"

definition clear_cache :: "'f metrics_collector \<Rightarrow> 'f metrics_collector" where
  "clear_cache mc = mc\<lparr>mc_cache := []\<rparr>"

section \<open>Decisions and moving averages\<close>

datatype scaling_decision =
    ScaleUp u32 u32 string
  | ScaleDown u32 u32 string
  | NoChange string
  | Blocked string

fun is_change :: "scaling_decision \<Rightarrow> bool" where
  "is_change (ScaleUp _ _ _) = True"
| "is_change (ScaleDown _ _ _) = True"
| "is_change _ = False"

fun target_replicas :: "scaling_decision \<Rightarrow> u32 option" where
  "target_replicas (ScaleUp _ to _) = Some to"
| "target_replicas (ScaleDown _ to _) = Some to"
| "target_replicas _ = None"

record 'f ema_calculator =
  ema_value :: 'f
  ema_alpha :: 'f
  ema_initialized :: bool

definition DEFAULT_COOLDOWN :: duration where
  "DEFAULT_COOLDOWN = 30 * 10 ^ 9"

definition DEFAULT_EMA_ALPHA :: "'f f64_ops \<Rightarrow> 'f" where
  "DEFAULT_EMA_ALPHA fl = f_lit fl 3 1"

definition ema_new :: "'f f64_ops \<Rightarrow> 'f \<Rightarrow> 'f ema_calculator" where
  "ema_new fl alpha =
     \<lparr> ema_value = f_lit fl 0 1, ema_alpha = f_clamp fl alpha (f_lit fl 1 2) (f_lit fl 99 2), ema_initialized = False \<rparr>"

definition ema_update :: "'f f64_ops \<Rightarrow> 'f \<Rightarrow> 'f ema_calculator \<Rightarrow> 'f ema_calculator" where
  "ema_update fl sample e =
     (if ema_initialized e
      then e\<lparr>ema_value := f_add fl (f_mul fl (ema_alpha e) sample)
                            (f_mul fl (f_sub fl (f_lit fl 10 1) (ema_alpha e)) (ema_value e))\<rparr>
      else e\<lparr>ema_value := sample, ema_initialized := True\<rparr>)"

definition ema_reset :: "'f f64_ops \<Rightarrow> 'f ema_calculator \<Rightarrow> 'f ema_calculator" where
  "ema_reset fl e = e\<lparr>ema_value := f_lit fl 0 1, ema_initialized := False\<rparr>"

definition ema_default :: "'f f64_ops \<Rightarrow> 'f ema_calculator" where
  "ema_default fl = ema_new fl (DEFAULT_EMA_ALPHA fl)"

section \<open>The autoscaler\<close>

record 'f service_scale_state =
  ss_current_replicas :: u32
  cpu_ema :: "'f ema_calculator"
  memory_ema :: "'f ema_calculator"
  rps_ema :: "'f ema_calculator"
  ss_last_scale_time :: "instant option"
  ss_cooldown :: duration
  ss_spec :: scale_spec

definition scale_state_new :: "'f f64_ops \<Rightarrow> scale_spec \<Rightarrow> u32 \<Rightarrow> duration \<Rightarrow> 'f service_scale_state" where
  "scale_state_new fl spec initial_replicas cooldown =
     \<lparr> ss_current_replicas = initial_replicas, cpu_ema = ema_default fl, memory_ema = ema_default fl,
       rps_ema = ema_default fl, ss_last_scale_time = None, ss_cooldown = cooldown, ss_spec = spec \<rparr>"

definition in_cooldown :: "instant \<Rightarrow> 'f service_scale_state \<Rightarrow> bool" where
  "in_cooldown now st = (case ss_last_scale_time st of None \<Rightarrow> False | Some t \<Rightarrow> elapsed now t < ss_cooldown st)"

record 'f autoscaler =
  as_services :: "(string, 'f service_scale_state) hmap"
  as_ema_alpha :: 'f

definition autoscaler_new :: "'f f64_ops \<Rightarrow> 'f autoscaler" where
  "autoscaler_new fl = \<lparr> as_services = [], as_ema_alpha = DEFAULT_EMA_ALPHA fl \<rparr>"

definition with_ema_alpha :: "'f f64_ops \<Rightarrow> 'f \<Rightarrow> 'f autoscaler" where
  "with_ema_alpha fl alpha = \<lparr> as_services = [], as_ema_alpha = f_clamp fl alpha (f_lit fl 1 2) (f_lit fl 99 2) \<rparr>"

definition spec_cooldown :: "scale_spec \<Rightarrow> duration" where
  "spec_cooldown spec =
     (case spec of Adaptive _ _ cooldown _ \<Rightarrow> (case cooldown of Some d \<Rightarrow> d | None \<Rightarrow> DEFAULT_COOLDOWN)
      | _ \<Rightarrow> DEFAULT_COOLDOWN)"

definition as_register_service ::
    "'f f64_ops \<Rightarrow> string \<Rightarrow> scale_spec \<Rightarrow> u32 \<Rightarrow> 'f autoscaler \<Rightarrow> 'f autoscaler" where
  "as_register_service fl name spec initial_replicas a =
     a\<lparr>as_services := hm_insert name (scale_state_new fl spec initial_replicas (spec_cooldown spec)) (as_services a)\<rparr>"

definition as_unregister_service :: "string \<Rightarrow> 'f autoscaler \<Rightarrow> 'f autoscaler" where
  "as_unregister_service name a = a\<lparr>as_services := hm_remove name (as_services a)\<rparr>"

text \<open>
  Each configured target adds its reason when the smoothed value reaches it, and forbids scaling down while the
  value is above half of it.
\<close>

definition check_target :: "'f f64_ops \<Rightarrow> string \<Rightarrow> 'f \<Rightarrow> nat \<Rightarrow> string list \<times> bool \<Rightarrow> string list \<times> bool" where
  "check_target fl reason v target acc =
     ((if f_le fl (f_of_uint fl target) v then fst acc @ [reason] else fst acc),
      (if f_lt fl (f_mul fl (f_of_uint fl target) (f_lit fl 5 1)) v then False else snd acc))"

definition check_cpu :: "'f f64_ops \<Rightarrow> scale_targets \<Rightarrow> 'f \<Rightarrow> string list \<times> bool \<Rightarrow> string list \<times> bool" where
  "check_cpu fl targets v acc =
     (case target_cpu targets of None \<Rightarrow> acc
      | Some t \<Rightarrow> check_target fl (''CPU '' @ f_fmt1 fl v @ ''% >= '' @ show_word t @ ''%'') v (unat t) acc)"

definition check_memory :: "'f f64_ops \<Rightarrow> scale_targets \<Rightarrow> 'f \<Rightarrow> string list \<times> bool \<Rightarrow> string list \<times> bool" where
  "check_memory fl targets v acc =
     (case target_memory targets of None \<Rightarrow> acc
      | Some t \<Rightarrow> check_target fl (''Memory '' @ f_fmt1 fl v @ ''% >= '' @ show_word t @ ''%'') v (unat t) acc)"

definition check_rps ::
    "'f f64_ops \<Rightarrow> scale_targets \<Rightarrow> u32 \<Rightarrow> 'f option \<Rightarrow> string list \<times> bool \<Rightarrow> string list \<times> bool" where
  "check_rps fl targets current r acc =
     (case (target_rps targets, r) of
        (Some t, Some v) \<Rightarrow>
          let per_instance = f_div fl v (f_of_uint fl (unat current)) in
          check_target fl (''RPS/instance '' @ f_fmt1 fl per_instance @ '' >= '' @ show_word t) per_instance (unat t) acc
      | _ \<Rightarrow> acc)"

definition compute_adaptive_decision ::
    "'f f64_ops \<Rightarrow> u32 \<Rightarrow> u32 \<Rightarrow> u32 \<Rightarrow> scale_targets \<Rightarrow> 'f \<Rightarrow> 'f \<Rightarrow> 'f option \<Rightarrow> scaling_decision" where
  "compute_adaptive_decision fl current mn mx targets cpu mem r =
     (let (scale_up_reasons, scale_down_ok) =
        check_rps fl targets current r (check_memory fl targets mem (check_cpu fl targets cpu ([], True))) in
      if scale_up_reasons \<noteq> [] \<and> current < mx
      then ScaleUp current (min (current + 1) mx) (join_strings '', '' scale_up_reasons)
      else if scale_down_ok \<and> current > mn
      then ScaleDown current (max (current - 1) mn) ''All metrics below scale-down threshold''
      else NoChange (''Within bounds (CPU: '' @ f_fmt1 fl cpu @ ''%, Mem: '' @ f_fmt1 fl mem @ ''%)''))"

definition update_emas :: "'f f64_ops \<Rightarrow> 'f aggregated_metrics \<Rightarrow> 'f service_scale_state \<Rightarrow> 'f service_scale_state" where
  "update_emas fl m st =
     st\<lparr>cpu_ema := ema_update fl (avg_cpu_percent m) (cpu_ema st),
        memory_ema := ema_update fl (avg_memory_percent m) (memory_ema st),
        rps_ema := (case total_rps m of Some r \<Rightarrow> ema_update fl r (rps_ema st) | None \<Rightarrow> rps_ema st)\<rparr>"

text \<open>
  \<open>evaluate\<close> reads the clock for the cooldown and, when it is active, once more for the time that remains;
  \<open>checked_sub(..).unwrap_or_default()\<close> is subtraction of naturals.
\<close>

definition decide :: "'f f64_ops \<Rightarrow> instant \<Rightarrow> instant \<Rightarrow> 'f aggregated_metrics \<Rightarrow> 'f service_scale_state \<Rightarrow> scaling_decision" where
  "decide fl now now' m st =
     (case ss_spec st of
        Manual \<Rightarrow> Blocked ''Manual scaling mode''
      | Fixed replicas \<Rightarrow>
          if ss_current_replicas st = replicas then NoChange ''Fixed mode: at target''
          else if replicas > ss_current_replicas st
          then ScaleUp (ss_current_replicas st) replicas (''Fixed mode: adjusting to '' @ show_word replicas @ '' replicas'')
          else ScaleDown (ss_current_replicas st) replicas (''Fixed mode: adjusting to '' @ show_word replicas @ '' replicas'')
      | Adaptive mn mx _ targets \<Rightarrow>
          if in_cooldown now st
          then Blocked (''Cooldown active: '' @
                 show_nat ((ss_cooldown st - elapsed now' (the (ss_last_scale_time st))) div 10 ^ 9) @ ''s remaining'')
          else compute_adaptive_decision fl (ss_current_replicas st) mn mx targets
                 (ema_value (cpu_ema st)) (ema_value (memory_ema st))
                 (if total_rps m = None then None else Some (ema_value (rps_ema st))))"

definition evaluate ::
    "'f f64_ops \<Rightarrow> instant \<Rightarrow> instant \<Rightarrow> string \<Rightarrow> 'f aggregated_metrics \<Rightarrow> 'f autoscaler \<Rightarrow>
     (scheduler_error + scaling_decision) \<times> 'f autoscaler" where
  "evaluate fl now now' service_name m a =
     (case hm_get (as_services a) service_name of
        None \<Rightarrow> (Inl (ServiceNotFound service_name), a)
      | Some st \<Rightarrow>
          let st' = update_emas fl m st in
          (Inr (decide fl now now' m st'), a\<lparr>as_services := hm_insert service_name st' (as_services a)\<rparr>))"

definition record_scale_action ::
    "instant \<Rightarrow> string \<Rightarrow> u32 \<Rightarrow> 'f autoscaler \<Rightarrow> (scheduler_error + unit) \<times> 'f autoscaler" where
  "record_scale_action now service_name new_replicas a =
     (case hm_get (as_services a) service_name of
        None \<Rightarrow> (Inl (ServiceNotFound service_name), a)
      | Some st \<Rightarrow>
          (Inr (), a\<lparr>as_services := hm_insert service_name
             (st\<lparr>ss_current_replicas := new_replicas, ss_last_scale_time := Some now\<rparr>) (as_services a)\<rparr>))"

definition as_current_replicas :: "string \<Rightarrow> 'f autoscaler \<Rightarrow> u32 option" where
  "as_current_replicas service_name a = map_option ss_current_replicas (hm_get (as_services a) service_name)"

definition as_is_in_cooldown :: "instant \<Rightarrow> string \<Rightarrow> 'f autoscaler \<Rightarrow> bool option" where
  "as_is_in_cooldown now service_name a = map_option (in_cooldown now) (hm_get (as_services a) service_name)"

section \<open>The scheduler loop\<close>

text \<open>
  \<open>sched_raft\<close> says whether the scheduler was created with a Raft coordinator. An evaluation of one service meets
  the world through an \<open>eval_env\<close>: \<open>execute\<close> is the reply to the request that carries out the new replica
  count, of the local agent or, in a cluster of several nodes, of the nodes the placement chose.
\<close>

record ('f, 'spec) scheduler =
  sched_metrics :: "'f metrics_collector"
  sched_autoscaler :: "'f autoscaler"
  sched_raft :: bool
  service_specs :: "(string, 'spec) hmap"

record 'f eval_env =
  leads_at_tick :: bool
  leads_at_apply :: bool
  source_answers :: "(scheduler_error + 'f service_metrics list) list"
  clk_read :: instant
  clk_store :: instant
  clk_eval :: instant
  clk_remaining :: instant
  clk_record :: instant
  execute :: "u32 \<Rightarrow> scheduler_error + unit"
  record_event :: "u32 \<Rightarrow> u32 \<Rightarrow> string \<Rightarrow> scheduler_error + unit"

definition register_service ::
    "'f f64_ops \<Rightarrow> string \<Rightarrow> scale_spec \<Rightarrow> u32 \<Rightarrow> 'spec option \<Rightarrow> (scheduler_error + unit) \<Rightarrow>
     ('f, 'spec) scheduler \<Rightarrow> (scheduler_error + unit) \<times> ('f, 'spec) scheduler" where
  "register_service fl name scale_spec initial_replicas service_spec raft_reply s =
     (let s1 = s\<lparr>sched_autoscaler := as_register_service fl name scale_spec initial_replicas (sched_autoscaler s)\<rparr>;
          s2 = (case service_spec of Some sp \<Rightarrow> s1\<lparr>service_specs := hm_insert name sp (service_specs s1)\<rparr> | None \<Rightarrow> s1) in
      (if sched_raft s then raft_reply else Inr (), s2))"

definition sched_unregister_service :: "string \<Rightarrow> ('f, 'spec) scheduler \<Rightarrow> ('f, 'spec) scheduler" where
  "sched_unregister_service name s = s\<lparr>sched_autoscaler := as_unregister_service name (sched_autoscaler s)\<rparr>"

definition evaluate_service ::
    "'f f64_ops \<Rightarrow> 'f eval_env \<Rightarrow> string \<Rightarrow> ('f, 'spec) scheduler \<Rightarrow>
     (scheduler_error + scaling_decision) \<times> ('f, 'spec) scheduler" where
  "evaluate_service fl env service_name s =
     (case collect fl service_name (clk_read env) (clk_store env) (source_answers env) (sched_metrics s) of
        (Inl e, mc) \<Rightarrow> (Inl e, s\<lparr>sched_metrics := mc\<rparr>)
      | (Inr aggregated, mc) \<Rightarrow>
          (case evaluate fl (clk_eval env) (clk_remaining env) service_name aggregated (sched_autoscaler s) of
             (r, a) \<Rightarrow> (r, s\<lparr>sched_metrics := mc, sched_autoscaler := a\<rparr>)))"

fun decision_event :: "scaling_decision \<Rightarrow> (u32 \<times> string) option" where
  "decision_event (ScaleUp from _ reason) = Some (from, reason)"
| "decision_event (ScaleDown from _ reason) = Some (from, reason)"
| "decision_event _ = None"

definition apply_scaling ::
    "'f eval_env \<Rightarrow> string \<Rightarrow> scaling_decision \<Rightarrow> ('f, 'spec) scheduler \<Rightarrow>
     (scheduler_error + unit) \<times> ('f, 'spec) scheduler" where
  "apply_scaling env service_name decision s =
     (if sched_raft s \<and> \<not> leads_at_apply env then (Inr (), s)
      else case target_replicas decision of
        None \<Rightarrow> (Inr (), s)
      | Some target \<Rightarrow>
          (case record_scale_action (clk_record env) service_name target (sched_autoscaler s) of
             (Inl e, a) \<Rightarrow> (Inl e, s\<lparr>sched_autoscaler := a\<rparr>)
           | (Inr _, a) \<Rightarrow>
               (and_then (execute env target) (\<lambda>_.
                  if sched_raft s
                  then (case decision_event decision of
                          Some (from, reason) \<Rightarrow> record_event env from target reason
                        | None \<Rightarrow> Inr ())
                  else Inr ()), s\<lparr>sched_autoscaler := a\<rparr>)))"

text \<open>
  One turn of the loop for one service, and a sequence of them: the body of a tick goes through the services,
  and the ticks follow each other. Errors are logged and the loop goes on.
\<close>

definition service_tick :: "'f f64_ops \<Rightarrow> string \<times> 'f eval_env \<Rightarrow> ('f, 'spec) scheduler \<Rightarrow> ('f, 'spec) scheduler" where
  "service_tick fl p s =
     (if sched_raft s \<and> \<not> leads_at_tick (snd p) then s
      else case evaluate_service fl (snd p) (fst p) s of
        (Inl _, s1) \<Rightarrow> s1
      | (Inr decision, s1) \<Rightarrow> if is_change decision then snd (apply_scaling (snd p) (fst p) decision s1) else s1)"

primrec run_ticks :: "'f f64_ops \<Rightarrow> (string \<times> 'f eval_env) list \<Rightarrow> ('f, 'spec) scheduler \<Rightarrow> ('f, 'spec) scheduler" where
  "run_ticks fl [] s = s"
| "run_ticks fl (p # ps) s = run_ticks fl ps (service_tick fl p s)"

section \<open>Pacing of adaptive services\<close>

text \<open>
  What the autoscaler holds of a service: when it last scaled it and to how many replicas. \<open>sched_trace\<close> lists
  the scheduler before and after each turn of the loop. A move changes the count by one, inside the
  bounds, and not before the cooldown that follows the previous move has passed.
\<close>

definition scale_view :: "string \<Rightarrow> ('f, 'spec) scheduler \<Rightarrow> (instant option \<times> u32) option" where
  "scale_view name s =
     map_option (\<lambda>st. (ss_last_scale_time st, ss_current_replicas st)) (hm_get (as_services (sched_autoscaler s)) name)"

primrec sched_trace ::
    "'f f64_ops \<Rightarrow> (string \<times> 'f eval_env) list \<Rightarrow> ('f, 'spec) scheduler \<Rightarrow> ('f, 'spec) scheduler list" where
  "sched_trace fl [] s = [s]"
| "sched_trace fl (p # ps) s = s # sched_trace fl ps (service_tick fl p s)"

definition scale_move :: "u32 \<Rightarrow> u32 \<Rightarrow> duration \<Rightarrow> instant option \<times> u32 \<Rightarrow> instant option \<times> u32 \<Rightarrow> bool" where
  "scale_move mn mx cooldown v v' \<longleftrightarrow>
     v' = v \<or>
     (case fst v' of None \<Rightarrow> False
      | Some t \<Rightarrow> (case fst v of None \<Rightarrow> True | Some t0 \<Rightarrow> cooldown \<le> elapsed t t0) \<and>
          (snd v < mx \<and> snd v' = snd v + 1 \<or> mn < snd v \<and> snd v' = snd v - 1))"

lemma word_succ_le: "(a::u32) < b \<Longrightarrow> a \<le> a + 1 \<and> a + 1 \<le> b"
  by unat_arith

lemma word_pred_ge: "(b::u32) < a \<Longrightarrow> b \<le> a - 1 \<and> a - 1 \<le> a"
  by (cases "a = 0") (simp_all add: word_le_nat_alt word_less_nat_alt unat_minus_one)

lemma target_of_adaptive:
  assumes "target_replicas (compute_adaptive_decision fl n mn mx targets cpu mem r) = Some k"
  shows "n < mx \<and> k = n + 1 \<or> mn < n \<and> k = n - 1"
  using assms word_succ_le [of n mx] word_pred_ge [of mn n]
  by (auto simp: compute_adaptive_decision_def min_def max_def split: prod.splits if_splits)

abbreviation scale_state :: "('f, 'spec) scheduler \<Rightarrow> string \<Rightarrow> 'f service_scale_state option" where
  "scale_state s name \<equiv> hm_get (as_services (sched_autoscaler s)) name"

lemma is_change_target: "is_change d \<longleftrightarrow> target_replicas d \<noteq> None"
  by (cases d) simp_all

lemma update_emas_sel [simp]:
  "ss_spec (update_emas fl m st) = ss_spec st"
  "ss_cooldown (update_emas fl m st) = ss_cooldown st"
  "ss_last_scale_time (update_emas fl m st) = ss_last_scale_time st"
  "ss_current_replicas (update_emas fl m st) = ss_current_replicas st"
  by (simp_all add: update_emas_def)

lemma apply_scaling_state:
  assumes "scale_state s service = Some st" and "target_replicas d = Some k"
  shows "scale_state (snd (apply_scaling env service d s)) name =
    (if name = service \<and> (sched_raft s \<longrightarrow> leads_at_apply env)
     then Some (st\<lparr>ss_current_replicas := k, ss_last_scale_time := Some (clk_record env)\<rparr>)
     else scale_state s name)"
  using assms by (auto simp: apply_scaling_def record_scale_action_def)

lemma evaluate_service_state:
  assumes "evaluate_service fl env service s = (r, s1)"
  shows "sched_raft s1 = sched_raft s \<and>
    (case r of Inl _ \<Rightarrow> sched_autoscaler s1 = sched_autoscaler s
     | Inr d \<Rightarrow> \<exists>m st. scale_state s service = Some st \<and> d = decide fl (clk_eval env) (clk_remaining env) m (update_emas fl m st) \<and>
         scale_state s1 = (scale_state s)(service \<mapsto> update_emas fl m st))"
  using assms
  by (auto simp: evaluate_service_def evaluate_def Let_def fun_eq_iff split: prod.splits sum.splits option.splits)

text \<open>
  A turn keeps every state but that of its service, whose averages it updates; if it scales, it
  does so to the target of the decision and at the time it records.
\<close>

definition tick_step :: "'f f64_ops \<Rightarrow> 'f eval_env \<Rightarrow> 'f service_scale_state \<Rightarrow> 'f service_scale_state \<Rightarrow> bool" where
  "tick_step fl env st st' \<longleftrightarrow>
     ss_spec st' = ss_spec st \<and> ss_cooldown st' = ss_cooldown st \<and>
     (ss_last_scale_time st' = ss_last_scale_time st \<and> ss_current_replicas st' = ss_current_replicas st \<or>
      ss_last_scale_time st' = Some (clk_record env) \<and>
      (\<exists>m. target_replicas (decide fl (clk_eval env) (clk_remaining env) m (update_emas fl m st)) = Some (ss_current_replicas st')))"

lemma tick_step_refl: "tick_step fl env st st"
  by (simp add: tick_step_def)

lemma service_tick_state:
  assumes st: "scale_state s (fst p) = Some st"
  obtains st' where "scale_state (service_tick fl p s) = (scale_state s)(fst p \<mapsto> st')" and "tick_step fl (snd p) st st'"
proof (cases "sched_raft s \<and> \<not> leads_at_tick (snd p)")
  case True
  with st show thesis by (intro that [of st]) (simp_all add: service_tick_def fun_upd_idem tick_step_refl)
next
  case lead: False
  obtain r s1 where ev: "evaluate_service fl (snd p) (fst p) s = (r, s1)" by fastforce
  note es = evaluate_service_state [OF ev]
  show thesis
  proof (cases r)
    case (Inl e)
    with lead ev es have "scale_state (service_tick fl p s) = scale_state s" by (auto simp: service_tick_def)
    with st show ?thesis by (intro that [of st]) (simp_all add: fun_upd_idem tick_step_refl)
  next
    case (Inr d)
    with es st obtain m where d: "d = decide fl (clk_eval (snd p)) (clk_remaining (snd p)) m (update_emas fl m st)"
      and s1: "scale_state s1 = (scale_state s)(fst p \<mapsto> update_emas fl m st)" by auto
    have tick: "service_tick fl p s = (if is_change d then snd (apply_scaling (snd p) (fst p) d s1) else s1)"
      using lead ev Inr by (auto simp: service_tick_def)
    show ?thesis
    proof (cases "is_change d \<and> (sched_raft s1 \<longrightarrow> leads_at_apply (snd p))")
      case True
      then obtain k where k: "target_replicas d = Some k" by (auto simp: is_change_target)
      let ?st = "update_emas fl m st\<lparr>ss_current_replicas := k, ss_last_scale_time := Some (clk_record (snd p))\<rparr>"
      have "scale_state (service_tick fl p s) = (scale_state s)(fst p \<mapsto> ?st)"
        using True apply_scaling_state [OF _ k, of s1 "fst p"] by (simp add: tick s1 fun_eq_iff)
      moreover have "tick_step fl (snd p) st ?st" using d k by (auto simp: tick_step_def)
      ultimately show ?thesis by (rule that)
    next
      case False
      then have "scale_state (service_tick fl p s) = scale_state s1" by (auto simp: tick apply_scaling_def)
      from this s1 have "scale_state (service_tick fl p s) = (scale_state s)(fst p \<mapsto> update_emas fl m st)" by (rule trans)
      then show ?thesis by (rule that) (simp add: tick_step_def)
    qed
  qed
qed

lemma service_tick_unregistered:
  assumes "scale_state s (fst p) = None"
  shows "scale_state (service_tick fl p s) = scale_state s"
proof -
  obtain r s1 where ev: "evaluate_service fl (snd p) (fst p) s = (r, s1)" by fastforce
  from evaluate_service_state [OF this] assms show ?thesis
    by (cases r) (simp_all add: service_tick_def ev)
qed

lemma service_tick_at:
  assumes "scale_state s name = Some st"
  obtains st' where "scale_state (service_tick fl p s) name = Some st'"
    and "st' = st \<or> fst p = name \<and> tick_step fl (snd p) st st'"
proof (cases "scale_state s (fst p)")
  case None
  with assms that show thesis by (simp add: service_tick_unregistered)
next
  case (Some st1)
  from service_tick_state [of s p, OF Some] obtain st'
    where "scale_state (service_tick fl p s) = (scale_state s)(fst p \<mapsto> st')" and "tick_step fl (snd p) st1 st'" .
  with assms Some that show thesis by (cases "fst p = name") auto
qed

lemma adaptive_tick_step:
  assumes step: "tick_step fl env st st'" and spec: "ss_spec st = Adaptive mn mx cd targets"
    and clock: "clk_eval env \<le> clk_record env"
  shows "scale_move mn mx (ss_cooldown st) (ss_last_scale_time st, ss_current_replicas st)
           (ss_last_scale_time st', ss_current_replicas st')"
proof (cases "ss_last_scale_time st' = ss_last_scale_time st \<and> ss_current_replicas st' = ss_current_replicas st")
  case False
  with step obtain m where t: "ss_last_scale_time st' = Some (clk_record env)"
    and k: "target_replicas (decide fl (clk_eval env) (clk_remaining env) m (update_emas fl m st)) = Some (ss_current_replicas st')"
    by (auto simp: tick_step_def)
  then have c: "\<not> in_cooldown (clk_eval env) (update_emas fl m st)" by (simp add: decide_def spec split: if_splits)
  with k have "ss_current_replicas st < mx \<and> ss_current_replicas st' = ss_current_replicas st + 1 \<or>
      mn < ss_current_replicas st \<and> ss_current_replicas st' = ss_current_replicas st - 1"
    by (intro target_of_adaptive) (simp add: decide_def spec)
  moreover have "ss_cooldown st \<le> elapsed (clk_record env) t0" if "ss_last_scale_time st = Some t0" for t0
    using c clock that by (simp add: in_cooldown_def elapsed_def)
  ultimately show ?thesis by (simp add: scale_move_def t split: option.splits)
qed (simp add: scale_move_def)

lemma scale_move_bounded:
  assumes "scale_move mn mx cd v v'" and "mn \<le> snd v \<and> snd v \<le> mx"
  shows "mn \<le> snd v' \<and> snd v' \<le> mx"
  using assms word_succ_le [of "snd v" mx] word_pred_ge [of mn "snd v"]
  unfolding scale_move_def by (auto split: option.splits)

lemma scale_views_paced:
  assumes "scale_state s name = Some st" and "ss_spec st = Adaptive mn mx cd targets"
    and "\<And>e. (name, e) \<in> set ps \<Longrightarrow> clk_eval e \<le> clk_record e"
  shows "\<exists>vs. map (scale_view name) (sched_trace fl ps s) = map Some vs \<and>
    successively (scale_move mn mx (ss_cooldown st)) vs \<and> vs \<noteq> [] \<and> hd vs = (ss_last_scale_time st, ss_current_replicas st)"
  using assms
proof (induction ps arbitrary: s st)
  case Nil
  then show ?case by (intro exI [of _ "[(ss_last_scale_time st, ss_current_replicas st)]"]) (simp add: scale_view_def)
next
  case (Cons p ps)
  from service_tick_at [OF Cons.prems(1), of fl p] obtain st'
    where st': "scale_state (service_tick fl p s) name = Some st'" "st' = st \<or> fst p = name \<and> tick_step fl (snd p) st st'" .
  have keep: "ss_spec st' = Adaptive mn mx cd targets" "ss_cooldown st' = ss_cooldown st"
    using st'(2) Cons.prems(2) by (auto simp: tick_step_def)
  from Cons.IH [OF st'(1) keep(1)] Cons.prems(3) keep(2) obtain vs where vs: "map (scale_view name) (sched_trace fl ps (service_tick fl p s)) = map Some vs"
      "successively (scale_move mn mx (ss_cooldown st)) vs" "vs \<noteq> []" "hd vs = (ss_last_scale_time st', ss_current_replicas st')"
    by auto
  have "scale_move mn mx (ss_cooldown st) (ss_last_scale_time st, ss_current_replicas st) (hd vs)"
    using st'(2) Cons.prems(3) [of "snd p"] adaptive_tick_step [of fl "snd p" st st', OF _ Cons.prems(2)] vs(4)
    by (cases p) (auto simp: scale_move_def)
  moreover have "scale_view name s = Some (ss_last_scale_time st, ss_current_replicas st)"
    by (simp add: scale_view_def Cons.prems(1))
  ultimately show ?case using vs
    by (intro exI [of _ "(ss_last_scale_time st, ss_current_replicas st) # vs"]) (simp add: successively_Cons)
qed

lemma successively_invariant:
  assumes "successively R xs" and "xs \<noteq> []" and "P (hd xs)" and step: "\<And>x y. R x y \<Longrightarrow> P x \<Longrightarrow> P y"
  shows "list_all P xs"
  using assms(1-3)
proof (induction xs)
  case (Cons x xs)
  show ?case
  proof (cases xs)
    case (Cons y ys)
    with Cons.prems have "R x y" and "P x" by simp_all
    then have "P y" by (rule step)
    with Cons Cons.prems Cons.IH show ?thesis by simp
  qed (use Cons.prems in simp)
qed simp

text \<open>
  C19. Pacing of an adaptive service. From its registration on, through any turns of the loop
  for any services, with any metrics, leadership changes and replies, the service stays registered, its replica
  count stays within its bounds if it started there, it changes by one at a time, and two changes are at least the
  cooldown apart, provided a recording is not dated before the evaluation it follows.
\<close>

theorem adaptive_service_paced:
  assumes "s = snd (register_service fl name (Adaptive mn mx cd targets) n sp reply s0)"
    and "mn \<le> n" and "n \<le> mx"
    and "\<forall>(service, env) \<in> set ps. clk_eval env \<le> clk_record env"
  shows "\<exists>vs. map (scale_view name) (sched_trace fl ps s) = map Some vs \<and> hd vs = (None, n) \<and>
    successively (scale_move mn mx (case cd of None \<Rightarrow> DEFAULT_COOLDOWN | Some d \<Rightarrow> d)) vs \<and>
    (\<forall>v \<in> set vs. mn \<le> snd v \<and> snd v \<le> mx)"
proof -
  let ?st = "scale_state_new fl (Adaptive mn mx cd targets) n (case cd of None \<Rightarrow> DEFAULT_COOLDOWN | Some d \<Rightarrow> d)"
  have "scale_state s name = Some ?st"
    by (simp add: assms(1) register_service_def as_register_service_def spec_cooldown_def Let_def split: option.splits)
  then obtain vs where vs: "map (scale_view name) (sched_trace fl ps s) = map Some vs" "vs \<noteq> []"
      "successively (scale_move mn mx (case cd of None \<Rightarrow> DEFAULT_COOLDOWN | Some d \<Rightarrow> d)) vs" "hd vs = (None, n)"
    using scale_views_paced [of s name ?st mn mx cd targets ps fl] assms(4) by (auto simp: scale_state_new_def)
  have "\<forall>v \<in> set vs. mn \<le> snd v \<and> snd v \<le> mx"
    using successively_invariant [where P = "\<lambda>v. mn \<le> snd v \<and> snd v \<le> mx", OF vs(3,2) _ scale_move_bounded]
      vs(4) assms(2,3) by (simp add: list_all_iff)
  with vs show ?thesis by blast
qed
definition ex_env :: "rat \<Rightarrow> instant \<Rightarrow> rat eval_env" where
  "ex_env cpu t =
     \<lparr> leads_at_tick = True, leads_at_apply = True,
       source_answers = [Inr [\<lparr> cpu_percent = cpu, memory_bytes = 1, memory_limit = 2, rps = None, metrics_at = Some t \<rparr>]],
       clk_read = t, clk_store = t, clk_eval = t, clk_remaining = t, clk_record = t + 1,
       execute = (\<lambda>_. Inr ()), record_event = (\<lambda>_ _ _. Inr ()) \<rparr>"

definition ex_scheduler :: "(rat, unit) scheduler" where
  "ex_scheduler =
     \<lparr> sched_metrics = \<lparr> mc_cache = [], mc_cache_ttl = 2 \<rparr>, sched_autoscaler = autoscaler_new rat_ops,
       sched_raft = False, service_specs = [] \<rparr>"

definition ex_targets :: scale_targets where
  "ex_targets = \<lparr> target_cpu = Some 50, target_memory = None, target_rps = None \<rparr>"

abbreviation ex_registered :: "scale_spec \<Rightarrow> (rat, unit) scheduler" where
  "ex_registered spec \<equiv> snd (register_service rat_ops ''web'' spec 1 None (Inr ()) ex_scheduler)"

lemmas ex_eval = ex_env_def ex_scheduler_def ex_targets_def register_service_def as_register_service_def autoscaler_new_def
  scale_state_new_def spec_cooldown_def ema_default_def ema_new_def DEFAULT_EMA_ALPHA_def service_tick_def evaluate_service_def collect_def
  aggregate_def evaluate_def update_emas_def ema_update_def decide_def in_cooldown_def elapsed_def
  compute_adaptive_decision_def check_cpu_def check_memory_def check_rps_def check_target_def apply_scaling_def
  record_scale_action_def scale_view_def rat_ops_sel f_sum_def f_clamp_def memory_percent_def map_filter_simps Let_def


lemma ex_scales_up:
  "map (scale_view ''web'') (sched_trace rat_ops [(''web'', ex_env 80 10), (''web'', ex_env 90 12), (''web'', ex_env 90 20)]
     (ex_registered (Adaptive 1 3 (Some 5) ex_targets))) =
   [Some (None, 1), Some (Some 11, 2), Some (Some 11, 2), Some (Some 21, 3)]"
  by (simp add: ex_eval)

theorem adaptive_service_paced_witness:
  "map (scale_view ''web'') (sched_trace rat_ops [(''web'', ex_env 80 10), (''web'', ex_env 90 12), (''web'', ex_env 90 20)]
     (ex_registered (Adaptive 1 3 (Some 5) ex_targets))) =
     map Some [(None, 1), (Some 11, 2), (Some 11, 2), (Some 21, 3)] \<and>
   successively (scale_move 1 3 5) [(None, 1), (Some 11, 2), (Some 11, 2), (Some 21, 3)]"
proof -
  let ?ps = "[(''web'', ex_env 80 10), (''web'', ex_env 90 12), (''web'', ex_env 90 20)]"
  have "\<forall>(service, env) \<in> set ?ps. clk_eval env \<le> clk_record env" by (simp add: ex_env_def)
  from adaptive_service_paced [of _ rat_ops "''web''" 1 3 "Some 5" ex_targets 1 None "Inr ()" ex_scheduler ?ps,
      OF refl _ _ this] ex_scales_up
  obtain vs where "map Some vs = [Some (None, 1), Some (Some 11, 2), Some (Some 11, 2), Some (Some 21, 3)]"
    and "successively (scale_move 1 3 5) vs" by force
  then show ?thesis unfolding ex_scales_up by auto
qed

section \<open>What an adaptive decision depends on\<close>

text \<open>The smoothed values that have a target, each with its target.\<close>

definition cpu_reading :: "scale_targets \<Rightarrow> 'f \<Rightarrow> ('f \<times> nat) list" where
  "cpu_reading targets cpu = (case target_cpu targets of Some t \<Rightarrow> [(cpu, unat t)] | None \<Rightarrow> [])"

definition memory_reading :: "scale_targets \<Rightarrow> 'f \<Rightarrow> ('f \<times> nat) list" where
  "memory_reading targets mem = (case target_memory targets of Some t \<Rightarrow> [(mem, unat t)] | None \<Rightarrow> [])"

definition rps_reading :: "'f f64_ops \<Rightarrow> scale_targets \<Rightarrow> u32 \<Rightarrow> 'f option \<Rightarrow> ('f \<times> nat) list" where
  "rps_reading fl targets current r =
     (case (target_rps targets, r) of
        (Some t, Some v) \<Rightarrow> [(f_div fl v (f_of_uint fl (unat current)), unat t)] | _ \<Rightarrow> [])"

definition readings :: "'f f64_ops \<Rightarrow> u32 \<Rightarrow> scale_targets \<Rightarrow> 'f \<Rightarrow> 'f \<Rightarrow> 'f option \<Rightarrow> ('f \<times> nat) list" where
  "readings fl current targets cpu mem r =
     cpu_reading targets cpu @ memory_reading targets mem @ rps_reading fl targets current r"

definition at_target :: "'f f64_ops \<Rightarrow> 'f \<times> nat \<Rightarrow> bool" where
  "at_target fl p = f_le fl (f_of_uint fl (snd p)) (fst p)"

definition above_half :: "'f f64_ops \<Rightarrow> 'f \<times> nat \<Rightarrow> bool" where
  "above_half fl p = f_lt fl (f_mul fl (f_of_uint fl (snd p)) (f_lit fl 5 1)) (fst p)"

lemma check_target_readings:
  "fst (check_target fl reason v t acc) = [] \<longleftrightarrow> fst acc = [] \<and> \<not> at_target fl (v, t)"
  "snd (check_target fl reason v t acc) \<longleftrightarrow> snd acc \<and> \<not> above_half fl (v, t)"
  by (simp_all add: check_target_def at_target_def above_half_def)

lemma check_cpu_readings:
  "fst (check_cpu fl targets v acc) = [] \<longleftrightarrow> fst acc = [] \<and> \<not> list_ex (at_target fl) (cpu_reading targets v)"
  "snd (check_cpu fl targets v acc) \<longleftrightarrow> snd acc \<and> \<not> list_ex (above_half fl) (cpu_reading targets v)"
  by (cases "target_cpu targets"; simp add: check_cpu_def cpu_reading_def check_target_readings)+

lemma check_memory_readings:
  "fst (check_memory fl targets v acc) = [] \<longleftrightarrow> fst acc = [] \<and> \<not> list_ex (at_target fl) (memory_reading targets v)"
  "snd (check_memory fl targets v acc) \<longleftrightarrow> snd acc \<and> \<not> list_ex (above_half fl) (memory_reading targets v)"
  by (cases "target_memory targets"; simp add: check_memory_def memory_reading_def check_target_readings)+

lemma check_rps_readings:
  "fst (check_rps fl targets n r acc) = [] \<longleftrightarrow> fst acc = [] \<and> \<not> list_ex (at_target fl) (rps_reading fl targets n r)"
  "snd (check_rps fl targets n r acc) \<longleftrightarrow> snd acc \<and> \<not> list_ex (above_half fl) (rps_reading fl targets n r)"
  by (cases "target_rps targets"; cases r; simp add: check_rps_def rps_reading_def check_target_readings Let_def)+

lemmas check_readings = check_cpu_readings check_memory_readings check_rps_readings

lemma readings_small: "p \<in> set (readings fl n targets cpu mem r) \<Longrightarrow> snd p < 2 ^ 32"
proof -
  have "unat (a::u8) < 2 ^ 32" "unat (b::u32) < 2 ^ 32" for a b
    using unat_bound [of a] unat_bound [of b] by simp_all
  moreover assume "p \<in> set (readings fl n targets cpu mem r)"
  ultimately show ?thesis
    by (auto simp: readings_def cpu_reading_def memory_reading_def rps_reading_def split: option.splits)
qed

lemma half_before_target:
  assumes "f64_order_ok fl" and "0 \<notin> snd ` set (readings fl n targets cpu mem r)"
    and "list_ex (at_target fl) (readings fl n targets cpu mem r)"
  shows "list_ex (above_half fl) (readings fl n targets cpu mem r)"
proof -
  from assms(3) obtain p where p: "p \<in> set (readings fl n targets cpu mem r)" "at_target fl p"
    by (auto simp: list_ex_iff)
  with assms(2) have "0 < snd p" by (metis gr0I image_eqI)
  from half_below [OF assms(1) this readings_small [OF p(1)]] p(2) have "above_half fl p"
    by (simp add: at_target_def above_half_def)
  with p(1) show ?thesis by (auto simp: list_ex_iff)
qed

text \<open>
  The adaptive decision, for targets above zero: one more replica exactly when there is room and some
  smoothed metric has reached its target; one less exactly when the count is above the minimum and no metric with
  a target is above half of it; no change otherwise.
\<close>

theorem adaptive_decision_exact:
  assumes "f64_order_ok fl" and "0 \<notin> snd ` set (readings fl n targets cpu mem r)"
    and "d = compute_adaptive_decision fl n mn mx targets cpu mem r"
    and "up \<longleftrightarrow> n < mx \<and> list_ex (at_target fl) (readings fl n targets cpu mem r)"
    and "down \<longleftrightarrow> mn < n \<and> \<not> list_ex (above_half fl) (readings fl n targets cpu mem r)"
  shows "((\<exists>why. d = ScaleUp n (n + 1) why) \<longleftrightarrow> up) \<and> ((\<exists>why. d = ScaleDown n (n - 1) why) \<longleftrightarrow> down) \<and>
    ((\<exists>why. d = NoChange why) \<longleftrightarrow> \<not> up \<and> \<not> down)"
proof -
  obtain whys ok where acc: "check_rps fl targets n r (check_memory fl targets mem (check_cpu fl targets cpu ([], True))) = (whys, ok)"
    by fastforce
  have "whys \<noteq> [] \<longleftrightarrow> list_ex (at_target fl) (readings fl n targets cpu mem r)"
    and "ok \<longleftrightarrow> \<not> list_ex (above_half fl) (readings fl n targets cpu mem r)"
    using arg_cong [OF acc, of "\<lambda>p. fst p = []"] arg_cong [OF acc, of snd] by (auto simp: readings_def check_readings)
  moreover have "n < mx \<Longrightarrow> min (n + 1) mx = n + 1" "mn < n \<Longrightarrow> max (n - 1) mn = n - 1"
    using word_succ_le [of n mx] word_pred_ge [of mn n] by (simp_all add: min_absorb1 max_absorb1)
  ultimately show ?thesis using acc half_before_target [OF assms(1,2)]
    unfolding assms(3-5) compute_adaptive_decision_def by auto
qed

theorem adaptive_decision_exact_witness:
  "(\<exists>why. compute_adaptive_decision rat_ops 2 1 3 ex_targets 60 0 None = ScaleUp 2 3 why) \<and>
   (\<exists>why. compute_adaptive_decision rat_ops 2 1 3 ex_targets 20 0 None = ScaleDown 2 1 why)"
  using adaptive_decision_exact [of rat_ops 2 ex_targets 60 0 None _ 1 3, OF rat_order_ok _ refl refl refl]
    adaptive_decision_exact [of rat_ops 2 ex_targets 20 0 None _ 1 3, OF rat_order_ok _ refl refl refl]
  by (simp add: readings_def cpu_reading_def memory_reading_def rps_reading_def ex_targets_def at_target_def above_half_def
      rat_ops_sel)

section \<open>Fixed services\<close>

lemma run_ticks_append: "run_ticks fl (ps @ qs) s = run_ticks fl qs (run_ticks fl ps s)"
  by (induction ps arbitrary: s) simp_all

lemma collect_available:
  assumes "Inr ms \<in> set answers" and "ms \<noteq> []"
  shows "\<exists>m mc'. collect fl service t t' answers mc = (Inr m, mc')"
proof -
  from assms have "concat (map (\<lambda>a. case a of Inl _ \<Rightarrow> [] | Inr ms \<Rightarrow> ms) answers) \<noteq> []" by force
  then show ?thesis unfolding collect_def Let_def by (auto split: option.split prod.split)
qed

lemma fixed_decide:
  assumes "ss_spec st = Fixed k"
  shows "target_replicas (decide fl t t' m (update_emas fl m st)) = (if ss_current_replicas st = k then None else Some k)"
  using assms by (simp add: decide_def)

lemma fixed_kept:
  assumes "scale_state s name = Some st" and "ss_spec st = Fixed k"
  shows "\<exists>st'. scale_state (run_ticks fl ps s) name = Some st' \<and> ss_spec st' = Fixed k \<and>
    (ss_current_replicas st = k \<longrightarrow> ss_current_replicas st' = k)"
  using assms
proof (induction ps arbitrary: s st)
  case (Cons p ps)
  from service_tick_at [OF Cons.prems(1), of fl p] obtain st'
    where st': "scale_state (service_tick fl p s) name = Some st'" "st' = st \<or> fst p = name \<and> tick_step fl (snd p) st st'" .
  then have "ss_spec st' = Fixed k" "ss_current_replicas st = k \<longrightarrow> ss_current_replicas st' = k"
    using Cons.prems(2) fixed_decide [OF Cons.prems(2)] by (auto simp: tick_step_def split: if_splits)
  with Cons.IH [OF st'(1)] show ?case by auto
qed simp

lemma fixed_tick:
  assumes st: "scale_state s name = Some st" and spec: "ss_spec st = Fixed k"
    and env: "leads_at_tick env" "leads_at_apply env" "Inr ms \<in> set (source_answers env)" "ms \<noteq> []"
  obtains st' where "scale_state (service_tick fl (name, env) s) name = Some st'" and "ss_spec st' = Fixed k"
    and "ss_current_replicas st' = k"
proof -
  from collect_available [OF env(3,4)] obtain m mc'
    where "collect fl name (clk_read env) (clk_store env) (source_answers env) (sched_metrics s) = (Inr m, mc')" by blast
  then have ev: "evaluate_service fl env name s = (Inr (decide fl (clk_eval env) (clk_remaining env) m (update_emas fl m st)),
      s\<lparr>sched_metrics := mc', sched_autoscaler := (sched_autoscaler s)\<lparr>as_services :=
        hm_insert name (update_emas fl m st) (as_services (sched_autoscaler s))\<rparr>\<rparr>)"
    using st by (simp add: evaluate_service_def evaluate_def Let_def)
  show thesis
  proof (cases "ss_current_replicas st = k")
    case True
    then show ?thesis using ev env spec fixed_decide [OF spec, of fl "clk_eval env" "clk_remaining env" m]
      by (intro that [of "update_emas fl m st"]) (simp_all add: service_tick_def is_change_target)
  next
    case False
    with fixed_decide [OF spec, of fl "clk_eval env" "clk_remaining env" m]
    have k: "target_replicas (decide fl (clk_eval env) (clk_remaining env) m (update_emas fl m st)) = Some k" by simp
    show ?thesis using ev env spec k
      by (intro that [of "update_emas fl m st\<lparr>ss_current_replicas := k, ss_last_scale_time := Some (clk_record env)\<rparr>"])
         (simp_all add: service_tick_def is_change_target apply_scaling_state)
  qed
qed

text \<open>
  C33. A fixed service settles: one turn of the loop on a leading node with some metrics at hand brings the
  recorded replica count to the configured one, whatever came before; it stays there through all later turns, and
  no later evaluation asks for a change. The reply to the scaling request plays no part in it: a request that
  failed is not made again.
\<close>

theorem fixed_service_settles:
  assumes "s = snd (register_service fl name (Fixed k) n sp reply s0)"
    and "leads_at_tick env" and "leads_at_apply env" and "Inr ms \<in> set (source_answers env)" and "ms \<noteq> []"
    and "s' = run_ticks fl (before @ (name, env) # after) s"
  shows "as_current_replicas name (sched_autoscaler s') = Some k \<and>
    (case fst (evaluate_service fl env' name s') of Inl _ \<Rightarrow> True | Inr d \<Rightarrow> \<not> is_change d)"
proof -
  let ?st = "scale_state_new fl (Fixed k) n DEFAULT_COOLDOWN"
  have "scale_state s name = Some ?st"
    by (simp add: assms(1) register_service_def as_register_service_def spec_cooldown_def Let_def split: option.splits)
  from fixed_kept [OF this, of k fl before] obtain st1
    where "scale_state (run_ticks fl before s) name = Some st1" "ss_spec st1 = Fixed k" by (auto simp: scale_state_new_def)
  from fixed_tick [OF this assms(2-5), of fl] obtain st2
    where st2: "scale_state (service_tick fl (name, env) (run_ticks fl before s)) name = Some st2" "ss_spec st2 = Fixed k"
      "ss_current_replicas st2 = k" .
  from fixed_kept [OF st2(1,2), of fl after] st2(3) obtain st3
    where st3: "scale_state s' name = Some st3" "ss_spec st3 = Fixed k" "ss_current_replicas st3 = k"
    by (auto simp: assms(6) run_ticks_append)
  obtain r s1 where ev: "evaluate_service fl env' name s' = (r, s1)" by fastforce
  have "\<not> is_change d" if "r = Inr d" for d
    using evaluate_service_state [OF ev] that st3 fixed_decide [OF st3(2)] by (auto simp: is_change_target)
  with st3 ev show ?thesis by (cases r) (simp_all add: as_current_replicas_def)
qed

theorem fixed_service_settles_witness:
  "as_current_replicas ''web'' (sched_autoscaler (run_ticks rat_ops [(''web'', (ex_env 10 7)\<lparr>execute := \<lambda>_. Inl (AgentCommunication ''down'')\<rparr>)]
     (ex_registered (Fixed 4)))) = Some 4"
  using fixed_service_settles [of _ rat_ops "''web''" 4 1 None "Inr ()" ex_scheduler
      "(ex_env 10 7)\<lparr>execute := \<lambda>_. Inl (AgentCommunication ''down'')\<rparr>" _ _ "[]" "[]", OF refl _ _ _ _ refl]
  by (simp add: ex_env_def)

end
