(* ===== verification/Placement_State.thy ===== *)
theory Placement_State
  imports Cluster_State Autoscaler
begin

text \<open>
  The data of the placement algorithm, \<open>crates/zlayer-scheduler/src/placement.rs\<close>: containers and where they are
  placed, the resources of a node with the allocation of its GPUs, and the parts of a service specification
  the algorithm reads (\<open>crates/zlayer-types/src/spec/types.rs\<close>), with the parser of memory sizes
  (\<open>spec/validate.rs\<close>). Container images and commands are carried along unread and are type variables.
\<close>

section \<open>Specifications\<close>

datatype node_mode = Shared | Dedicated | Exclusive

datatype group_affinity = Spread | Pack | Pin string

datatype scheduling_policy = BestEffort | Gang | SpreadGpus

datatype gpu_sharing_mode = ExclusiveGpu | Mps | TimeSlice

record node_selector =
  sel_labels :: "(string, string) hmap"
  sel_prefer_labels :: "(string, string) hmap"

record target_platform =
  tp_os :: os_kind
  tp_arch :: arch_kind
  tp_os_version :: "string option"

fun os_oci_str :: "os_kind \<Rightarrow> string" where
  "os_oci_str Linux = ''linux''"
| "os_oci_str Windows = ''windows''"
| "os_oci_str Macos = ''darwin''"

fun os_from_oci_str :: "string \<Rightarrow> os_kind option" where
  "os_from_oci_str s =
     (if s = ''linux'' then Some Linux else if s = ''windows'' then Some Windows
      else if s = ''darwin'' then Some Macos else None)"

fun arch_oci_str :: "arch_kind \<Rightarrow> string" where
  "arch_oci_str Amd64 = ''amd64''"
| "arch_oci_str Arm64 = ''arm64''"

definition platform_display :: "target_platform \<Rightarrow> string" where
  "platform_display p = os_oci_str (tp_os p) @ ''/'' @ arch_oci_str (tp_arch p)"

text \<open>The fields placement reads of a GPU request, a resource request, a service and a replica group.\<close>

record gpu_spec =
  gs_count :: u32
  gs_vendor :: string
  gs_model :: "string option"
  gs_scheduling :: "scheduling_policy option"
  gs_sharing :: "gpu_sharing_mode option"

record 'f resources_spec =
  rs_cpu :: "'f option"
  rs_memory :: "string option"
  rs_gpu :: "gpu_spec option"

record ('f, 'i, 'c) place_spec =
  ps_image :: 'i
  ps_command :: 'c
  ps_env :: "(string, string) hmap"
  ps_platform :: "target_platform option"
  ps_node_mode :: node_mode
  ps_node_selector :: "node_selector option"
  ps_resources :: "'f resources_spec"
  ps_affinity :: "group_affinity option"

record ('f, 'i, 'c) replica_group =
  rg_role :: string
  rg_count :: u32
  rg_image :: "'i option"
  rg_env :: "(string, string) hmap"
  rg_command :: "'c option"
  rg_resources :: "'f resources_spec option"
  rg_affinity :: group_affinity

definition memory_suffixes :: "(string \<times> u64) list" where
  "memory_suffixes = [(''Ki'', 1024), (''Mi'', 1024 * 1024), (''Gi'', 1024 * 1024 * 1024), (''Ti'', 1024 * 1024 * 1024 * 1024)]"

fun memory_with_suffix :: "string \<Rightarrow> (string \<times> u64) list \<Rightarrow> u64 option" where
  "memory_with_suffix s [] = None"
| "memory_with_suffix s ((suffix, mult) # rest) =
     (case strip_suffix s suffix of
        Some numeric \<Rightarrow> Option.bind (parse_uint numeric) (\<lambda>n. checked_mul n mult)
      | None \<Rightarrow> memory_with_suffix s rest)"

definition memory_string_to_bytes :: "string \<Rightarrow> u64 option" where
  "memory_string_to_bytes s = memory_with_suffix s memory_suffixes"

text \<open>The validation of a memory size in a specification; only whether it succeeds is kept of it.\<close>

definition validate_memory :: "string \<Rightarrow> bool" where
  "validate_memory s =
     (case find (\<lambda>suffix. ends_with s suffix) [''Ki'', ''Mi'', ''Gi'', ''Ti''] of
        Some suffix \<Rightarrow> (case (parse_uint (take (length s - length suffix) s) :: u64 option) of Some n \<Rightarrow> n > 0 | None \<Rightarrow> False)
      | None \<Rightarrow> False)"

section \<open>Node resources\<close>

datatype gpu_allocation = GpuFree | GpuExclusive | GpuShared u32 u32

fun gpu_is_available :: "gpu_allocation \<Rightarrow> bool" where
  "gpu_is_available GpuFree = True"
| "gpu_is_available GpuExclusive = False"
| "gpu_is_available (GpuShared current mx) = (current < mx)"

fun gpu_is_free :: "gpu_allocation \<Rightarrow> bool" where
  "gpu_is_free GpuFree = True"
| "gpu_is_free _ = False"

record 'f node_resources =
  nr_cpu_total :: 'f
  nr_cpu_used :: 'f
  nr_memory_total :: u64
  nr_memory_used :: u64
  nr_gpu_total :: u32
  nr_gpu_used :: u32
  nr_gpu_models :: "string list"
  nr_gpu_memory_mb :: u64
  nr_gpu_vendor :: string
  nr_gpu_allocated :: "gpu_allocation list"

definition node_resources_new :: "'f f64_ops \<Rightarrow> 'f \<Rightarrow> u64 \<Rightarrow> 'f node_resources" where
  "node_resources_new fl cpu mem =
     \<lparr> nr_cpu_total = cpu, nr_cpu_used = f_lit fl 0 1, nr_memory_total = mem, nr_memory_used = 0, nr_gpu_total = 0,
       nr_gpu_used = 0, nr_gpu_models = [], nr_gpu_memory_mb = 0, nr_gpu_vendor = [], nr_gpu_allocated = [] \<rparr>"

definition cpu_available :: "'f f64_ops \<Rightarrow> 'f node_resources \<Rightarrow> 'f" where
  "cpu_available fl r = f_max fl (f_sub fl (nr_cpu_total r) (nr_cpu_used r)) (f_lit fl 0 1)"

definition memory_available :: "'f node_resources \<Rightarrow> u64" where
  "memory_available r = sat_sub (nr_memory_total r) (nr_memory_used r)"

definition cpu_utilization :: "'f f64_ops \<Rightarrow> 'f node_resources \<Rightarrow> 'f" where
  "cpu_utilization fl r =
     (if f_lt fl (f_lit fl 0 1) (nr_cpu_total r)
      then f_mul fl (f_div fl (nr_cpu_used r) (nr_cpu_total r)) (f_lit fl 1000 1) else f_lit fl 0 1)"

definition memory_utilization :: "'f f64_ops \<Rightarrow> 'f node_resources \<Rightarrow> 'f" where
  "memory_utilization fl r =
     (if nr_memory_total r > 0
      then f_mul fl (f_div fl (f_of_uint fl (unat (nr_memory_used r))) (f_of_uint fl (unat (nr_memory_total r)))) (f_lit fl 1000 1)
      else f_lit fl 0 1)"

definition utilization :: "'f f64_ops \<Rightarrow> 'f node_resources \<Rightarrow> 'f" where
  "utilization fl r = f_midpoint fl (cpu_utilization fl r) (memory_utilization fl r)"

definition gpu_available :: "'f node_resources \<Rightarrow> u32" where
  "gpu_available r =
     (if nr_gpu_allocated r = [] then sat_sub (nr_gpu_total r) (nr_gpu_used r)
      else word_of_nat (length (filter gpu_is_available (nr_gpu_allocated r))))"

text \<open>
  \<open>pick_gpus\<close> is the loop that collects available indices and stops as soon as there are as many as asked for;
  \<open>mark_gpu\<close> is what happens to the slot of each.
\<close>

fun pick_gpus :: "nat \<Rightarrow> nat \<Rightarrow> gpu_allocation list \<Rightarrow> u32 list \<Rightarrow> u32 list" where
  "pick_gpus count i [] indices = indices"
| "pick_gpus count i (a # as) indices =
     (if gpu_is_available a
      then (let indices' = indices @ [word_of_nat i] in
            if length indices' = count then indices' else pick_gpus count (Suc i) as indices')
      else pick_gpus count (Suc i) as indices)"

fun mark_gpu :: "gpu_sharing_mode option \<Rightarrow> gpu_allocation \<Rightarrow> gpu_allocation" where
  "mark_gpu None _ = GpuExclusive"
| "mark_gpu (Some ExclusiveGpu) _ = GpuExclusive"
| "mark_gpu (Some Mps) GpuFree = GpuShared 1 8"
| "mark_gpu (Some Mps) (GpuShared current mx) = GpuShared (current + 1) mx"
| "mark_gpu (Some Mps) GpuExclusive = GpuExclusive"
| "mark_gpu (Some TimeSlice) GpuFree = GpuShared 1 4"
| "mark_gpu (Some TimeSlice) (GpuShared current mx) = GpuShared (current + 1) mx"
| "mark_gpu (Some TimeSlice) GpuExclusive = GpuExclusive"

definition on_slots :: "(gpu_allocation \<Rightarrow> gpu_allocation) \<Rightarrow> u32 list \<Rightarrow> gpu_allocation list \<Rightarrow> gpu_allocation list" where
  "on_slots f indices slots = fold (\<lambda>idx s. s[unat idx := f (s ! unat idx)]) indices slots"

definition count_used :: "gpu_allocation list \<Rightarrow> u32" where
  "count_used slots = word_of_nat (length (filter (\<lambda>a. \<not> gpu_is_free a) slots))"

definition allocate_gpus ::
    "u32 \<Rightarrow> gpu_sharing_mode option \<Rightarrow> 'f node_resources \<Rightarrow> u32 list option \<times> 'f node_resources" where
  "allocate_gpus count sharing r =
     (let indices = pick_gpus (unat count) 0 (nr_gpu_allocated r) [] in
      if length indices = unat count
      then let slots = on_slots (mark_gpu sharing) indices (nr_gpu_allocated r) in
        (Some indices, r\<lparr>nr_gpu_allocated := slots, nr_gpu_used := count_used slots\<rparr>)
      else (None, r))"

definition is_unified_memory :: "'f node_resources \<Rightarrow> bool" where
  "is_unified_memory r = eq_ignore_ascii_case (nr_gpu_vendor r) ''apple''"

definition total_effective_memory_mb :: "'f node_resources \<Rightarrow> u64" where
  "total_effective_memory_mb r =
     (let system_mb = nr_memory_total r div (1024 * 1024) in
      if is_unified_memory r then system_mb else system_mb + nr_gpu_memory_mb r)"

section \<open>Nodes\<close>

record 'f node_state =
  ns_id :: node_id
  ns_address :: string
  ns_labels :: "string \<rightharpoonup> string"
  ns_resources :: "'f node_resources"
  ns_healthy :: bool
  ns_os :: "os_kind option"
  ns_arch :: "arch_kind option"

definition matches_required_labels :: "'f node_state \<Rightarrow> node_selector \<Rightarrow> bool" where
  "matches_required_labels n sel = list_all (\<lambda>(k, v). ns_labels n k = Some v) (sel_labels sel)"

definition preferred_label_score :: "'f node_state \<Rightarrow> node_selector \<Rightarrow> nat" where
  "preferred_label_score n sel = length (filter (\<lambda>(k, v). ns_labels n k = Some v) (sel_prefer_labels sel))"

text \<open>
  The registry of the cluster as placement sees it, from the entries of the node map in the order they are
  iterated.
\<close>

definition node_info_state :: "'f f64_ops \<Rightarrow> 'f node_info \<Rightarrow> 'f node_state" where
  "node_info_state fl n =
     (let gpu_count = word_of_nat (length (ni_gpus n)) :: u32 in
      \<lparr> ns_id = ni_node_id n, ns_address = ni_advertise_addr n, ns_labels = ni_labels n,
        ns_resources =
          (node_resources_new fl (cpu_total n) (memory_total n))
            \<lparr> nr_cpu_used := cpu_used n, nr_memory_used := memory_used n, nr_gpu_total := gpu_count,
              nr_gpu_allocated := replicate (unat gpu_count) GpuFree, nr_gpu_models := map gpu_model (ni_gpus n),
              nr_gpu_memory_mb := sum_list (map gpu_memory_mb (ni_gpus n)),
              nr_gpu_vendor := (case ni_gpus n of g # _ \<Rightarrow> gpu_vendor g | [] \<Rightarrow> []) \<rparr>,
        ns_healthy = True, ns_os = ni_os n, ns_arch = ni_arch n \<rparr>)"

definition cluster_nodes_to_node_states :: "'f f64_ops \<Rightarrow> (node_id, 'f node_info) hmap \<Rightarrow> 'f node_state list" where
  "cluster_nodes_to_node_states fl nodes = map (node_info_state fl) (filter (\<lambda>n. ni_status n = ''ready'') (map snd nodes))"

section \<open>Placements\<close>

record placed_id =
  pid_service :: string
  pid_replica :: u32

definition placed_id_display :: "placed_id \<Rightarrow> string" where
  "placed_id_display c = pid_service c @ ''-'' @ show_word (pid_replica c)"

record placement_state =
  node_containers :: "node_id \<rightharpoonup> placed_id list"
  container_nodes :: "placed_id \<rightharpoonup> node_id"

definition placement_state_new :: placement_state where
  "placement_state_new = \<lparr> node_containers = Map.empty, container_nodes = Map.empty \<rparr>"

definition containers_on_node :: "placement_state \<Rightarrow> node_id \<Rightarrow> placed_id list" where
  "containers_on_node ps n = (case node_containers ps n of Some cs \<Rightarrow> cs | None \<Rightarrow> [])"

definition place :: "placed_id \<Rightarrow> node_id \<Rightarrow> placement_state \<Rightarrow> placement_state" where
  "place c n ps =
     \<lparr> node_containers = (node_containers ps)(n \<mapsto> containers_on_node ps n @ [c]),
       container_nodes = (container_nodes ps)(c \<mapsto> n) \<rparr>"

definition node_for_container :: "placement_state \<Rightarrow> placed_id \<Rightarrow> node_id option" where
  "node_for_container ps c = container_nodes ps c"

definition has_service_on_node :: "placement_state \<Rightarrow> node_id \<Rightarrow> string \<Rightarrow> bool" where
  "has_service_on_node ps n service = list_ex (\<lambda>c. pid_service c = service) (containers_on_node ps n)"

definition has_any_containers :: "placement_state \<Rightarrow> node_id \<Rightarrow> bool" where
  "has_any_containers ps n \<longleftrightarrow> containers_on_node ps n \<noteq> []"

definition container_count :: "placement_state \<Rightarrow> node_id \<Rightarrow> nat" where
  "container_count ps n = length (containers_on_node ps n)"

definition service_count_on_node :: "placement_state \<Rightarrow> node_id \<Rightarrow> string \<Rightarrow> nat" where
  "service_count_on_node ps n service = length (filter (\<lambda>c. pid_service c = service) (containers_on_node ps n))"

definition remove_placements :: "placed_id list \<Rightarrow> (placed_id \<rightharpoonup> node_id) \<Rightarrow> (placed_id \<rightharpoonup> node_id)" where
  "remove_placements cs m = fold (\<lambda>c m. m(c := None)) cs m"

definition remove_node :: "node_id \<Rightarrow> placement_state \<Rightarrow> placed_id list \<times> placement_state" where
  "remove_node n ps =
     (let removed = containers_on_node ps n in
      (removed, \<lparr> node_containers = (node_containers ps)(n := None),
                  container_nodes = remove_placements removed (container_nodes ps) \<rparr>))"

text \<open>
  The loop of \<open>remove_service_from_node\<close>: \<open>swap_remove(i)\<close> moves the last element to place \<open>i\<close>, and the loop looks
  at it next. The measure is the distance of \<open>i\<close> to the end.
\<close>

definition swap_remove :: "nat \<Rightarrow> 'a list \<Rightarrow> 'a list" where
  "swap_remove i xs = butlast (xs[i := last xs])"

function drain_service :: "string \<Rightarrow> nat \<Rightarrow> placed_id list \<Rightarrow> placed_id list \<Rightarrow> placed_id list \<times> placed_id list" where
  "drain_service service i cs removed =
     (if i < length cs
      then if pid_service (cs ! i) = service
        then drain_service service i (swap_remove i cs) (removed @ [cs ! i])
        else drain_service service (Suc i) cs removed
      else (cs, removed))"
  by pat_completeness auto
termination by (relation "measure (\<lambda>(_, i, cs, _). length cs - i)") (auto simp: swap_remove_def)

declare drain_service.simps [simp del]

definition remove_service_from_node :: "node_id \<Rightarrow> string \<Rightarrow> placement_state \<Rightarrow> placed_id list \<times> placement_state" where
  "remove_service_from_node n service ps =
     (case node_containers ps n of
        None \<Rightarrow> ([], ps)
      | Some cs \<Rightarrow>
          let (left, removed) = drain_service service 0 cs [] in
          (removed, \<lparr> node_containers = (node_containers ps)(n := (if left = [] then None else Some left)),
                      container_nodes = remove_placements removed (container_nodes ps) \<rparr>))"

section \<open>Lemmas on placements\<close>

lemma containers_place [simp]:
  "containers_on_node (place c n ps) = (containers_on_node ps)(n := containers_on_node ps n @ [c])"
  by (rule ext) (simp add: containers_on_node_def place_def)

lemma container_nodes_place [simp]: "container_nodes (place c n ps) = (container_nodes ps)(c \<mapsto> n)"
  by (simp add: place_def)

lemma has_service_iff: "has_service_on_node ps n s \<longleftrightarrow> 0 < service_count_on_node ps n s"
  by (simp add: has_service_on_node_def service_count_on_node_def list_ex_iff filter_empty_conv)

lemma remove_placements_eq: "remove_placements cs m = (\<lambda>c. if c \<in> set cs then None else m c)"
  unfolding remove_placements_def by (induction cs arbitrary: m) auto

lemma swap_remove_append: "swap_remove (length xs) (xs @ y # ys) = xs @ swap_remove 0 (y # ys)"
  by (cases ys rule: rev_cases) (simp_all add: swap_remove_def list_update_append butlast_append)

lemma set_swap_remove_0: "set (swap_remove 0 (y # ys)) = set ys"
  by (cases ys rule: rev_cases) (auto simp: swap_remove_def)

lemma length_swap_remove [simp]: "length (swap_remove i xs) = length xs - 1"
  by (simp add: swap_remove_def)

lemma drain_service_tail:
  assumes "\<And>c. c \<in> set xs \<Longrightarrow> pid_service c \<noteq> service" and "\<And>c. c \<in> set ys \<Longrightarrow> pid_service c = service"
    and "i \<le> length xs"
  shows "\<exists>removed'. drain_service service i (xs @ ys) removed = (xs, removed') \<and> set removed' = set removed \<union> set ys"
  using assms
proof (induction service i "xs @ ys" removed arbitrary: ys rule: drain_service.induct)
  case (1 service i removed)
  show ?case
  proof (cases "i < length xs")
    case True
    then have "pid_service ((xs @ ys) ! i) \<noteq> service" using "1.prems"(1) by (simp add: nth_append)
    with True 1 show ?thesis by (subst drain_service.simps) simp
  next
    case False
    with "1.prems"(3) have i: "i = length xs" by simp
    show ?thesis
    proof (cases ys)
      case Nil
      with i show ?thesis by (subst drain_service.simps) simp
    next
      case (Cons y zs)
      let ?ys = "swap_remove 0 (y # zs)"
      have y: "pid_service ((xs @ ys) ! i) = service" using "1.prems"(2) by (simp add: i Cons)
      have "swap_remove i (xs @ ys) = xs @ ?ys" by (simp add: i Cons swap_remove_append)
      moreover have "\<exists>r. drain_service service i (xs @ ?ys) (removed @ [y]) = (xs, r) \<and> set r = set (removed @ [y]) \<union> set ?ys"
        using "1.hyps"(1) [of ?ys] y "1.prems" by (simp add: i Cons swap_remove_append set_swap_remove_0)
      ultimately show ?thesis
        by (subst drain_service.simps) (use y in \<open>auto simp: i Cons set_swap_remove_0 insert_commute\<close>)
    qed
  qed
qed

text \<open>When the containers of the service are the last ones on the node, removing them restores the order of the rest.\<close>

lemma remove_service_tail:
  assumes "containers_on_node ps n = xs @ ys" and "\<And>c. c \<in> set xs \<Longrightarrow> pid_service c \<noteq> service"
    and "\<And>c. c \<in> set ys \<Longrightarrow> pid_service c = service"
  shows "containers_on_node (snd (remove_service_from_node n service ps)) = (containers_on_node ps)(n := xs)"
    and "container_nodes (snd (remove_service_from_node n service ps)) = (\<lambda>c. if c \<in> set ys then None else container_nodes ps c)"
proof -
  from drain_service_tail [of xs service ys 0 "[]"] assms(2,3) obtain r
    where r: "drain_service service 0 (xs @ ys) [] = (xs, r)" "set r = set ys" by auto
  show "containers_on_node (snd (remove_service_from_node n service ps)) = (containers_on_node ps)(n := xs)"
    using assms(1) r by (auto simp: remove_service_from_node_def containers_on_node_def fun_eq_iff split: option.splits)
  show "container_nodes (snd (remove_service_from_node n service ps)) = (\<lambda>c. if c \<in> set ys then None else container_nodes ps c)"
    using assms(1) r by (auto simp: remove_service_from_node_def containers_on_node_def remove_placements_eq fun_eq_iff split: option.splits)
qed

end
