(* ===== verification/Placement.thy ===== *)
theory Placement
  imports Placement_State
begin

text \<open>
  The placement algorithm of the scheduler, \<open>crates/zlayer-scheduler/src/placement.rs\<close>, and the parts of the scheduler
  that call it (\<open>lib.rs\<close>: \<open>compute_placement\<close>). \<open>fl\<close> is the floating-point arithmetic and \<open>lc\<close> Unicode
  lower-casing of GPU model names; nothing proved here depends on either. Log lines are left out.
\<close>

section \<open>Which nodes can take a replica\<close>

definition requested_memory :: "('f, 'i, 'c) place_spec \<Rightarrow> u64" where
  "requested_memory spec =
     (case Option.bind (rs_memory (ps_resources spec)) memory_string_to_bytes of Some b \<Rightarrow> b | None \<Rightarrow> 0)"

definition requested_cpu :: "'f f64_ops \<Rightarrow> ('f, 'i, 'c) place_spec \<Rightarrow> 'f" where
  "requested_cpu fl spec = (case rs_cpu (ps_resources spec) of Some c \<Rightarrow> c | None \<Rightarrow> f_lit fl 0 1)"

definition node_has_capacity :: "'f f64_ops \<Rightarrow> 'f node_state \<Rightarrow> ('f, 'i, 'c) place_spec \<Rightarrow> bool" where
  "node_has_capacity fl n spec =
     (let zero = f_lit fl 0 1; req_cpu = requested_cpu fl spec; r = ns_resources n in
      if f_lt fl zero req_cpu \<and> f_lt fl zero (nr_cpu_total r) \<and> f_lt fl (cpu_available fl r) req_cpu then False
      else let req_mem = requested_memory spec in
        if req_mem > 0 \<and> nr_memory_total r > 0 \<and> memory_available r < req_mem then False
        else True)"

definition platform_ok :: "'f node_state \<Rightarrow> ('f, 'i, 'c) place_spec \<Rightarrow> bool" where
  "platform_ok n spec =
     (case ps_platform spec of None \<Rightarrow> True
      | Some target \<Rightarrow>
          (case (ns_os n, ns_arch n) of
             (Some os, Some arch) \<Rightarrow> \<not> (os \<noteq> tp_os target \<or> arch \<noteq> tp_arch target)
           | _ \<Rightarrow> True))"

definition gpu_ok :: "(string \<Rightarrow> string) \<Rightarrow> 'f node_state \<Rightarrow> ('f, 'i, 'c) place_spec \<Rightarrow> bool" where
  "gpu_ok lc n spec =
     (case rs_gpu (ps_resources spec) of None \<Rightarrow> True
      | Some gpu \<Rightarrow>
          if gpu_available (ns_resources n) < gs_count gpu then False
          else if gs_vendor gpu \<noteq> [] \<and> nr_gpu_vendor (ns_resources n) \<noteq> [] \<and> nr_gpu_vendor (ns_resources n) \<noteq> gs_vendor gpu
          then False
          else (case gs_model gpu of None \<Rightarrow> True
                | Some model \<Rightarrow> list_ex (\<lambda>m. str_contains (lc m) (lc model)) (nr_gpu_models (ns_resources n))))"

definition can_place_on_node ::
    "'f f64_ops \<Rightarrow> (string \<Rightarrow> string) \<Rightarrow> 'f node_state \<Rightarrow> string \<Rightarrow> node_mode \<Rightarrow> node_selector option \<Rightarrow>
     placement_state \<Rightarrow> ('f, 'i, 'c) place_spec option \<Rightarrow> bool" where
  "can_place_on_node fl lc n service mode selector ps spec =
     (if \<not> ns_healthy n then False
      else if \<not> (case spec of Some sp \<Rightarrow> platform_ok n sp | None \<Rightarrow> True) then False
      else if \<not> (case selector of Some sel \<Rightarrow> matches_required_labels n sel | None \<Rightarrow> True) then False
      else if \<not> (case spec of Some sp \<Rightarrow> gpu_ok lc n sp | None \<Rightarrow> True) then False
      else case mode of
        Shared \<Rightarrow> (case spec of Some sp \<Rightarrow> node_has_capacity fl n sp | None \<Rightarrow> True)
      | Dedicated \<Rightarrow> \<not> has_service_on_node ps (ns_id n) service
      | Exclusive \<Rightarrow> \<not> has_any_containers ps (ns_id n))"

definition node_matches_pin :: "'f node_state \<Rightarrow> string \<Rightarrow> bool" where
  "node_matches_pin n selector =
     (case split_once ''='' selector of
        None \<Rightarrow> False
      | Some (k, v) \<Rightarrow>
          let key = trim k; val = trim v in
          if key = ''id'' then (case parse_uint val of Some i \<Rightarrow> ns_id n = i | None \<Rightarrow> False)
          else ns_labels n key = Some val)"

fun mode_debug :: "node_mode \<Rightarrow> string" where
  "mode_debug Shared = ''Shared''"
| "mode_debug Dedicated = ''Dedicated''"
| "mode_debug Exclusive = ''Exclusive''"

definition no_suitable_node_reason :: "'f f64_ops \<Rightarrow> string \<Rightarrow> ('f, 'i, 'c) place_spec \<Rightarrow> 'f node_state list \<Rightarrow> string" where
  "no_suitable_node_reason fl service spec nodes =
     (let zero = f_lit fl 0 1; req_cpu = requested_cpu fl spec; req_mem = requested_memory spec;
          mismatch = (case ps_platform spec of None \<Rightarrow> None
            | Some target \<Rightarrow>
                if list_ex (\<lambda>n. ns_os n = Some (tp_os target) \<and> ns_arch n = Some (tp_arch target)) nodes then None
                else Some (''no agent matches required platform '' @ platform_display target));
          any_capacity = list_ex (\<lambda>n.
            let r = ns_resources n in
            (f_le fl req_cpu zero \<or> f_le fl (nr_cpu_total r) zero \<or> f_le fl req_cpu (cpu_available fl r)) \<and>
            (req_mem = 0 \<or> nr_memory_total r = 0 \<or> memory_available r \<ge> req_mem)) nodes in
      case mismatch of Some why \<Rightarrow> why
      | None \<Rightarrow>
          if (f_lt fl zero req_cpu \<or> req_mem > 0) \<and> \<not> any_capacity
          then ''no agent has sufficient capacity (requested cpu '' @ f_display fl req_cpu @ '', memory '' @ show_word req_mem @ '' bytes)''
          else ''No node available for service '' @ [CHR 0x27] @ service @ [CHR 0x27] @ '' with mode '' @ mode_debug (ps_node_mode spec))"

section \<open>Choosing among them\<close>

definition pref_score :: "node_selector option \<Rightarrow> 'f node_state \<Rightarrow> nat" where
  "pref_score selector n = (case selector of Some sel \<Rightarrow> preferred_label_score n sel | None \<Rightarrow> 0)"

definition node_utilization :: "'f f64_ops \<Rightarrow> 'f node_state \<Rightarrow> 'f" where
  "node_utilization fl n = utilization fl (ns_resources n)"

definition gpu_score :: "'f f64_ops \<Rightarrow> bool \<Rightarrow> 'f node_state \<Rightarrow> 'f" where
  "gpu_score fl wants_spread n =
     (if nr_gpu_total (ns_resources n) > 0
      then let ratio = f_div fl (f_of_uint fl (unat (gpu_available (ns_resources n)))) (f_of_uint fl (unat (nr_gpu_total (ns_resources n)))) in
        if wants_spread then f_mul fl (f_sub fl (f_lit fl 10 1) ratio) (f_lit fl 1000 1)
        else f_mul fl ratio (f_lit fl 1000 1)
      else f_lit fl 0 1)"

definition combined_score :: "'f f64_ops \<Rightarrow> bool \<Rightarrow> 'f node_state \<Rightarrow> 'f" where
  "combined_score fl wants_spread n =
     f_add fl (f_mul fl (f_sub fl (f_lit fl 1000 1) (node_utilization fl n)) (f_lit fl 7 1))
       (f_mul fl (gpu_score fl wants_spread n) (f_lit fl 3 1))"

definition bin_packing_cmp ::
    "'f f64_ops \<Rightarrow> string \<Rightarrow> placement_state \<Rightarrow> node_selector option \<Rightarrow> ('f, 'i, 'c) place_spec option \<Rightarrow> group_affinity \<Rightarrow>
     'f node_state \<Rightarrow> 'f node_state \<Rightarrow> ordering" where
  "bin_packing_cmp fl service ps selector spec affinity a b =
     (let gpu = Option.bind spec (\<lambda>s. rs_gpu (ps_resources s));
          wants_spread = (Option.bind gpu gs_scheduling = Some SpreadGpus) in
      then_cmp (cmp (pref_score selector a) (pref_score selector b))
        (if gpu \<noteq> None then f_cmp fl (combined_score fl wants_spread a) (combined_score fl wants_spread b)
         else case affinity of
           Spread \<Rightarrow>
             then_cmp (cmp (service_count_on_node ps (ns_id b) service) (service_count_on_node ps (ns_id a) service))
               (f_cmp fl (node_utilization fl b) (node_utilization fl a))
         | _ \<Rightarrow>
             then_cmp (f_cmp fl (node_utilization fl a) (node_utilization fl b))
               (cmp (container_count ps (ns_id a)) (container_count ps (ns_id b)))))"

definition select_for_bin_packing ::
    "'f f64_ops \<Rightarrow> string \<Rightarrow> 'f node_state list \<Rightarrow> placement_state \<Rightarrow> node_selector option \<Rightarrow>
     ('f, 'i, 'c) place_spec option \<Rightarrow> group_affinity \<Rightarrow> 'f node_state option" where
  "select_for_bin_packing fl service nodes ps selector spec affinity =
     max_by (bin_packing_cmp fl service ps selector spec affinity) nodes"

definition isolation_cmp :: "placement_state \<Rightarrow> node_selector option \<Rightarrow> 'f node_state \<Rightarrow> 'f node_state \<Rightarrow> ordering" where
  "isolation_cmp ps selector a b =
     then_cmp (cmp (pref_score selector a) (pref_score selector b))
       (cmp (container_count ps (ns_id b)) (container_count ps (ns_id a)))"

definition select_for_isolation ::
    "'f node_state list \<Rightarrow> placement_state \<Rightarrow> node_selector option \<Rightarrow> 'f node_state option" where
  "select_for_isolation nodes ps selector = max_by (isolation_cmp ps selector) nodes"

definition effective_affinity :: "('f, 'i, 'c) place_spec \<Rightarrow> group_affinity" where
  "effective_affinity spec = (case ps_affinity spec of Some a \<Rightarrow> a | None \<Rightarrow> Pack)"

definition place_single_container ::
    "'f f64_ops \<Rightarrow> (string \<Rightarrow> string) \<Rightarrow> ('f, 'i, 'c) place_spec \<Rightarrow> 'f node_state list \<Rightarrow> node_id option" where
  "place_single_container fl lc spec nodes =
     (let candidates = filter (\<lambda>n. can_place_on_node fl lc n [] (ps_node_mode spec) (ps_node_selector spec)
                                 placement_state_new (Some spec)) nodes in
      if candidates = [] then None
      else map_option ns_id (select_for_bin_packing fl [] candidates placement_state_new (ps_node_selector spec) (Some spec)
             (effective_affinity spec)))"

section \<open>Placing the replicas of a service\<close>

datatype 'f placement_reason =
    BinPacked 'f
  | DedicatedNode
  | ExclusiveNode
  | LabelMatch "string list"
  | NoSuitableNode string

record 'f placement_decision =
  pd_container :: placed_id
  pd_node :: "node_id option"
  pd_reason :: "'f placement_reason"
  pd_gpus :: "u32 list"
  pd_role :: string

definition is_success :: "'f placement_decision \<Rightarrow> bool" where
  "is_success d \<longleftrightarrow> pd_node d \<noteq> None"

abbreviation on_resources :: "('f node_resources \<Rightarrow> 'f node_resources) \<Rightarrow> 'f node_state \<Rightarrow> 'f node_state" where
  "on_resources f n \<equiv> n\<lparr>ns_resources := f (ns_resources n)\<rparr>"

definition take_cpu_memory :: "'f f64_ops \<Rightarrow> 'f \<Rightarrow> u64 \<Rightarrow> 'f node_resources \<Rightarrow> 'f node_resources" where
  "take_cpu_memory fl req_cpu req_mem r =
     (let r1 = (if f_lt fl (f_lit fl 0 1) req_cpu then r\<lparr>nr_cpu_used := f_add fl (nr_cpu_used r) req_cpu\<rparr> else r) in
      if req_mem > 0 then r1\<lparr>nr_memory_used := sat_add (nr_memory_used r1) req_mem\<rparr> else r1)"

definition reserve_node_resources ::
    "'f f64_ops \<Rightarrow> 'f node_state list \<Rightarrow> node_id \<Rightarrow> 'f \<Rightarrow> u64 \<Rightarrow> u32 \<Rightarrow> gpu_sharing_mode option \<Rightarrow>
     u32 list \<times> 'f node_state list" where
  "reserve_node_resources fl nodes node_id req_cpu req_mem gpu_count sharing =
     (case find (\<lambda>n. ns_id n = node_id) nodes of
        None \<Rightarrow> ([], nodes)
      | Some n \<Rightarrow>
          let r1 = take_cpu_memory fl req_cpu req_mem (ns_resources n);
              (gpus, r2) = (if gpu_count > 0
                 then (case allocate_gpus gpu_count sharing r1 of (Some is, r) \<Rightarrow> (is, r) | (None, r) \<Rightarrow> ([], r))
                 else ([], r1)) in
          (gpus, update_first (\<lambda>n. ns_id n = node_id) (\<lambda>n. n\<lparr>ns_resources := r2\<rparr>) nodes))"

definition suitable_nodes ::
    "'f f64_ops \<Rightarrow> (string \<Rightarrow> string) \<Rightarrow> string \<Rightarrow> ('f, 'i, 'c) place_spec \<Rightarrow> 'f node_state list \<Rightarrow> placement_state \<Rightarrow>
     'f node_state list" where
  "suitable_nodes fl lc service spec nodes ps =
     filter (\<lambda>n. case effective_affinity spec of Pin selector \<Rightarrow> node_matches_pin n selector | _ \<Rightarrow> True)
       (filter (\<lambda>n. can_place_on_node fl lc n service (ps_node_mode spec) (ps_node_selector spec) ps (Some spec)) nodes)"

definition select_node ::
    "'f f64_ops \<Rightarrow> string \<Rightarrow> ('f, 'i, 'c) place_spec \<Rightarrow> 'f node_state list \<Rightarrow> placement_state \<Rightarrow> 'f node_state option" where
  "select_node fl service spec suitable ps =
     (case ps_node_mode spec of
        Shared \<Rightarrow> select_for_bin_packing fl service suitable ps (ps_node_selector spec) (Some spec) (effective_affinity spec)
      | _ \<Rightarrow> select_for_isolation suitable ps (ps_node_selector spec))"

definition placed_reason :: "'f f64_ops \<Rightarrow> node_mode \<Rightarrow> 'f node_state \<Rightarrow> 'f placement_reason" where
  "placed_reason fl mode n =
     (case mode of Shared \<Rightarrow> BinPacked (node_utilization fl n) | Dedicated \<Rightarrow> DedicatedNode | Exclusive \<Rightarrow> ExclusiveNode)"

definition gpu_count_requested :: "('f, 'i, 'c) place_spec \<Rightarrow> u32" where
  "gpu_count_requested spec = (case rs_gpu (ps_resources spec) of Some g \<Rightarrow> gs_count g | None \<Rightarrow> 0)"

definition gpu_sharing :: "('f, 'i, 'c) place_spec \<Rightarrow> gpu_sharing_mode option" where
  "gpu_sharing spec = Option.bind (rs_gpu (ps_resources spec)) gs_sharing"

definition reserved_cpu :: "'f f64_ops \<Rightarrow> ('f, 'i, 'c) place_spec \<Rightarrow> 'f" where
  "reserved_cpu fl spec = f_max fl (requested_cpu fl spec) (f_lit fl 0 1)"

definition place_replica ::
    "'f f64_ops \<Rightarrow> (string \<Rightarrow> string) \<Rightarrow> string \<Rightarrow> ('f, 'i, 'c) place_spec \<Rightarrow> u32 \<Rightarrow> 'f node_state list \<Rightarrow> placement_state \<Rightarrow>
     'f placement_decision \<times> 'f node_state list \<times> placement_state" where
  "place_replica fl lc service spec replica nodes ps =
     (let container = \<lparr> pid_service = service, pid_replica = replica \<rparr>;
          suitable = suitable_nodes fl lc service spec nodes ps in
      case select_node fl service spec suitable ps of
        None \<Rightarrow>
          (\<lparr> pd_container = container, pd_node = None,
             pd_reason = NoSuitableNode (no_suitable_node_reason fl service spec nodes), pd_gpus = [], pd_role = ''default'' \<rparr>,
           nodes, ps)
      | Some selected \<Rightarrow>
          let (gpus, nodes') = reserve_node_resources fl nodes (ns_id selected) (reserved_cpu fl spec) (requested_memory spec)
                 (gpu_count_requested spec) (gpu_sharing spec) in
          (\<lparr> pd_container = container, pd_node = Some (ns_id selected),
             pd_reason = placed_reason fl (ps_node_mode spec) selected, pd_gpus = gpus, pd_role = ''default'' \<rparr>,
           nodes', place container (ns_id selected) ps))"

primrec place_loop ::
    "'f f64_ops \<Rightarrow> (string \<Rightarrow> string) \<Rightarrow> string \<Rightarrow> ('f, 'i, 'c) place_spec \<Rightarrow> u32 list \<Rightarrow> 'f node_state list \<Rightarrow> placement_state \<Rightarrow>
     'f placement_decision list \<times> 'f node_state list \<times> placement_state" where
  "place_loop fl lc service spec [] nodes ps = ([], nodes, ps)"
| "place_loop fl lc service spec (i # is) nodes ps =
     (let (d, nodes1, ps1) = place_replica fl lc service spec i nodes ps;
          (ds, nodes2, ps2) = place_loop fl lc service spec is nodes1 ps1 in
      (d # ds, nodes2, ps2))"

definition replica_range :: "u32 \<Rightarrow> u32 list" where
  "replica_range n = map word_of_nat [0..<unat n]"

fun release_gpu :: "gpu_allocation \<Rightarrow> gpu_allocation" where
  "release_gpu (GpuShared current mx) = (if current > 1 then GpuShared (current - 1) mx else GpuFree)"
| "release_gpu _ = GpuFree"

definition release_slots :: "u32 list \<Rightarrow> gpu_allocation list \<Rightarrow> gpu_allocation list" where
  "release_slots indices slots =
     fold (\<lambda>idx s. if unat idx < length s then s[unat idx := release_gpu (s ! unat idx)] else s) indices slots"

definition release_cpu_memory :: "'f f64_ops \<Rightarrow> 'f \<Rightarrow> u64 \<Rightarrow> 'f node_resources \<Rightarrow> 'f node_resources" where
  "release_cpu_memory fl req_cpu req_mem r =
     r\<lparr>nr_cpu_used := f_max fl (f_sub fl (nr_cpu_used r) req_cpu) (f_lit fl 0 1),
       nr_memory_used := sat_sub (nr_memory_used r) req_mem\<rparr>"

definition rollback_one ::
    "'f f64_ops \<Rightarrow> string \<Rightarrow> 'f \<Rightarrow> u64 \<Rightarrow> 'f placement_decision \<Rightarrow> 'f node_state list \<times> placement_state \<Rightarrow>
     'f node_state list \<times> placement_state" where
  "rollback_one fl service req_cpu req_mem d st =
     (case pd_node d of None \<Rightarrow> st
      | Some node_id \<Rightarrow>
          let ps' = snd (remove_service_from_node node_id service (snd st));
              nodes1 = (if f_lt fl (f_lit fl 0 1) req_cpu \<or> req_mem > 0
                then update_first (\<lambda>n. ns_id n = node_id) (on_resources (release_cpu_memory fl req_cpu req_mem)) (fst st)
                else fst st);
              nodes2 = (if pd_gpus d \<noteq> []
                then update_first (\<lambda>n. ns_id n = node_id) (on_resources (\<lambda>r.
                       let slots = release_slots (pd_gpus d) (nr_gpu_allocated r) in
                       r\<lparr>nr_gpu_allocated := slots, nr_gpu_used := count_used slots\<rparr>)) nodes1
                else nodes1) in
          (nodes2, ps'))"

definition gang_rollback ::
    "'f f64_ops \<Rightarrow> string \<Rightarrow> u32 \<Rightarrow> 'f placement_decision list \<Rightarrow> 'f node_state list \<Rightarrow> placement_state \<Rightarrow> 'f \<Rightarrow> u64 \<Rightarrow>
     'f placement_decision list \<times> 'f node_state list \<times> placement_state" where
  "gang_rollback fl service replicas decisions nodes ps req_cpu req_mem =
     (map (\<lambda>i. \<lparr> pd_container = \<lparr> pid_service = service, pid_replica = i \<rparr>, pd_node = None,
               pd_reason = NoSuitableNode (''Gang scheduling: could not place all '' @ show_word replicas @ '' replicas of '' @
                 [CHR 0x27] @ service @ [CHR 0x27]),
               pd_gpus = [], pd_role = ''default'' \<rparr>) (replica_range replicas),
      fold (rollback_one fl service req_cpu req_mem) decisions (nodes, ps))"

definition is_gang :: "('f, 'i, 'c) place_spec \<Rightarrow> bool" where
  "is_gang spec \<longleftrightarrow> Option.bind (rs_gpu (ps_resources spec)) gs_scheduling = Some Gang"

definition finalize_gang ::
    "'f f64_ops \<Rightarrow> ('f, 'i, 'c) place_spec \<Rightarrow> string \<Rightarrow> u32 \<Rightarrow> 'f placement_decision list \<Rightarrow> 'f node_state list \<Rightarrow> placement_state \<Rightarrow>
     'f \<Rightarrow> u64 \<Rightarrow> 'f placement_decision list \<times> 'f node_state list \<times> placement_state" where
  "finalize_gang fl spec service replicas decisions nodes ps req_cpu req_mem =
     (if is_gang spec \<and> list_ex (\<lambda>d. pd_node d = None) decisions
      then gang_rollback fl service replicas decisions nodes ps req_cpu req_mem
      else (decisions, nodes, ps))"

definition place_service_replicas ::
    "'f f64_ops \<Rightarrow> (string \<Rightarrow> string) \<Rightarrow> string \<Rightarrow> ('f, 'i, 'c) place_spec \<Rightarrow> u32 \<Rightarrow> 'f node_state list \<Rightarrow> placement_state \<Rightarrow>
     'f placement_decision list \<times> 'f node_state list \<times> placement_state" where
  "place_service_replicas fl lc service spec replicas nodes ps =
     (let (decisions, nodes', ps') = place_loop fl lc service spec (replica_range replicas) nodes ps in
      finalize_gang fl spec service replicas decisions nodes' ps' (reserved_cpu fl spec) (requested_memory spec))"

section \<open>Replica groups and callers\<close>

definition effective_spec_for_group ::
    "('f, 'i, 'c) place_spec \<Rightarrow> ('f, 'i, 'c) replica_group \<Rightarrow> ('f, 'i, 'c) place_spec" where
  "effective_spec_for_group base g =
     base\<lparr>ps_image := (case rg_image g of Some im \<Rightarrow> im | None \<Rightarrow> ps_image base),
          ps_command := (case rg_command g of Some command \<Rightarrow> command | None \<Rightarrow> ps_command base),
          ps_resources := (case rg_resources g of Some resources \<Rightarrow> resources | None \<Rightarrow> ps_resources base),
          ps_env := fold (\<lambda>(k, v). hm_insert k v) (rg_env g) (ps_env base),
          ps_affinity := Some (rg_affinity g)\<rparr>"

primrec place_service_with_groups ::
    "'f f64_ops \<Rightarrow> (string \<Rightarrow> string) \<Rightarrow> string \<Rightarrow> ('f, 'i, 'c) place_spec \<Rightarrow> ('f, 'i, 'c) replica_group list \<Rightarrow>
     'f node_state list \<Rightarrow> placement_state \<Rightarrow> 'f placement_decision list \<times> 'f node_state list \<times> placement_state" where
  "place_service_with_groups fl lc service spec [] nodes ps = ([], nodes, ps)"
| "place_service_with_groups fl lc service spec (g # gs) nodes ps =
     (let (ds, nodes1, ps1) = place_service_replicas fl lc service (effective_spec_for_group spec g) (rg_count g) nodes ps;
          (es, nodes2, ps2) = place_service_with_groups fl lc service spec gs nodes1 ps1 in
      (map (\<lambda>d. d\<lparr>pd_role := rg_role g\<rparr>) ds @ es, nodes2, ps2))"

text \<open>
  The feasibility check. The counts are \<open>usize\<close> sums of 32-bit counts and are kept as naturals.
\<close>

definition validate_placement_feasibility :: "(string, node_mode \<times> u32) hmap \<Rightarrow> nat \<Rightarrow> scheduler_error + unit" where
  "validate_placement_feasibility services available =
     (let dedicated = sum_list (map (\<lambda>(_, m, r). if m = Dedicated then unat r else 0) services);
          exclusive = List.map_filter (\<lambda>(s, m, r). if m = Exclusive then Some (s, r) else None) services;
          required = dedicated + sum_list (map (\<lambda>(_, r). unat r) exclusive);
          details = (if dedicated > 0 then [show_nat dedicated @ '' dedicated replicas''] else []) @
            (if exclusive \<noteq> []
             then [''exclusive services: '' @ join_strings '', '' (map (\<lambda>(s, r). s @ ''('' @ show_word r @ '')'') exclusive)] else []) in
      if required > available
      then Inl (InvalidConfig (''Insufficient nodes: need '' @ show_nat required @ '' nodes for '' @ join_strings '', '' details @
                 '', but only '' @ show_nat available @ '' available''))
      else Inr ())"

definition group_assignments :: "'f placement_decision list \<Rightarrow> (node_id, placed_id list) hmap" where
  "group_assignments decisions =
     fold (\<lambda>d m. case pd_node d of None \<Rightarrow> m
       | Some n \<Rightarrow> hm_insert n ((case hm_get m n of Some cs \<Rightarrow> cs | None \<Rightarrow> []) @ [pd_container d]) m) decisions []"

definition compute_placement ::
    "'f f64_ops \<Rightarrow> (string \<Rightarrow> string) \<Rightarrow> ('f, 'i, 'c) place_spec \<Rightarrow> string \<Rightarrow> u32 \<Rightarrow> 'f node_state list \<Rightarrow> placement_state \<Rightarrow>
     ('f, 'i, 'c) place_spec option \<Rightarrow> (node_id, placed_id list) hmap \<times> 'f node_state list \<times> placement_state" where
  "compute_placement fl lc default_spec service desired nodes ps spec =
     (let (decisions, nodes', ps') =
        place_service_replicas fl lc service (case spec of Some s \<Rightarrow> s | None \<Rightarrow> default_spec) desired nodes ps in
      (group_assignments decisions, nodes', ps'))"

section \<open>One replica\<close>

lemma sat_add_0 [simp]: "sat_add a 0 = a"
  using unat_bound [of a] by (simp add: sat_add_def)

lemma allocate_gpus_keeps:
  assumes "allocate_gpus count sharing r = (got, r')"
  shows "nr_memory_total r' = nr_memory_total r" "nr_memory_used r' = nr_memory_used r"
  using assms by (auto simp: allocate_gpus_def Let_def split: if_splits)

lemma take_cpu_memory_sel [simp]:
  "nr_memory_total (take_cpu_memory fl c m r) = nr_memory_total r"
  "nr_memory_used (take_cpu_memory fl c m r) = sat_add (nr_memory_used r) m"
  "nr_gpu_allocated (take_cpu_memory fl c m r) = nr_gpu_allocated r"
  "nr_gpu_used (take_cpu_memory fl c m r) = nr_gpu_used r"
  by (simp_all add: take_cpu_memory_def Let_def word_gt_0)

definition set_resources :: "node_id \<Rightarrow> 'f node_resources \<Rightarrow> 'f node_state list \<Rightarrow> 'f node_state list" where
  "set_resources k r nodes = map (\<lambda>m. if ns_id m = k then m\<lparr>ns_resources := r\<rparr> else m) nodes"

lemma ids_set_resources [simp]: "map ns_id (set_resources k r nodes) = map ns_id nodes"
  by (simp add: set_resources_def)

lemma find_by_id:
  assumes "distinct (map ns_id nodes)" and "n \<in> set nodes"
  shows "find (\<lambda>m. ns_id m = ns_id n) nodes = Some n"
  using assms by (induction nodes) (auto simp: image_iff)

definition granted :: "'f f64_ops \<Rightarrow> ('f, 'i, 'c) place_spec \<Rightarrow> 'f node_resources \<Rightarrow> u32 list \<times> 'f node_resources" where
  "granted fl spec r =
     (let r1 = take_cpu_memory fl (reserved_cpu fl spec) (requested_memory spec) r in
      if gpu_count_requested spec > 0
      then (case allocate_gpus (gpu_count_requested spec) (gpu_sharing spec) r1 of (Some is, r) \<Rightarrow> (is, r) | (None, r) \<Rightarrow> ([], r))
      else ([], r1))"

lemma granted_memory [simp]:
  "nr_memory_total (snd (granted fl spec r)) = nr_memory_total r"
  "nr_memory_used (snd (granted fl spec r)) = sat_add (nr_memory_used r) (requested_memory spec)"
proof -
  let ?r1 = "take_cpu_memory fl (reserved_cpu fl spec) (requested_memory spec) r"
  obtain got r' where a: "allocate_gpus (gpu_count_requested spec) (gpu_sharing spec) ?r1 = (got, r')" by fastforce
  have "snd (granted fl spec r) = (if gpu_count_requested spec > 0 then r' else ?r1)"
    by (cases got) (simp_all add: granted_def a)
  with allocate_gpus_keeps [OF a] show
    "nr_memory_total (snd (granted fl spec r)) = nr_memory_total r"
    "nr_memory_used (snd (granted fl spec r)) = sat_add (nr_memory_used r) (requested_memory spec)" by simp_all
qed

lemma reserve_granted:
  assumes "distinct (map ns_id nodes)" and "n \<in> set nodes"
  shows "reserve_node_resources fl nodes (ns_id n) (reserved_cpu fl spec) (requested_memory spec)
      (gpu_count_requested spec) (gpu_sharing spec) =
    (fst (granted fl spec (ns_resources n)), set_resources (ns_id n) (snd (granted fl spec (ns_resources n))) nodes)"
proof -
  have "update_first (\<lambda>m. ns_id m = ns_id n) (\<lambda>m. m\<lparr>ns_resources := r\<rparr>) nodes = set_resources (ns_id n) r nodes" for r
    unfolding set_resources_def by (rule update_first_key [OF assms(1)]) simp
  then show ?thesis
    by (simp add: reserve_node_resources_def granted_def find_by_id [OF assms] Let_def case_prod_beta)
qed

definition placed_decision ::
    "'f f64_ops \<Rightarrow> string \<Rightarrow> ('f, 'i, 'c) place_spec \<Rightarrow> u32 \<Rightarrow> 'f node_state \<Rightarrow> 'f placement_decision" where
  "placed_decision fl service spec i n =
     \<lparr> pd_container = \<lparr> pid_service = service, pid_replica = i \<rparr>, pd_node = Some (ns_id n),
       pd_reason = placed_reason fl (ps_node_mode spec) n, pd_gpus = fst (granted fl spec (ns_resources n)), pd_role = ''default'' \<rparr>"

definition failed_decision ::
    "'f f64_ops \<Rightarrow> string \<Rightarrow> ('f, 'i, 'c) place_spec \<Rightarrow> u32 \<Rightarrow> 'f node_state list \<Rightarrow> 'f placement_decision" where
  "failed_decision fl service spec i nodes =
     \<lparr> pd_container = \<lparr> pid_service = service, pid_replica = i \<rparr>, pd_node = None,
       pd_reason = NoSuitableNode (no_suitable_node_reason fl service spec nodes), pd_gpus = [], pd_role = ''default'' \<rparr>"

lemma decision_sel [simp]:
  "pd_node (placed_decision fl service spec i n) = Some (ns_id n)"
  "pd_container (placed_decision fl service spec i n) = \<lparr> pid_service = service, pid_replica = i \<rparr>"
  "pd_gpus (placed_decision fl service spec i n) = fst (granted fl spec (ns_resources n))"
  "pd_node (failed_decision fl service spec i nodes) = None"
  "pd_container (failed_decision fl service spec i nodes) = \<lparr> pid_service = service, pid_replica = i \<rparr>"
  by (simp_all add: placed_decision_def failed_decision_def)

lemma select_node_None_iff [simp]: "select_node fl service spec ns ps = None \<longleftrightarrow> ns = []"
  by (simp add: select_node_def select_for_bin_packing_def select_for_isolation_def split: node_mode.split)

lemma select_node_in: "select_node fl service spec ns ps = Some n \<Longrightarrow> n \<in> set ns"
  by (auto simp: select_node_def select_for_bin_packing_def select_for_isolation_def dest: max_by_in split: node_mode.splits)

lemma suitable_in: "n \<in> set (suitable_nodes fl lc service spec nodes ps) \<Longrightarrow> n \<in> set nodes"
  by (simp add: suitable_nodes_def)

lemma place_replica_cases:
  assumes "distinct (map ns_id nodes)"
  obtains (none) "suitable_nodes fl lc service spec nodes ps = []"
      and "place_replica fl lc service spec i nodes ps = (failed_decision fl service spec i nodes, nodes, ps)"
  | (some) n where "select_node fl service spec (suitable_nodes fl lc service spec nodes ps) ps = Some n"
      and "n \<in> set (suitable_nodes fl lc service spec nodes ps)"
      and "place_replica fl lc service spec i nodes ps =
        (placed_decision fl service spec i n, set_resources (ns_id n) (snd (granted fl spec (ns_resources n))) nodes,
         place \<lparr> pid_service = service, pid_replica = i \<rparr> (ns_id n) ps)"
proof (cases "select_node fl service spec (suitable_nodes fl lc service spec nodes ps) ps")
  case None
  then have e: "suitable_nodes fl lc service spec nodes ps = []" by simp
  show thesis by (rule none [OF e]) (simp only: place_replica_def None failed_decision_def Let_def option.case)
next
  case (Some n)
  from select_node_in [OF this] have n: "n \<in> set (suitable_nodes fl lc service spec nodes ps)" .
  show thesis
    by (rule some [OF Some n])
       (simp only: place_replica_def Some reserve_granted [OF assms suitable_in [OF n]] placed_decision_def Let_def option.case prod.case)
qed

section \<open>A small cluster\<close>

definition ex_node :: "node_id \<Rightarrow> gpu_allocation list \<Rightarrow> rat node_state" where
  "ex_node k slots =
     \<lparr> ns_id = k, ns_address = ''10.0.0.1'', ns_labels = Map.empty,
       ns_resources = (node_resources_new rat_ops 4 4096)\<lparr>nr_gpu_total := word_of_nat (length slots), nr_gpu_allocated := slots,
         nr_gpu_used := count_used slots\<rparr>,
       ns_healthy = True, ns_os = None, ns_arch = None \<rparr>"

definition ex_spec :: "node_mode \<Rightarrow> string option \<Rightarrow> gpu_spec option \<Rightarrow> (rat, unit, unit) place_spec" where
  "ex_spec mode memory gpu =
     \<lparr> ps_image = (), ps_command = (), ps_env = [], ps_platform = None, ps_node_mode = mode, ps_node_selector = None,
       ps_resources = \<lparr> rs_cpu = None, rs_memory = memory, rs_gpu = gpu \<rparr>, ps_affinity = Some Spread \<rparr>"

definition ex_gang :: gpu_spec where
  "ex_gang = \<lparr> gs_count = 1, gs_vendor = [], gs_model = None, gs_scheduling = Some Gang, gs_sharing = None \<rparr>"

lemmas ex_placement = ex_node_def ex_spec_def ex_gang_def is_gang_def suitable_nodes_def can_place_on_node_def platform_ok_def gpu_ok_def
  gpu_available_def effective_affinity_def has_service_on_node_def has_any_containers_def containers_on_node_def placement_state_new_def
  node_resources_new_def

section \<open>Isolated services\<close>

text \<open>
  In dedicated and exclusive mode a node that took a replica is out for the rest of the pass, and nothing changes
  for the others: the suitable nodes are used up one by one.
\<close>

abbreviation placed_nodes :: "'f placement_decision list \<Rightarrow> node_id list" where
  "placed_nodes ds \<equiv> List.map_filter pd_node ds"

lemma filter_set_resources:
  assumes "\<And>m. m \<in> set nodes \<Longrightarrow> ns_id m = k \<Longrightarrow> \<not> Q (m\<lparr>ns_resources := r\<rparr>)"
    and "\<And>m. m \<in> set nodes \<Longrightarrow> ns_id m \<noteq> k \<Longrightarrow> Q m = P m"
  shows "filter Q (set_resources k r nodes) = filter (\<lambda>m. ns_id m \<noteq> k) (filter P nodes)"
  using assms unfolding set_resources_def by (induction nodes) auto

lemma isolated_can_place:
  assumes "mode \<noteq> Shared" and "pid_service c = service"
  shows "can_place_on_node fl lc m service mode sel (place c k ps) spec \<longleftrightarrow>
    ns_id m \<noteq> k \<and> can_place_on_node fl lc m service mode sel ps spec"
  using assms
  by (cases mode) (auto simp: can_place_on_node_def has_service_on_node_def has_any_containers_def)

lemma isolated_suitable:
  assumes "ps_node_mode spec \<noteq> Shared" and "pid_service c = service"
  shows "suitable_nodes fl lc service spec (set_resources k r nodes) (place c k ps) =
    filter (\<lambda>m. ns_id m \<noteq> k) (suitable_nodes fl lc service spec nodes ps)"
  unfolding suitable_nodes_def filter_filter
  by (subst filter_set_resources [where P = "\<lambda>n. can_place_on_node fl lc n service (ps_node_mode spec) (ps_node_selector spec) ps (Some spec) \<and>
        (case effective_affinity spec of Pin selector \<Rightarrow> node_matches_pin n selector | _ \<Rightarrow> True)"])
     (auto simp: isolated_can_place [OF assms] filter_filter conj_ac)

lemma length_filter_id:
  assumes "distinct (map ns_id xs)" and "n \<in> set xs"
  shows "length (filter (\<lambda>m. ns_id m \<noteq> ns_id n) xs) = length xs - 1"
proof -
  have inj: "inj_on ns_id (set xs)" and d: "distinct xs" using assms(1) by (simp_all add: distinct_map)
  have "filter (\<lambda>m. ns_id m \<noteq> ns_id n) xs = filter (\<lambda>m. n \<noteq> m) xs"
    using inj_on_eq_iff [OF inj _ assms(2)] by (intro filter_cong) auto
  also have "\<dots> = remove1 n xs" by (simp add: distinct_remove1_removeAll d removeAll_filter_not_eq)
  finally show ?thesis using assms(2) by (simp add: length_remove1)
qed

lemma distinct_suitable: "distinct (map ns_id nodes) \<Longrightarrow> distinct (map ns_id (suitable_nodes fl lc service spec nodes ps))"
  by (simp add: suitable_nodes_def distinct_map_filter)

lemma isolated_loop:
  assumes "place_loop fl lc service spec is nodes ps = (ds, nodes', ps')"
    and "distinct (map ns_id nodes)" and "ps_node_mode spec \<noteq> Shared"
  shows "distinct (placed_nodes ds) \<and>
    set (placed_nodes ds) \<subseteq> ns_id ` set (suitable_nodes fl lc service spec nodes ps) \<and>
    length (placed_nodes ds) = min (length is) (length (suitable_nodes fl lc service spec nodes ps))"
  using assms
proof (induction "is" arbitrary: nodes ps ds)
  case Nil
  then show ?case by (simp add: map_filter_simps)
next
  case (Cons i "is")
  let ?c = "\<lparr> pid_service = service, pid_replica = i \<rparr>" and ?S = "suitable_nodes fl lc service spec nodes ps"
  from Cons.prems(2) show ?case
  proof (cases rule: place_replica_cases [of nodes fl lc service spec ps i])
    case none
    with Cons.prems(1) obtain ds1 where ds: "ds = failed_decision fl service spec i nodes # ds1"
        "place_loop fl lc service spec is nodes ps = (ds1, nodes', ps')" by (auto simp: Let_def split: prod.splits)
    from Cons.IH [OF ds(2) Cons.prems(2,3)] none(1) show ?thesis by (simp add: ds(1) map_filter_simps)
  next
    case (some n)
    let ?nodes = "set_resources (ns_id n) (snd (granted fl spec (ns_resources n))) nodes" and ?ps = "place ?c (ns_id n) ps"
    from some(3) Cons.prems(1) obtain ds1 where ds: "ds = placed_decision fl service spec i n # ds1"
        "place_loop fl lc service spec is ?nodes ?ps = (ds1, nodes', ps')" by (auto simp: Let_def split: prod.splits)
    have S: "suitable_nodes fl lc service spec ?nodes ?ps = filter (\<lambda>m. ns_id m \<noteq> ns_id n) ?S"
      by (rule isolated_suitable [OF Cons.prems(3)]) simp
    have len: "length (filter (\<lambda>m. ns_id m \<noteq> ns_id n) ?S) = length ?S - 1" "length ?S > 0"
      using length_filter_id [OF distinct_suitable [OF Cons.prems(2)] some(2)] some(2) by (auto intro: length_pos_if_in_set)
    from Cons.IH [OF ds(2) _ Cons.prems(3)] Cons.prems(2)
    have IH: "distinct (placed_nodes ds1)" "set (placed_nodes ds1) \<subseteq> ns_id ` set (filter (\<lambda>m. ns_id m \<noteq> ns_id n) ?S)"
        "length (placed_nodes ds1) = min (length is) (length ?S - 1)"
      by (simp_all only: S ids_set_resources len)
    from IH(2) have "ns_id n \<notin> set (placed_nodes ds1)" "set (placed_nodes ds1) \<subseteq> ns_id ` set ?S" by auto
    with IH(1,3) some(2) len(2) show ?thesis by (cases "length ?S") (simp_all add: ds(1) map_filter_simps)
  qed
qed

section \<open>What a pass leaves behind\<close>

abbreviation on_node :: "node_id \<Rightarrow> 'f placement_decision list \<Rightarrow> 'f placement_decision list" where
  "on_node k ds \<equiv> filter (\<lambda>d. pd_node d = Some k) ds"

lemma place_loop_records:
  assumes "place_loop fl lc service spec is nodes ps = (ds, nodes', ps')" and "distinct (map ns_id nodes)"
  shows "map pd_container ds = map (\<lambda>i. \<lparr> pid_service = service, pid_replica = i \<rparr>) is \<and>
    map ns_id nodes' = map ns_id nodes \<and>
    containers_on_node ps' k = containers_on_node ps k @ map pd_container (on_node k ds) \<and>
    ((\<forall>d \<in> set ds. pd_node d \<noteq> None \<longrightarrow> pd_container d \<noteq> c) \<longrightarrow> container_nodes ps' c = container_nodes ps c)"
  using assms
proof (induction "is" arbitrary: nodes ps ds)
  case (Cons i "is")
  let ?c = "\<lparr> pid_service = service, pid_replica = i \<rparr>"
  from Cons.prems(2) show ?case
  proof (cases rule: place_replica_cases [of nodes fl lc service spec ps i])
    case none
    with Cons.prems(1) obtain ds1 where ds: "ds = failed_decision fl service spec i nodes # ds1"
        "place_loop fl lc service spec is nodes ps = (ds1, nodes', ps')" by (auto simp: Let_def split: prod.splits)
    from Cons.IH [OF ds(2) Cons.prems(2)] show ?thesis by (simp add: ds(1))
  next
    case (some n)
    let ?nodes = "set_resources (ns_id n) (snd (granted fl spec (ns_resources n))) nodes" and ?ps = "place ?c (ns_id n) ps"
    from some(3) Cons.prems(1) obtain ds1 where ds: "ds = placed_decision fl service spec i n # ds1"
        "place_loop fl lc service spec is ?nodes ?ps = (ds1, nodes', ps')" by (auto simp: Let_def split: prod.splits)
    from Cons.IH [OF ds(2)] Cons.prems(2) show ?thesis by (auto simp: ds(1))
  qed
qed simp

lemma on_node_count: "length (on_node k ds) = count_list (placed_nodes ds) k"
  by (induction ds) (auto simp: map_filter_simps split: option.split)

lemma pass_counts:
  assumes "place_loop fl lc service spec is nodes ps = (ds, nodes', ps')" and "distinct (map ns_id nodes)"
  shows "service_count_on_node ps' k service = service_count_on_node ps k service + count_list (placed_nodes ds) k"
    and "container_count ps' k = container_count ps k + count_list (placed_nodes ds) k"
proof -
  note r = place_loop_records [OF assms, of k undefined]
  have srv: "pid_service c = service" if "c \<in> set (map pd_container ds)" for c
    using that by (auto simp only: conjunct1 [OF r] set_map placed_id.select_convs)
  have "filter (\<lambda>c. pid_service c = service) (map pd_container (on_node k ds)) = map pd_container (on_node k ds)"
  proof (intro filter_True ballI)
    fix c assume "c \<in> set (map pd_container (on_node k ds))"
    then have "c \<in> set (map pd_container ds)" by auto
    then show "pid_service c = service" by (rule srv)
  qed
  moreover have "containers_on_node ps' k = containers_on_node ps k @ map pd_container (on_node k ds)" using r by (elim conjE)
  ultimately show "service_count_on_node ps' k service = service_count_on_node ps k service + count_list (placed_nodes ds) k"
    and "container_count ps' k = container_count ps k + count_list (placed_nodes ds) k"
    by (simp_all add: service_count_on_node_def container_count_def flip: on_node_count)
qed

text \<open>
  C18. Isolation is exact. In dedicated and in exclusive mode, without gang scheduling, one pass gives every
  replica a decision, in order; the nodes it uses are suitable and used once; as many replicas are placed
  as there are suitable nodes for them; afterwards a node the pass used holds one replica of the service, in
  dedicated mode, and no other container at all, in exclusive mode.
\<close>

theorem isolated_placement_exact:
  assumes "distinct (map ns_id nodes)" and "ps_node_mode spec \<noteq> Shared" and "\<not> is_gang spec"
    and "place_service_replicas fl lc service spec replicas nodes ps = (ds, nodes', ps')"
    and "suitable = map ns_id (suitable_nodes fl lc service spec nodes ps)"
  shows "map pd_container ds = map (\<lambda>i. \<lparr> pid_service = service, pid_replica = word_of_nat i \<rparr>) [0..<unat replicas] \<and>
    distinct (placed_nodes ds) \<and> set (placed_nodes ds) \<subseteq> set suitable \<and>
    length (placed_nodes ds) = min (unat replicas) (length suitable) \<and>
    (\<forall>k. k \<in> set (placed_nodes ds) \<longrightarrow> service_count_on_node ps' k service = 1 \<and>
       (ps_node_mode spec = Exclusive \<longrightarrow> container_count ps' k = 1))"
proof -
  from assms(3,4) have loop: "place_loop fl lc service spec (replica_range replicas) nodes ps = (ds, nodes', ps')"
    by (auto simp: place_service_replicas_def finalize_gang_def split: prod.splits)
  note iso = isolated_loop [OF loop assms(1,2)]
  have "service_count_on_node ps' k service = 1 \<and> (ps_node_mode spec = Exclusive \<longrightarrow> container_count ps' k = 1)"
    if k: "k \<in> set (placed_nodes ds)" for k
  proof -
    from k iso obtain n where n: "n \<in> set (suitable_nodes fl lc service spec nodes ps)" "ns_id n = k" by auto
    then have "can_place_on_node fl lc n service (ps_node_mode spec) (ps_node_selector spec) ps (Some spec)"
      by (simp add: suitable_nodes_def)
    with assms(2) n(2) have "service_count_on_node ps k service = 0" "ps_node_mode spec = Exclusive \<longrightarrow> container_count ps k = 0"
      by (auto simp: can_place_on_node_def has_service_iff has_any_containers_def container_count_def
            service_count_on_node_def split: node_mode.splits if_splits)
    moreover from k iso have "count_list (placed_nodes ds) k = 1" by (simp add: distinct_count_list)
    ultimately show ?thesis using pass_counts [OF loop assms(1), of k] by simp
  qed
  with iso place_loop_records [OF loop assms(1), of undefined undefined] show ?thesis
    by (simp add: assms(5) replica_range_def comp_def)
qed

theorem isolated_placement_exact_witness:
  "length (placed_nodes (fst (place_service_replicas rat_ops id ''web'' (ex_spec Dedicated None None) 3
     [ex_node 1 [], ex_node 2 []] placement_state_new))) = 2"
proof -
  obtain ds nodes' ps' where p: "place_service_replicas rat_ops id ''web'' (ex_spec Dedicated None None) 3
      [ex_node 1 [], ex_node 2 []] placement_state_new = (ds, nodes', ps')" using prod_cases3 by blast
  from isolated_placement_exact [OF _ _ _ p refl] have "length (placed_nodes ds) = 2" by (simp add: ex_placement)
  then show ?thesis by (simp add: p)
qed

section \<open>How a pass and a rollback change the nodes\<close>

text \<open>
  Two lists of nodes are compared element by element: the same nodes in the same order, with their resources in
  a relation that may depend on the node. For a relation \<open>T\<close> indexed by the decisions, one induction over the pass and one
  over the rollback show what is to be checked of a single replica.
\<close>

definition node_rel :: "(node_id \<Rightarrow> 'f node_resources \<Rightarrow> 'f node_resources \<Rightarrow> bool) \<Rightarrow> 'f node_state \<Rightarrow> 'f node_state \<Rightarrow> bool" where
  "node_rel R n n' \<longleftrightarrow> ns_id n' = ns_id n \<and> R (ns_id n) (ns_resources n) (ns_resources n')"

lemma node_rel_trans:
  assumes "list_all2 (node_rel R) xs ys" and "list_all2 (node_rel S) ys zs"
    and "\<And>k a b c. R k a b \<Longrightarrow> S k b c \<Longrightarrow> T k a c"
  shows "list_all2 (node_rel T) xs zs"
proof (rule list_all2_trans [OF _ assms(1,2)])
  fix a b c assume "node_rel R a b" and "node_rel S b c"
  then show "node_rel T a c" unfolding node_rel_def by (auto intro: assms(3))
qed

lemma node_rel_ids: "list_all2 (node_rel R) xs ys \<Longrightarrow> map ns_id ys = map ns_id xs"
  by (induction rule: list_all2_induct) (simp_all add: node_rel_def)

lemma node_rel_refl: "(\<And>k r. R k r r) \<Longrightarrow> list_all2 (node_rel R) xs xs"
  by (simp add: node_rel_def list.rel_refl_strong)

lemma loop_node_rel:
  assumes "place_loop fl lc service spec is nodes ps = (ds, nodes', ps')" and "distinct (map ns_id nodes)"
    and base: "\<And>k r. T [] k r r"
    and other: "\<And>d ds k r r'. pd_node d \<noteq> Some k \<Longrightarrow> T ds k r r' \<Longrightarrow> T (d # ds) k r r'"
    and step: "\<And>nodes ps n i ds r'. n \<in> set (suitable_nodes fl lc service spec nodes ps) \<Longrightarrow>
      T ds (ns_id n) (snd (granted fl spec (ns_resources n))) r' \<Longrightarrow>
      T (placed_decision fl service spec i n # ds) (ns_id n) (ns_resources n) r'"
  shows "list_all2 (node_rel (T ds)) nodes nodes'"
  using assms(1,2)
proof (induction "is" arbitrary: nodes ps ds)
  case Nil
  then show ?case by (auto intro: node_rel_refl base)
next
  case (Cons i "is")
  from Cons.prems(2) show ?case
  proof (cases rule: place_replica_cases [of nodes fl lc service spec ps i])
    case none
    with Cons.prems(1) obtain ds1 where ds: "ds = failed_decision fl service spec i nodes # ds1"
        "place_loop fl lc service spec is nodes ps = (ds1, nodes', ps')" by (auto simp: Let_def split: prod.splits)
    from Cons.IH [OF ds(2) Cons.prems(2)] show ?thesis
      by (rule list.rel_mono_strong) (auto simp: node_rel_def ds(1) intro: other)
  next
    case (some n)
    let ?g = "snd (granted fl spec (ns_resources n))"
    from some(3) Cons.prems(1) obtain ds1 where ds: "ds = placed_decision fl service spec i n # ds1"
        "place_loop fl lc service spec is (set_resources (ns_id n) ?g nodes)
           (place \<lparr> pid_service = service, pid_replica = i \<rparr> (ns_id n) ps) = (ds1, nodes', ps')"
      by (auto simp: Let_def split: prod.splits)
    have "list_all2 (node_rel (T ds1)) (set_resources (ns_id n) ?g nodes) nodes'"
      using Cons.IH [OF ds(2)] Cons.prems(2) by simp
    then have "list_all2 (\<lambda>m m'. node_rel (T ds1) (if ns_id m = ns_id n then m\<lparr>ns_resources := ?g\<rparr> else m) m') nodes nodes'"
      by (simp add: set_resources_def list_all2_map1)
    then show ?thesis
    proof (rule list.rel_mono_strong)
      fix m m' assume m: "m \<in> set nodes" and rel: "node_rel (T ds1) (if ns_id m = ns_id n then m\<lparr>ns_resources := ?g\<rparr> else m) m'"
      show "node_rel (T ds) m m'"
      proof (cases "ns_id m = ns_id n")
        case True
        with m suitable_in [OF some(2)] Cons.prems(2) have "m = n" by (auto simp: distinct_map dest: inj_onD)
        with rel step [OF some(2)] show ?thesis by (simp add: node_rel_def ds(1))
      next
        case False
        with rel other [of "placed_decision fl service spec i n" "ns_id m"] show ?thesis by (simp add: node_rel_def ds(1))
      qed
    qed
  qed
qed

definition released :: "'f f64_ops \<Rightarrow> 'f \<Rightarrow> u64 \<Rightarrow> 'f placement_decision \<Rightarrow> 'f node_resources \<Rightarrow> 'f node_resources" where
  "released fl req_cpu req_mem d r =
     (let r1 = (if f_lt fl (f_lit fl 0 1) req_cpu \<or> req_mem > 0 then release_cpu_memory fl req_cpu req_mem r else r) in
      if pd_gpus d \<noteq> []
      then let slots = release_slots (pd_gpus d) (nr_gpu_allocated r1) in r1\<lparr>nr_gpu_allocated := slots, nr_gpu_used := count_used slots\<rparr>
      else r1)"

lemma rollback_one_nodes:
  assumes "distinct (map ns_id (fst st))"
  shows "fst (rollback_one fl service cpu req d st) =
    map (\<lambda>n. if pd_node d = Some (ns_id n) then on_resources (released fl cpu req d) n else n) (fst st)"
proof (cases "pd_node d")
  case (Some k)
  let ?f = "\<lambda>n. if ns_id n = k then on_resources (release_cpu_memory fl cpu req) n else n"
  have d: "distinct (map ns_id (map ?f (fst st)))" using assms by (simp add: comp_def if_distrib cong: if_cong)
  show ?thesis
    by (auto simp: rollback_one_def Some Let_def released_def update_first_key [OF assms] update_first_key [OF d]
        intro: map_idI [symmetric])
qed (simp add: rollback_one_def)

lemma rollback_node_rel:
  assumes "distinct (map ns_id (fst st))"
    and base: "\<And>k r. T [] k r r"
    and other: "\<And>d ds k r r'. pd_node d \<noteq> Some k \<Longrightarrow> T ds k r r' \<Longrightarrow> T (d # ds) k r r'"
    and step: "\<And>d ds k r r'. pd_node d = Some k \<Longrightarrow> T ds k (released fl cpu req d r) r' \<Longrightarrow> T (d # ds) k r r'"
  shows "list_all2 (node_rel (T ds)) (fst st) (fst (fold (rollback_one fl service cpu req) ds st))"
  using assms(1)
proof (induction ds arbitrary: st)
  case Nil
  then show ?case by (auto intro: node_rel_refl base)
next
  case (Cons d ds)
  let ?f = "\<lambda>n. if pd_node d = Some (ns_id n) then on_resources (released fl cpu req d) n else n"
  have st: "fst (rollback_one fl service cpu req d st) = map ?f (fst st)" by (rule rollback_one_nodes [OF Cons.prems])
  then have "distinct (map ns_id (fst (rollback_one fl service cpu req d st)))"
    using Cons.prems by (simp add: comp_def if_distrib cong: if_cong)
  from Cons.IH [OF this] have "list_all2 (\<lambda>m m'. node_rel (T ds) (?f m) m') (fst st)
      (fst (fold (rollback_one fl service cpu req) (d # ds) st))" by (simp add: st list_all2_map1)
  then show ?case
    by (rule list.rel_mono_strong) (auto simp: node_rel_def intro: other step split: if_splits)
qed

section \<open>Memory\<close>

text \<open>In shared mode memory is taken once per replica placed and stays within what the node has.\<close>

definition memory_taken :: "u64 \<Rightarrow> 'f placement_decision list \<Rightarrow> node_id \<Rightarrow> 'f node_resources \<Rightarrow> 'f node_resources \<Rightarrow> bool" where
  "memory_taken req ds k r r' \<longleftrightarrow> nr_memory_total r' = nr_memory_total r \<and>
     (0 < nr_memory_total r \<and> nr_memory_used r \<le> nr_memory_total r \<longrightarrow>
        nr_memory_used r' \<le> nr_memory_total r \<and>
        unat (nr_memory_used r') = unat (nr_memory_used r) + count_list (placed_nodes ds) k * unat req)"

lemma shared_suitable_memory:
  assumes "n \<in> set (suitable_nodes fl lc service spec nodes ps)" and "ps_node_mode spec = Shared"
    and "0 < nr_memory_total (ns_resources n)" and "nr_memory_used (ns_resources n) \<le> nr_memory_total (ns_resources n)"
  shows "unat (nr_memory_used (ns_resources n)) + unat (requested_memory spec) \<le> unat (nr_memory_total (ns_resources n))"
proof -
  from assms(1,2) have "node_has_capacity fl n spec"
    by (auto simp: suitable_nodes_def can_place_on_node_def split: if_splits)
  with assms(3) have "requested_memory spec = 0 \<or> requested_memory spec \<le> memory_available (ns_resources n)"
    by (auto simp: node_has_capacity_def Let_def word_gt_0 split: if_splits)
  with assms(4) show ?thesis
    by (auto simp: memory_available_def word_le_nat_alt unat_sat_sub)
qed

lemma shared_loop_memory:
  assumes "place_loop fl lc service spec is nodes ps = (ds, nodes', ps')" and "distinct (map ns_id nodes)"
    and "ps_node_mode spec = Shared"
  shows "list_all2 (node_rel (memory_taken (requested_memory spec) ds)) nodes nodes'"
proof (rule loop_node_rel [OF assms(1,2)])
  fix nodes :: "'a node_state list" and ps n i ds r'
  assume n: "n \<in> set (suitable_nodes fl lc service spec nodes ps)"
    and "memory_taken (requested_memory spec) ds (ns_id n) (snd (granted fl spec (ns_resources n))) r'"
  moreover have "unat (sat_add (nr_memory_used (ns_resources n)) (requested_memory spec)) =
        unat (nr_memory_used (ns_resources n)) + unat (requested_memory spec)"
      if "unat (nr_memory_used (ns_resources n)) + unat (requested_memory spec) \<le> unat (nr_memory_total (ns_resources n))"
      using that unat_bound [of "nr_memory_total (ns_resources n)"] by (simp add: unat_sat_add min_def)
  ultimately show "memory_taken (requested_memory spec) (placed_decision fl service spec i n # ds) (ns_id n) (ns_resources n) r'"
    using shared_suitable_memory [OF n assms(3)]
    by (auto simp: memory_taken_def map_filter_simps word_le_nat_alt)
qed (auto simp: memory_taken_def map_filter_simps split: option.splits)

text \<open>A rollback gives back one request per decision.\<close>

definition memory_returned :: "u64 \<Rightarrow> 'f placement_decision list \<Rightarrow> node_id \<Rightarrow> 'f node_resources \<Rightarrow> 'f node_resources \<Rightarrow> bool" where
  "memory_returned req ds k r r' \<longleftrightarrow> nr_memory_total r' = nr_memory_total r \<and>
     unat (nr_memory_used r') = unat (nr_memory_used r) - count_list (placed_nodes ds) k * unat req"

lemma released_memory [simp]:
  "nr_memory_total (released fl cpu req d r) = nr_memory_total r"
  "nr_memory_used (released fl cpu req d r) = sat_sub (nr_memory_used r) req"
  by (auto simp: released_def release_cpu_memory_def Let_def word_gt_0 sat_sub_def)

lemma rollback_memory:
  assumes "distinct (map ns_id (fst st))"
  shows "list_all2 (node_rel (memory_returned req ds)) (fst st) (fst (fold (rollback_one fl service cpu req) ds st))"
  by (rule rollback_node_rel [OF assms])
     (auto simp: memory_returned_def map_filter_simps unat_sat_sub split: option.splits)

lemma place_service_cases:
  assumes "place_service_replicas fl lc service spec replicas nodes ps = (ds, nodes', ps')"
  obtains (kept) "place_loop fl lc service spec (replica_range replicas) nodes ps = (ds, nodes', ps')"
      and "is_gang spec \<Longrightarrow> \<forall>d \<in> set ds. pd_node d \<noteq> None"
  | (rolled_back) ds1 nodes1 ps1 where "place_loop fl lc service spec (replica_range replicas) nodes ps = (ds1, nodes1, ps1)"
      and "is_gang spec" and "\<exists>d \<in> set ds1. pd_node d = None"
      and "(nodes', ps') = fold (rollback_one fl service (reserved_cpu fl spec) (requested_memory spec)) ds1 (nodes1, ps1)"
      and "length ds = unat replicas" and "\<forall>d \<in> set ds. pd_node d = None"
proof -
  obtain ds1 nodes1 ps1 where loop: "place_loop fl lc service spec (replica_range replicas) nodes ps = (ds1, nodes1, ps1)"
    using prod_cases3 by blast
  show thesis
  proof (cases "is_gang spec \<and> list_ex (\<lambda>d. pd_node d = None) ds1")
    case True
    with assms loop show ?thesis
      by (intro rolled_back [OF loop]) (auto simp: place_service_replicas_def finalize_gang_def gang_rollback_def list_ex_iff replica_range_def)
  next
    case False
    with assms have "(ds1, nodes1, ps1) = (ds, nodes', ps')"
      by (simp only: place_service_replicas_def loop finalize_gang_def Let_def prod.case if_False)
    with loop False show ?thesis by (intro kept) (auto simp: list_ex_iff)
  qed
qed

lemma placed_nodes_none: "\<forall>d \<in> set ds. pd_node d = None \<Longrightarrow> placed_nodes ds = []"
  by (induction ds) (simp_all add: map_filter_simps)

text \<open>
  C34. Memory is never overcommitted. In shared mode, for every node that reports its memory and has not used more
  than that: after a pass, rolled back or not, exactly one request more is in use for every
  replica the decisions put there, and the total still covers it.
\<close>

theorem shared_memory_exact:
  assumes "distinct (map ns_id nodes)" and "ps_node_mode spec = Shared"
    and "place_service_replicas fl lc service spec replicas nodes ps = (ds, nodes', ps')"
  shows "list_all2 (node_rel (memory_taken (requested_memory spec) ds)) nodes nodes'"
  using assms(3)
proof (cases rule: place_service_cases)
  case kept
  from shared_loop_memory [OF this(1) assms(1,2)] show ?thesis .
next
  case (rolled_back ds1 nodes1 ps1)
  note loop = shared_loop_memory [OF rolled_back(1) assms(1,2)]
  have "distinct (map ns_id nodes1)" using node_rel_ids [OF loop] assms(1) by simp
  then have "list_all2 (node_rel (memory_returned (requested_memory spec) ds1)) nodes1 nodes'"
    using rollback_memory [of "(nodes1, ps1)" "requested_memory spec" ds1 fl service "reserved_cpu fl spec"]
    by (simp flip: rolled_back(4))
  with loop show ?thesis
    by (rule node_rel_trans)
       (auto simp: memory_taken_def memory_returned_def placed_nodes_none [OF rolled_back(6)] word_le_nat_alt)
qed

lemma ex_mode [simp]: "ps_node_mode (ex_spec mode memory gpu) = mode"
  by (simp add: ex_spec_def)

theorem shared_memory_exact_witness:
  "list_all2 (node_rel (memory_taken (requested_memory (ex_spec Shared (Some ''1Ki'') None))
     (fst (place_service_replicas rat_ops id ''web'' (ex_spec Shared (Some ''1Ki'') None) 3 [ex_node 1 []] placement_state_new))))
   [ex_node 1 []] (fst (snd (place_service_replicas rat_ops id ''web'' (ex_spec Shared (Some ''1Ki'') None) 3 [ex_node 1 []] placement_state_new)))"
proof -
  obtain ds nodes' ps' where p: "place_service_replicas rat_ops id ''web'' (ex_spec Shared (Some ''1Ki'') None) 3
      [ex_node 1 []] placement_state_new = (ds, nodes', ps')" using prod_cases3 by blast
  show ?thesis unfolding p fst_conv snd_conv by (rule shared_memory_exact [OF _ _ p]) simp_all
qed

section \<open>Gang scheduling\<close>

text \<open>
  While a rollback goes on, the nodes \<open>K\<close> it has been to are back to the containers \<open>C\<close> they had, and the others
  still hold those \<open>N\<close> the pass put there.
\<close>

definition rolled_back_to ::
    "(node_id \<Rightarrow> placed_id list) \<Rightarrow> (node_id \<Rightarrow> placed_id list) \<Rightarrow> (placed_id \<rightharpoonup> node_id) \<Rightarrow> node_id set \<Rightarrow> placement_state \<Rightarrow> bool" where
  "rolled_back_to C N m K ps \<longleftrightarrow>
     containers_on_node ps = (\<lambda>k. C k @ (if k \<in> K then [] else N k)) \<and>
     container_nodes ps = (\<lambda>c. if \<exists>k \<in> K. c \<in> set (N k) then None else m c)"

lemma rollback_one_placements:
  assumes "rolled_back_to C N m K (snd st)"
    and "\<And>k c. c \<in> set (C k) \<Longrightarrow> pid_service c \<noteq> service" and "\<And>k c. c \<in> set (N k) \<Longrightarrow> pid_service c = service"
  shows "rolled_back_to C N m (K \<union> set_option (pd_node d)) (snd (rollback_one fl service cpu req d st))"
proof (cases "pd_node d")
  case None
  with assms(1) show ?thesis by (simp add: rollback_one_def)
next
  case (Some k)
  have con: "containers_on_node (snd st) k = C k @ (if k \<in> K then [] else N k)" using assms(1) by (simp add: rolled_back_to_def)
  have "c \<in> set (if k \<in> K then [] else N k) \<Longrightarrow> pid_service c = service" for c using assms(3) [of c k] by (simp split: if_splits)
  note rm = remove_service_tail [OF con assms(2) this]
  have "snd (rollback_one fl service cpu req d st) = snd (remove_service_from_node k service (snd st))"
    by (simp only: rollback_one_def Some option.case Let_def snd_conv)
  with rm assms(1) Some show ?thesis by (auto simp: rolled_back_to_def fun_eq_iff)
qed

lemma rollback_placements:
  assumes "rolled_back_to C N m K (snd st)"
    and "\<And>k c. c \<in> set (C k) \<Longrightarrow> pid_service c \<noteq> service" and "\<And>k c. c \<in> set (N k) \<Longrightarrow> pid_service c = service"
  shows "rolled_back_to C N m (K \<union> set (placed_nodes ds)) (snd (fold (rollback_one fl service cpu req) ds st))"
  using assms(1)
proof (induction ds arbitrary: K st)
  case Nil
  then show ?case by (simp add: map_filter_simps)
next
  case (Cons d ds)
  have "rolled_back_to C N m (K \<union> set_option (pd_node d)) (snd (rollback_one fl service cpu req d st))"
    by (rule rollback_one_placements [OF Cons.prems]) (fact assms(2), fact assms(3))
  from Cons.IH [OF this] show ?case by (cases "pd_node d") (simp_all add: map_filter_simps)
qed

lemma placed_nodes_on_node: "k \<notin> set (placed_nodes ds) \<longleftrightarrow> on_node k ds = []"
  using on_node_count [of k ds] by (metis count_list_0_iff length_0_conv)

lemma in_placed_nodes: "k \<in> set (placed_nodes ds) \<longleftrightarrow> (\<exists>d \<in> set ds. pd_node d = Some k)"
  by (induction ds) (auto simp: map_filter_simps split: option.splits)




end
