(* ===== verification/Placement_Gpus.thy ===== *)
theory Placement_Gpus
  imports Placement
begin

text \<open>
  The GPUs of the nodes: what an allocation takes, that shares stay within their limit, and that the rollback
  of a failed gang gives every slot back. A node has fewer than \<open>2^32\<close> GPUs, so that the indices of the code, which
  are 32 bits wide, name its slots.
\<close>

section \<open>Picking and marking slots\<close>

definition available_slots :: "nat \<Rightarrow> gpu_allocation list \<Rightarrow> nat list" where
  "available_slots i slots = map fst (filter (\<lambda>p. gpu_is_available (snd p)) (enumerate i slots))"

lemma available_slots_simps [simp]:
  "available_slots i [] = []"
  "available_slots i (a # as) = (if gpu_is_available a then i # available_slots (Suc i) as else available_slots (Suc i) as)"
  by (simp_all add: available_slots_def)

lemma pick_gpus_eq:
  assumes "length acc < count"
  shows "pick_gpus count i slots acc = acc @ take (count - length acc) (map word_of_nat (available_slots i slots))"
  using assms
proof (induction slots arbitrary: i acc)
  case (Cons a as)
  show ?case
  proof (cases "gpu_is_available a \<and> length acc + 1 < count")
    case True
    with Cons.IH [of "acc @ [word_of_nat i]" "Suc i"] show ?thesis by (simp add: Let_def take_Cons')
  next
    case False
    with Cons show ?thesis by (auto simp: Let_def take_Cons' not_less le_less_Suc_eq)
  qed
qed simp

lemma available_slots_in: "j \<in> set (available_slots i slots) \<longleftrightarrow> i \<le> j \<and> j < i + length slots \<and> gpu_is_available (slots ! (j - i))"
  by (induction slots arbitrary: i) (auto simp: nth_Cons' Suc_diff_Suc)

lemma distinct_available_slots: "distinct (available_slots i slots)"
  by (induction slots arbitrary: i) (simp_all add: available_slots_in)

lemma length_available_slots: "length (available_slots i slots) = length (filter gpu_is_available slots)"
  by (induction slots arbitrary: i) simp_all

lemma unat_slot: "i < 2 ^ 32 \<Longrightarrow> unat (word_of_nat i :: u32) = i"
  by (simp add: unsigned_of_nat take_bit_nat_eq_self)

lemma slot_index: "i < 2 ^ 32 \<Longrightarrow> unat (idx :: u32) = i \<longleftrightarrow> idx = word_of_nat i"
  by (auto simp: unat_slot)

lemma length_on_slots [simp]: "length (on_slots f is slots) = length slots"
  unfolding on_slots_def by (induction "is" arbitrary: slots) simp_all

lemma nth_on_slots:
  assumes "length slots < 2 ^ 32" and "i < length slots"
  shows "on_slots f is slots ! i = (f ^^ count_list is (word_of_nat i)) (slots ! i)"
  using assms
proof (induction "is" arbitrary: slots)
  case (Cons idx "is")
  have "on_slots f (idx # is) slots ! i = on_slots f is (slots[unat idx := f (slots ! unat idx)]) ! i" by (simp add: on_slots_def)
  with Cons slot_index [of i idx] show ?case by (auto simp: nth_list_update funpow_swap1)
qed (simp add: on_slots_def)

lemma release_slots_on: "release_slots is slots = on_slots release_gpu is slots"
  unfolding release_slots_def on_slots_def by (induction "is" arbitrary: slots) (simp_all add: list_update_beyond not_less)

section \<open>Allocation\<close>

text \<open>A shared slot is used by at most as many containers as it allows.\<close>

fun gpu_within_limit :: "gpu_allocation \<Rightarrow> bool" where
  "gpu_within_limit (GpuShared current mx) = (current \<le> mx)"
| "gpu_within_limit _ = True"

lemma mark_within_limit: "gpu_is_available s \<Longrightarrow> gpu_within_limit (mark_gpu sharing s)"
  by (cases "(sharing, s)" rule: mark_gpu.cases) (auto simp: inc_le)

lemma picked:
  assumes "0 < count" and "length slots < 2 ^ 32"
  shows "distinct (pick_gpus (unat count) 0 slots [])"
    and "length (pick_gpus (unat count) 0 slots []) = min (unat count) (length (filter gpu_is_available slots))"
    and "idx \<in> set (pick_gpus (unat count) 0 slots []) \<Longrightarrow> unat idx < length slots \<and> gpu_is_available (slots ! unat idx)"
proof -
  have p: "pick_gpus (unat count) 0 slots [] = take (unat count) (map word_of_nat (available_slots 0 slots))"
    using assms(1) by (simp add: pick_gpus_eq unat_gt_0 word_gt_0)
  have small: "j < 2 ^ 32" if "j \<in> set (available_slots 0 slots)" for j using that assms(2) by (simp add: available_slots_in)
  then have "inj_on (word_of_nat :: nat \<Rightarrow> u32) (set (available_slots 0 slots))"
    by (intro inj_onI) (metis slot_index)
  then show "distinct (pick_gpus (unat count) 0 slots [])"
    by (simp add: p distinct_map distinct_available_slots)
  show "length (pick_gpus (unat count) 0 slots []) = min (unat count) (length (filter gpu_is_available slots))"
    by (simp add: p length_available_slots min.commute)
  show "unat idx < length slots \<and> gpu_is_available (slots ! unat idx)" if "idx \<in> set (pick_gpus (unat count) 0 slots [])"
  proof -
    from in_set_takeD [OF that [unfolded p]] obtain j where j: "idx = word_of_nat j" "j \<in> set (available_slots 0 slots)" by auto
    with small have "unat idx = j" by (simp add: unat_slot)
    with j(2) show ?thesis by (simp add: available_slots_in)
  qed
qed

text \<open>
  GPU allocation. A request for at least one GPU fails exactly when fewer slots than asked for are available, and
  then changes nothing. Otherwise it takes that many different slots, all available, marks each of them once and no other,
  keeps every shared slot within its limit, and the count of GPUs in use is the number of slots not free.
\<close>

theorem allocate_gpus_exact:
  assumes "0 < count" and "length (nr_gpu_allocated r) < 2 ^ 32" and "list_all gpu_within_limit (nr_gpu_allocated r)"
    and "slots = nr_gpu_allocated r"
  shows "case allocate_gpus count sharing r of
      (None, r') \<Rightarrow> r' = r \<and> length (filter gpu_is_available slots) < unat count
    | (Some is, r') \<Rightarrow>
        distinct is \<and> length is = unat count \<and> (\<forall>idx \<in> set is. unat idx < length slots \<and> gpu_is_available (slots ! unat idx)) \<and>
        length (nr_gpu_allocated r') = length slots \<and>
        (\<forall>i < length slots. nr_gpu_allocated r' ! i = (if word_of_nat i \<in> set is then mark_gpu sharing (slots ! i) else slots ! i)) \<and>
        list_all gpu_within_limit (nr_gpu_allocated r') \<and> nr_gpu_used r' = count_used (nr_gpu_allocated r')"
proof -
  let ?is = "pick_gpus (unat count) 0 slots []"
  note pick = picked [OF assms(1), of slots] 
  have len: "length slots < 2 ^ 32" using assms(2,4) by simp
  have nth: "on_slots (mark_gpu sharing) ?is slots ! i = (if word_of_nat i \<in> set ?is then mark_gpu sharing (slots ! i) else slots ! i)"
    if "i < length slots" for i
    using nth_on_slots [OF len that, of "mark_gpu sharing" ?is] pick(1) [OF len] by (simp add: distinct_count_list)
  have "gpu_within_limit (on_slots (mark_gpu sharing) ?is slots ! i)" if i: "i < length slots" for i
  proof (cases "word_of_nat i \<in> set ?is")
    case True
    with pick(3) [OF len True] i len show ?thesis by (simp add: nth [OF i] unat_slot mark_within_limit)
  next
    case False
    moreover have "list_all gpu_within_limit slots" using assms(3,4) by simp
    ultimately show ?thesis using i by (simp add: nth [OF i] list_all_length)
  qed
  with nth pick(1,2,3) [OF len] show ?thesis
    by (auto simp: allocate_gpus_def Let_def assms(4) list_all_length)
qed

theorem allocate_gpus_exact_witness:
  "list_all gpu_within_limit (nr_gpu_allocated (snd (allocate_gpus 1 (Some Mps) (ns_resources (ex_node 1 [GpuExclusive, GpuShared 2 8])))))"
  using allocate_gpus_exact [of 1 "ns_resources (ex_node 1 [GpuExclusive, GpuShared 2 8])" _ "Some Mps", OF _ _ _ refl]
  by (auto simp: ex_node_def node_resources_new_def split: prod.splits option.splits)

section \<open>Giving slots back\<close>

text \<open>
  \<open>marked sharing j s s'\<close>: slot \<open>s'\<close> is slot \<open>s\<close> marked \<open>j\<close> times, while it was available each time. A slot
  can be given back when it is not a shared one that an exclusive request could overwrite and not one
  shared by nobody.
\<close>

inductive marked :: "gpu_sharing_mode option \<Rightarrow> nat \<Rightarrow> gpu_allocation \<Rightarrow> gpu_allocation \<Rightarrow> bool" for sharing where
  unmarked: "marked sharing 0 s s"
| mark: "marked sharing j s s' \<Longrightarrow> gpu_is_available s' \<Longrightarrow> marked sharing (Suc j) s (mark_gpu sharing s')"

inductive_cases marked_0E: "marked sharing 0 s s'"
inductive_cases marked_SucE: "marked sharing (Suc j) s s'"

fun restorable :: "gpu_sharing_mode option \<Rightarrow> gpu_allocation \<Rightarrow> bool" where
  "restorable sharing (GpuShared current mx) = (current < mx \<longrightarrow> 0 < current \<and> sharing \<in> {Some Mps, Some TimeSlice})"
| "restorable sharing _ = True"

lemma restorable_mark:
  assumes "restorable sharing s" and "gpu_is_available s"
  shows "restorable sharing (mark_gpu sharing s) \<and> release_gpu (mark_gpu sharing s) = s"
proof (cases s)
  case (GpuShared c m)
  with assms have c: "0 < c" "c < m" "sharing \<in> {Some Mps, Some TimeSlice}" by simp_all
  then have "1 < c + 1" "0 < c + 1" by unat_arith+
  with c GpuShared show ?thesis by auto
qed (use assms in \<open>cases sharing; cases "the sharing"; auto\<close>)+

lemma marked_restorable: "marked sharing j s s' \<Longrightarrow> restorable sharing s \<Longrightarrow> restorable sharing s'"
  by (induction rule: marked.induct) (simp_all add: restorable_mark)

lemma marked_release:
  assumes "marked sharing (j + i) s s'" and "restorable sharing s"
  shows "marked sharing j s ((release_gpu ^^ i) s')"
  using assms
proof (induction i arbitrary: s')
  case (Suc i)
  from Suc.prems(1) obtain s1 where s1: "marked sharing (j + i) s s1" "gpu_is_available s1" "s' = mark_gpu sharing s1"
    by (auto elim: marked_SucE)
  with marked_restorable Suc.prems(2) have "release_gpu s' = s1" by (simp add: restorable_mark)
  with Suc.IH [OF s1(1) Suc.prems(2)] show ?case by (simp add: funpow_swap1)
qed simp

lemma marked_released: "marked sharing i s s' \<Longrightarrow> restorable sharing s \<Longrightarrow> (release_gpu ^^ i) s' = s"
  using marked_release [of sharing 0 i s s'] by (auto elim: marked_0E)

lemma marked_front:
  assumes "marked sharing j s s'" and "s = mark_gpu sharing s0" and "gpu_is_available s0"
  shows "marked sharing (Suc j) s0 s'"
  using assms by (induction rule: marked.induct) (auto intro: marked.intros)

definition gpus_of :: "node_id \<Rightarrow> 'f placement_decision list \<Rightarrow> u32 list" where
  "gpus_of k ds = concat (map pd_gpus (on_node k ds))"

lemma gpus_of_simps [simp]:
  "gpus_of k [] = []"
  "gpus_of k (d # ds) = (if pd_node d = Some k then pd_gpus d @ gpus_of k ds else gpus_of k ds)"
  by (simp_all add: gpus_of_def)

definition used_in_sync :: "'f node_resources \<Rightarrow> bool" where
  "used_in_sync r \<longleftrightarrow> nr_gpu_used r = count_used (nr_gpu_allocated r)"

definition gpus_marked ::
    "gpu_sharing_mode option \<Rightarrow> 'f placement_decision list \<Rightarrow> node_id \<Rightarrow> 'f node_resources \<Rightarrow> 'f node_resources \<Rightarrow> bool" where
  "gpus_marked sharing ds k r r' \<longleftrightarrow>
     (length (nr_gpu_allocated r) < 2 ^ 32 \<longrightarrow>
        length (nr_gpu_allocated r') = length (nr_gpu_allocated r) \<and> (used_in_sync r \<longrightarrow> used_in_sync r') \<and>
        (\<forall>i < length (nr_gpu_allocated r).
           marked sharing (count_list (gpus_of k ds) (word_of_nat i)) (nr_gpu_allocated r ! i) (nr_gpu_allocated r' ! i)))"

lemma granted_gpus:
  assumes "length (nr_gpu_allocated r) < 2 ^ 32" and "granted fl spec r = (is, r')"
  shows "length (nr_gpu_allocated r') = length (nr_gpu_allocated r)" and "used_in_sync r \<Longrightarrow> used_in_sync r'"
    and "i < length (nr_gpu_allocated r) \<Longrightarrow>
      (if word_of_nat i \<in> set is
       then count_list is (word_of_nat i) = 1 \<and> gpu_is_available (nr_gpu_allocated r ! i) \<and>
         nr_gpu_allocated r' ! i = mark_gpu (gpu_sharing spec) (nr_gpu_allocated r ! i)
       else nr_gpu_allocated r' ! i = nr_gpu_allocated r ! i)"
proof -
  let ?r1 = "take_cpu_memory fl (reserved_cpu fl spec) (requested_memory spec) r"
  let ?slots = "nr_gpu_allocated r" and ?count = "gpu_count_requested spec"
  let ?is = "pick_gpus (unat ?count) 0 ?slots []"
  have "length (nr_gpu_allocated r') = length ?slots \<and> (used_in_sync r \<longrightarrow> used_in_sync r') \<and>
      (i < length ?slots \<longrightarrow>
       (if word_of_nat i \<in> set is
        then count_list is (word_of_nat i) = 1 \<and> gpu_is_available (?slots ! i) \<and> nr_gpu_allocated r' ! i = mark_gpu (gpu_sharing spec) (?slots ! i)
        else nr_gpu_allocated r' ! i = ?slots ! i))"
  proof (cases "0 < ?count \<and> length ?is = unat ?count")
    case True
    let ?new = "on_slots (mark_gpu (gpu_sharing spec)) ?is ?slots"
    from True assms(2) have r': "is = ?is" "nr_gpu_allocated r' = ?new" "nr_gpu_used r' = count_used ?new"
      by (auto simp: granted_def allocate_gpus_def Let_def)
    note pick = picked [OF conjunct1 [OF True] assms(1)]
    have "count_list ?is (word_of_nat i) = (if word_of_nat i \<in> set ?is then 1 else 0)" by (rule distinct_count_list) (fact pick(1))
    with r' nth_on_slots [OF assms(1), of i "mark_gpu (gpu_sharing spec)" ?is] pick(3) [of "word_of_nat i"] assms(1)
    show ?thesis by (auto simp: used_in_sync_def unat_slot)
  next
    case False
    with assms(2) have "is = [] \<and> r' = ?r1" by (auto simp: granted_def allocate_gpus_def Let_def split: if_splits)
    then show ?thesis by (simp add: used_in_sync_def)
  qed
  then show "length (nr_gpu_allocated r') = length (nr_gpu_allocated r)" and "used_in_sync r \<Longrightarrow> used_in_sync r'"
    and "i < length (nr_gpu_allocated r) \<Longrightarrow>
      (if word_of_nat i \<in> set is
       then count_list is (word_of_nat i) = 1 \<and> gpu_is_available (nr_gpu_allocated r ! i) \<and>
         nr_gpu_allocated r' ! i = mark_gpu (gpu_sharing spec) (nr_gpu_allocated r ! i)
       else nr_gpu_allocated r' ! i = nr_gpu_allocated r ! i)" by simp_all
qed

lemma loop_gpus:
  assumes "place_loop fl lc service spec is nodes ps = (ds, nodes', ps')" and "distinct (map ns_id nodes)"
  shows "list_all2 (node_rel (gpus_marked (gpu_sharing spec) ds)) nodes nodes'"
proof (rule loop_node_rel [OF assms])
  fix nodes :: "'a node_state list" and n :: "'a node_state" and ps i ds r'
  assume rel: "gpus_marked (gpu_sharing spec) ds (ns_id n) (snd (granted fl spec (ns_resources n))) r'"
  obtain "is" r1 where g: "granted fl spec (ns_resources n) = (is, r1)" by fastforce
  show "gpus_marked (gpu_sharing spec) (placed_decision fl service spec i n # ds) (ns_id n) (ns_resources n) r'"
    unfolding gpus_marked_def
  proof (intro impI conjI allI)
    assume len: "length (nr_gpu_allocated (ns_resources n)) < 2 ^ 32"
    note gr = granted_gpus [OF len g]
    from rel len gr(1) show "length (nr_gpu_allocated r') = length (nr_gpu_allocated (ns_resources n))"
      by (simp add: gpus_marked_def g)
    from rel len gr(1,2) show "used_in_sync r'" if "used_in_sync (ns_resources n)"
      using that by (simp add: gpus_marked_def g)
    fix j assume j: "j < length (nr_gpu_allocated (ns_resources n))"
    with rel len gr(1) have m: "marked (gpu_sharing spec) (count_list (gpus_of (ns_id n) ds) (word_of_nat j))
        (nr_gpu_allocated r1 ! j) (nr_gpu_allocated r' ! j)" by (simp add: gpus_marked_def g)
    show "marked (gpu_sharing spec) (count_list (gpus_of (ns_id n) (placed_decision fl service spec i n # ds)) (word_of_nat j))
        (nr_gpu_allocated (ns_resources n) ! j) (nr_gpu_allocated r' ! j)"
      using gr(3) [OF j] m by (cases "word_of_nat j \<in> set is") (auto simp: g count_list_0_iff intro: marked_front)
  qed
qed (auto simp: gpus_marked_def marked.unmarked)

definition gpus_released :: "'f placement_decision list \<Rightarrow> node_id \<Rightarrow> 'f node_resources \<Rightarrow> 'f node_resources \<Rightarrow> bool" where
  "gpus_released ds k r r' \<longleftrightarrow>
     (length (nr_gpu_allocated r) < 2 ^ 32 \<longrightarrow>
        length (nr_gpu_allocated r') = length (nr_gpu_allocated r) \<and> (used_in_sync r \<longrightarrow> used_in_sync r') \<and>
        (\<forall>i < length (nr_gpu_allocated r).
           nr_gpu_allocated r' ! i = (release_gpu ^^ count_list (gpus_of k ds) (word_of_nat i)) (nr_gpu_allocated r ! i)))"

lemma released_gpus:
  "nr_gpu_allocated (released fl cpu req d r) = on_slots release_gpu (pd_gpus d) (nr_gpu_allocated r)"
  "used_in_sync r \<Longrightarrow> used_in_sync (released fl cpu req d r)"
  by (simp_all add: released_def release_cpu_memory_def Let_def used_in_sync_def release_slots_on) (simp add: on_slots_def)

lemma funpow_twice: "(f ^^ m) ((f ^^ n) x) = (f ^^ (n + m)) x"
  by (simp add: add.commute [of n m] funpow_add)

lemma rollback_gpus:
  assumes "distinct (map ns_id (fst st))"
  shows "list_all2 (node_rel (gpus_released ds)) (fst st) (fst (fold (rollback_one fl service cpu req) ds st))"
  by (rule rollback_node_rel [OF assms])
     (auto simp: gpus_released_def released_gpus nth_on_slots funpow_twice)

text \<open>
  A failed gang gives its GPUs back. When a pass with the gang policy fails, every node has the slots it had before,
  each with the shares it had, and the same count of GPUs in use, provided that count was right and no slot is one
  an exclusive request would take over from containers that share it.
\<close>

theorem gang_failure_frees_gpus:
  assumes "distinct (map ns_id nodes)" and "is_gang spec"
    and "place_service_replicas fl lc service spec replicas nodes ps = (ds, nodes', ps')" and "\<exists>d \<in> set ds. \<not> is_success d"
    and "\<forall>n \<in> set nodes. length (nr_gpu_allocated (ns_resources n)) < 2 ^ 32 \<and> used_in_sync (ns_resources n) \<and>
      list_all (restorable (gpu_sharing spec)) (nr_gpu_allocated (ns_resources n))"
  shows "list_all2 (\<lambda>n n'. ns_id n' = ns_id n \<and> nr_gpu_allocated (ns_resources n') = nr_gpu_allocated (ns_resources n) \<and>
    nr_gpu_used (ns_resources n') = nr_gpu_used (ns_resources n)) nodes nodes'"
  using assms(3)
proof (cases rule: place_service_cases)
  case kept
  with assms(2,4) show ?thesis by (auto simp: is_success_def)
next
  case (rolled_back ds1 nodes1 ps1)
  note loop = loop_gpus [OF rolled_back(1) assms(1)]
  have "distinct (map ns_id nodes1)" using node_rel_ids [OF loop] assms(1) by simp
  then have "list_all2 (node_rel (gpus_released ds1)) nodes1 nodes'"
    using rollback_gpus [of "(nodes1, ps1)" ds1 fl service "reserved_cpu fl spec" "requested_memory spec"]
    by (simp flip: rolled_back(4))
  with loop have "list_all2 (node_rel (\<lambda>k r r'.
      length (nr_gpu_allocated r) < 2 ^ 32 \<and> used_in_sync r \<and> list_all (restorable (gpu_sharing spec)) (nr_gpu_allocated r) \<longrightarrow>
      nr_gpu_allocated r' = nr_gpu_allocated r \<and> used_in_sync r')) nodes nodes'"
    by (rule node_rel_trans)
       (auto simp: gpus_marked_def gpus_released_def list_all_length intro!: nth_equalityI marked_released)
  then show ?thesis
    by (rule list.rel_mono_strong) (use assms(5) in \<open>auto simp: node_rel_def used_in_sync_def\<close>)
qed

lemma ex_gang_fails: "list_ex (\<lambda>d. \<not> is_success d) (fst (place_service_replicas rat_ops id ''train'' (ex_spec Dedicated None (Some ex_gang)) 2
     [ex_node 1 [GpuFree]] placement_state_new))"
  by (simp add: place_service_replicas_def replica_range_def place_replica_def ex_placement Let_def upt_rec select_node_def select_for_isolation_def max_by_def
    reserve_node_resources_def gpu_count_requested_def gpu_sharing_def take_cpu_memory_def reserved_cpu_def requested_cpu_def requested_memory_def rat_ops_sel allocate_gpus_def
    finalize_gang_def gang_rollback_def is_success_def place_def)

theorem gang_failure_frees_gpus_witness:
  "map (\<lambda>n. nr_gpu_allocated (ns_resources n)) (fst (snd (place_service_replicas rat_ops id ''train''
     (ex_spec Dedicated None (Some ex_gang)) 2 [ex_node 1 [GpuFree]] placement_state_new))) = [[GpuFree]]"
proof -
  obtain ds nodes' ps' where p: "place_service_replicas rat_ops id ''train'' (ex_spec Dedicated None (Some ex_gang)) 2
      [ex_node 1 [GpuFree]] placement_state_new = (ds, nodes', ps')" using prod_cases3 by blast
  have "\<exists>d \<in> set ds. \<not> is_success d" using ex_gang_fails by (simp add: p list_ex_iff)
  from gang_failure_frees_gpus [OF _ _ p this]
  have "map (\<lambda>n. nr_gpu_allocated (ns_resources n)) nodes' = [[GpuFree]]"
    by (auto simp: is_gang_def ex_placement used_in_sync_def list_all2_Cons1)
  then show ?thesis by (simp add: p)
qed

text \<open>
  An exclusive request takes over a slot that containers share: the slot counts as available while it has room, and it is
  marked exclusive whatever it was.
\<close>

lemma exclusive_takes_shared_slot:
  "allocate_gpus 1 None (ns_resources (ex_node 1 [GpuShared 3 8])) = (Some [0], ns_resources (ex_node 1 [GpuExclusive]))"
  by (simp add: ex_node_def node_resources_new_def allocate_gpus_def Let_def on_slots_def count_used_def)

end
