(* ===== verification/Placement_Policies.thy ===== *)
theory Placement_Policies
  imports Placement
begin

text \<open>
  Policies on top of the placement pass: spreading the replicas of a service, replica groups, the feasibility
  check, and the assignment the scheduler dispatches; with what the interplay of passes shows about
  repeated placement and about nodes meant for one service only.
\<close>

section \<open>Spreading\<close>

text \<open>A request for no resources and no preferred labels: the nodes are told apart by their replica counts only.\<close>

definition weightless :: "('f, 'i, 'c) place_spec \<Rightarrow> bool" where
  "weightless spec \<longleftrightarrow> rs_cpu (ps_resources spec) = None \<and> rs_memory (ps_resources spec) = None \<and> rs_gpu (ps_resources spec) = None \<and>
     (case ps_node_selector spec of Some sel \<Rightarrow> sel_prefer_labels sel = [] | None \<Rightarrow> True)"

lemma weightless_requests:
  assumes "weightless spec"
  shows "requested_memory spec = 0" "requested_cpu fl spec = f_lit fl 0 1" "rs_gpu (ps_resources spec) = None"
    "pref_score (ps_node_selector spec) n = 0" "\<not> is_gang spec"
  using assms
  by (auto simp: weightless_def requested_memory_def requested_cpu_def pref_score_def preferred_label_score_def is_gang_def
      split: option.splits)

lemma weightless_can_place:
  assumes "weightless spec" and "\<not> f_lt fl (f_lit fl 0 1) (f_lit fl 0 1)"
  shows "can_place_on_node fl lc n service Shared sel ps (Some spec) \<longleftrightarrow>
    ns_healthy n \<and> platform_ok n spec \<and> (case sel of Some s \<Rightarrow> matches_required_labels n s | None \<Rightarrow> True)"
  using weightless_requests(1,2,3) [OF assms(1)] assms(2)
  by (simp add: can_place_on_node_def node_has_capacity_def gpu_ok_def)

lemma map_filter_map:
  assumes "\<And>x. P (g x) = P x" and "\<And>x. f (g x) = f x"
  shows "map f (filter P (map g xs)) = map f (filter P xs)"
  using assms by (induction xs) simp_all

lemma weightless_suitable:
  assumes "weightless spec" and "\<not> f_lt fl (f_lit fl 0 1) (f_lit fl 0 1)" and "ps_node_mode spec = Shared"
  shows "map ns_id (suitable_nodes fl lc service spec (set_resources k r nodes) ps') =
    map ns_id (suitable_nodes fl lc service spec nodes ps)"
proof -
  let ?P = "\<lambda>n. (ns_healthy n \<and> platform_ok n spec \<and>
      (case ps_node_selector spec of Some s \<Rightarrow> matches_required_labels n s | None \<Rightarrow> True)) \<and>
      (case effective_affinity spec of Pin selector \<Rightarrow> node_matches_pin n selector | _ \<Rightarrow> True)"
  have suit: "suitable_nodes fl lc service spec ns ps = filter ?P ns" for ns ps
    by (simp add: suitable_nodes_def assms(3) weightless_can_place [OF assms(1,2)] del: conj_assoc)
  have P: "?P (if ns_id n = k then n\<lparr>ns_resources := r\<rparr> else n) = ?P n" for n
    by (cases "ns_id n = k") (simp_all add: platform_ok_def matches_required_labels_def node_matches_pin_def cong: option.case_cong group_affinity.case_cong)
  have "map ns_id (filter ?P (map (\<lambda>m. if ns_id m = k then m\<lparr>ns_resources := r\<rparr> else m) nodes)) = map ns_id (filter ?P nodes)"
    by (rule map_filter_map, rule P) simp
  then show ?thesis unfolding suit set_resources_def .
qed

lemma spread_selects_fewest:
  assumes "weightless spec" and "ps_node_mode spec = Shared" and "effective_affinity spec = Spread"
    and "select_node fl service spec ns ps = Some n" and "m \<in> set ns"
  shows "service_count_on_node ps (ns_id n) service \<le> service_count_on_node ps (ns_id m) service"
proof -
  let ?key = "\<lambda>n. - int (service_count_on_node ps (ns_id n) service)"
  have "max_by (bin_packing_cmp fl service ps (ps_node_selector spec) (Some spec) Spread) ns = Some n"
    using assms(2-4) by (simp add: select_node_def select_for_bin_packing_def)
  then have "?key m \<le> ?key n"
  proof (rule max_by_key [OF _ _ assms(5)])
    fix a b
    show "bin_packing_cmp fl service ps (ps_node_selector spec) (Some spec) Spread a b =
      then_cmp (cmp (?key a) (?key b)) (f_cmp fl (node_utilization fl b) (node_utilization fl a))"
      by (simp add: bin_packing_cmp_def then_cmp_def cmp_def weightless_requests(3,4) [OF assms(1)])
  qed
  then show ?thesis by simp
qed

definition balanced :: "string \<Rightarrow> node_id set \<Rightarrow> placement_state \<Rightarrow> bool" where
  "balanced service K ps \<longleftrightarrow>
     (\<forall>a \<in> K. \<forall>b \<in> K. service_count_on_node ps a service \<le> service_count_on_node ps b service + 1)"

lemma spread_loop:
  assumes "place_loop fl lc service spec is nodes ps = (ds, nodes', ps')" and "distinct (map ns_id nodes)"
    and "weightless spec" and "\<not> f_lt fl (f_lit fl 0 1) (f_lit fl 0 1)" and "ps_node_mode spec = Shared"
    and "effective_affinity spec = Spread"
    and "suitable_nodes fl lc service spec nodes ps \<noteq> []"
    and "balanced service (ns_id ` set (suitable_nodes fl lc service spec nodes ps)) ps"
  shows "(\<forall>d \<in> set ds. is_success d) \<and> balanced service (ns_id ` set (suitable_nodes fl lc service spec nodes ps)) ps'"
  using assms(1,2,7,8)
proof (induction "is" arbitrary: nodes ps ds)
  case (Cons i "is")
  let ?K = "\<lambda>nodes ps. ns_id ` set (suitable_nodes fl lc service spec nodes ps)"
  from Cons.prems(2) show ?case
  proof (cases rule: place_replica_cases [of nodes fl lc service spec ps i])
    case none
    with Cons.prems(3) show ?thesis by simp
  next
    case (some n)
    let ?nodes = "set_resources (ns_id n) (snd (granted fl spec (ns_resources n))) nodes"
    let ?ps = "place \<lparr> pid_service = service, pid_replica = i \<rparr> (ns_id n) ps"
    from some(3) Cons.prems(1) obtain ds1 where ds: "ds = placed_decision fl service spec i n # ds1"
        "place_loop fl lc service spec is ?nodes ?ps = (ds1, nodes', ps')" by (auto simp: Let_def split: prod.splits)
    have ids: "map ns_id (suitable_nodes fl lc service spec ?nodes ?ps) = map ns_id (suitable_nodes fl lc service spec nodes ps)"
      by (rule weightless_suitable [OF assms(3-5)])
    then have K: "?K ?nodes ?ps = ?K nodes ps" by (metis set_map)
    have "service_count_on_node ps (ns_id n) service \<le> service_count_on_node ps k service" if "k \<in> ?K nodes ps" for k
      using that spread_selects_fewest [OF assms(3,5,6) some(1)] by auto
    moreover have "service_count_on_node ?ps k service = service_count_on_node ps k service + (if k = ns_id n then 1 else 0)" for k
      by (simp add: service_count_on_node_def)
    ultimately have "balanced service (?K ?nodes ?ps) ?ps" using Cons.prems(4) unfolding K balanced_def by fastforce
    moreover have "suitable_nodes fl lc service spec ?nodes ?ps \<noteq> []" using ids Cons.prems(3) by (metis map_is_Nil_conv)
    ultimately show ?thesis using Cons.IH [OF ds(2)] Cons.prems(2) by (simp add: K ds(1) is_success_def)
  qed
qed simp



section \<open>What a later pass does to an earlier one\<close>

text \<open>
  A dedicated pass leaves out the nodes that hold a replica from an earlier pass, and numbers its replicas from zero
  again. Scaling a dedicated service up therefore needs as many fresh nodes as the new count: on a cluster large enough for
  it, but with less than that left over, some replica stays without a node.
\<close>

lemma dedicated_pass_bound:
  assumes "distinct (map ns_id nodes)" and "ps_node_mode spec = Dedicated" and "\<not> is_gang spec"
    and "place_service_replicas fl lc service spec replicas nodes ps = (ds, nodes', ps')"
  shows "length (placed_nodes ds) \<le> length (filter (\<lambda>n. \<not> has_service_on_node ps (ns_id n) service) nodes)"
proof -
  have "length (suitable_nodes fl lc service spec nodes ps) \<le> length (filter (\<lambda>n. \<not> has_service_on_node ps (ns_id n) service) nodes)"
    unfolding suitable_nodes_def filter_filter assms(2)
    by (induction nodes) (auto simp: can_place_on_node_def)
  moreover from assms(4) have "length (placed_nodes ds) = min (unat replicas) (length (suitable_nodes fl lc service spec nodes ps))"
  proof (cases rule: place_service_cases)
    case kept
    from isolated_loop [OF kept(1) assms(1)] assms(2) show ?thesis by (simp add: replica_range_def)
  qed (use assms(3) in simp)
  ultimately show ?thesis by simp
qed

lemma dedicated_rescale_incomplete:
  assumes "distinct (map ns_id nodes)" and "ps_node_mode spec = Dedicated" and "\<not> is_gang spec"
    and "place_service_replicas fl lc service spec r1 nodes ps = (ds1, nodes1, ps1)"
    and "place_service_replicas fl lc service spec r2 nodes ps1 = (ds2, nodes2, ps2)"
    and "\<forall>d \<in> set ds1. is_success d" and "length nodes < unat r1 + unat r2"
  shows "\<exists>d \<in> set ds2. \<not> is_success d"
proof -
  have len: "length ds = unat r" if "place_service_replicas fl lc service spec r nodes ps = (ds, nodes', ps')" for r ps ds nodes' ps'
    using that
  proof (cases rule: place_service_cases)
    case kept
    have "length (map pd_container ds) = length (replica_range r)"
      using place_loop_records [OF kept(1) assms(1), of undefined undefined] by (metis length_map)
    then show ?thesis by (simp add: replica_range_def)
  qed
  have all: "length (placed_nodes ds) = length ds \<longleftrightarrow> (\<forall>d \<in> set ds. is_success d)" for ds :: "'a placement_decision list"
  proof -
    have le: "length (placed_nodes ds) \<le> length ds" for ds :: "'a placement_decision list"
      by (induction ds) (auto simp: map_filter_simps split: option.splits)
    show ?thesis
    proof (induction ds)
      case (Cons d ds)
      with le [of ds] show ?case by (auto simp: map_filter_simps is_success_def split: option.splits)
    qed (simp add: map_filter_simps)
  qed
  from assms(4) have loop: "place_loop fl lc service spec (replica_range r1) nodes ps = (ds1, nodes1, ps1)"
    by (cases rule: place_service_cases) (use assms(3) in auto)
  note iso = isolated_loop [OF loop assms(1)]
  let ?holds = "\<lambda>n. has_service_on_node ps1 (ns_id n) service"
  have "set (placed_nodes ds1) \<subseteq> ns_id ` set (filter ?holds nodes)"
  proof
    fix k assume k: "k \<in> set (placed_nodes ds1)"
    then have "0 < count_list (placed_nodes ds1) k" by (metis count_list_0_iff gr0I)
    with pass_counts(1) [OF loop assms(1), of k] have "has_service_on_node ps1 k service" by (simp add: has_service_iff)
    moreover from k iso assms(2) obtain n where "n \<in> set nodes" "ns_id n = k" by (auto dest: suitable_in)
    ultimately show "k \<in> ns_id ` set (filter ?holds nodes)" by auto
  qed
  then have "card (set (placed_nodes ds1)) \<le> card (ns_id ` set (filter ?holds nodes))" by (simp add: card_mono)
  also have "\<dots> \<le> length (filter ?holds nodes)" by (metis card_image_le card_length finite_set le_trans)
  finally have "unat r1 \<le> length (filter ?holds nodes)"
    using iso assms(2,6) all [of ds1] len [OF assms(4)] by (simp add: distinct_card)
  with dedicated_pass_bound [OF assms(1-3,5)] sum_length_filter_compl [of ?holds nodes] assms(7)
  have "length (placed_nodes ds2) < unat r2" by simp
  with all [of ds2] len [OF assms(5)] show ?thesis by auto
qed

text \<open>
  A service in shared mode is placed without a look at what is on the node, so it may join a node that an exclusive
  service was given for itself.
\<close>

lemma shared_ignores_placements:
  "can_place_on_node fl lc n service Shared sel ps spec = can_place_on_node fl lc n service Shared sel ps' spec"
  by (simp add: can_place_on_node_def)

section \<open>Replica groups\<close>

lemma place_service_containers:
  assumes "place_service_replicas fl lc service spec replicas nodes ps = (ds, nodes', ps')" and "distinct (map ns_id nodes)"
  shows "map pd_container ds = map (\<lambda>i. \<lparr> pid_service = service, pid_replica = i \<rparr>) (replica_range replicas)"
  using assms(1)
proof (cases rule: place_service_cases)
  case kept
  from place_loop_records [OF kept(1) assms(2), of undefined undefined] show ?thesis by (elim conjE)
next
  case (rolled_back ds1 nodes1 ps1)
  with assms(1) have "place_service_replicas fl lc service spec replicas nodes ps =
      gang_rollback fl service replicas ds1 nodes1 ps1 (reserved_cpu fl spec) (requested_memory spec)"
    by (auto simp: place_service_replicas_def finalize_gang_def list_ex_iff)
  with assms(1) show ?thesis by (auto simp: gang_rollback_def)
qed

text \<open>
  The replicas of every group are numbered from zero under the name of the service, so two groups yield decisions for the
  same container.
\<close>

lemma place_loop_ids:
  assumes "place_service_replicas fl lc service spec replicas nodes ps = (ds, nodes', ps')" and "distinct (map ns_id nodes)"
  shows "map ns_id nodes' = map ns_id nodes"
  using assms(1)
proof (cases rule: place_service_cases)
  case kept
  from place_loop_records [OF kept(1) assms(2), of undefined undefined] show ?thesis by (elim conjE)
next
  case (rolled_back ds1 nodes1 ps1)
  have ids: "map ns_id nodes1 = map ns_id nodes"
    using place_loop_records [OF rolled_back(1) assms(2), of undefined undefined] by (elim conjE)
  have "list_all2 (node_rel (\<lambda>_ _ _. True)) (fst (nodes1, ps1)) (fst (nodes', ps'))"
    unfolding rolled_back(4) by (rule rollback_node_rel [where T = "\<lambda>_ _ _ _. True"]) (simp_all add: ids assms(2))
  from node_rel_ids [OF this] ids show ?thesis by simp
qed

lemma groups_containers:
  assumes "place_service_with_groups fl lc service spec gs nodes ps = (ds, nodes', ps')" and "distinct (map ns_id nodes)"
  shows "map pd_container ds = concat (map (\<lambda>g. map (\<lambda>i. \<lparr> pid_service = service, pid_replica = i \<rparr>) (replica_range (rg_count g))) gs)"
  using assms
proof (induction gs arbitrary: nodes ps ds)
  case (Cons g gs)
  obtain ds1 nodes1 ps1 where p: "place_service_replicas fl lc service (effective_spec_for_group spec g) (rg_count g) nodes ps = (ds1, nodes1, ps1)"
    using prod_cases3 by blast
  with Cons.prems(1) obtain es where es: "ds = map (\<lambda>d. d\<lparr>pd_role := rg_role g\<rparr>) ds1 @ es"
      "place_service_with_groups fl lc service spec gs nodes1 ps1 = (es, nodes', ps')" by (auto simp: Let_def split: prod.splits)
  from Cons.IH [OF es(2)] place_loop_ids [OF p Cons.prems(2)] Cons.prems(2) place_service_containers [OF p Cons.prems(2)]
  show ?case by (simp add: es(1) comp_def)
qed simp

lemma groups_share_containers:
  assumes "place_service_with_groups fl lc service spec [g, h] nodes ps = (ds, nodes', ps')" and "distinct (map ns_id nodes)"
    and "0 < rg_count g" and "0 < rg_count h"
  shows "\<not> distinct (map pd_container ds)"
proof -
  have "0 \<in> set (replica_range n)" if "0 < n" for n
    using that by (auto simp: replica_range_def word_gt_0 unat_gt_0 intro!: image_eqI [of _ _ 0])
  with assms(3,4) show ?thesis unfolding groups_containers [OF assms(1,2)] by auto
qed

section \<open>The assignment that is dispatched\<close>

lemma group_assignments_get:
  "hm_get (group_assignments ds) k = (if on_node k ds = [] then None else Some (map pd_container (on_node k ds)))"
proof (induction ds rule: rev_induct)
  case Nil
  then show ?case by (simp add: group_assignments_def)
next
  case (snoc d ds)
  then show ?case by (cases "pd_node d") (auto simp: group_assignments_def)
qed

text \<open>What a node must satisfy whatever is placed on it: its health, its platform and its labels.\<close>

definition constraints_ok :: "('f, 'i, 'c) place_spec \<Rightarrow> 'f node_state \<Rightarrow> bool" where
  "constraints_ok spec n \<longleftrightarrow> ns_healthy n \<and> platform_ok n spec \<and>
     (case ps_node_selector spec of Some sel \<Rightarrow> matches_required_labels n sel | None \<Rightarrow> True)"

lemma constraints_ok_resources [simp]: "constraints_ok spec (n\<lparr>ns_resources := r\<rparr>) = constraints_ok spec n"
  by (simp add: constraints_ok_def platform_ok_def matches_required_labels_def cong: option.case_cong)

lemma suitable_constraints: "n \<in> set (suitable_nodes fl lc service spec nodes ps) \<Longrightarrow> constraints_ok spec n"
  by (auto simp: suitable_nodes_def can_place_on_node_def constraints_ok_def split: if_splits)

lemma loop_constraints:
  assumes "place_loop fl lc service spec is nodes ps = (ds, nodes', ps')" and "distinct (map ns_id nodes)"
    and "d \<in> set ds" and "pd_node d = Some k"
  shows "\<exists>n \<in> set nodes. ns_id n = k \<and> constraints_ok spec n"
  using assms
proof (induction "is" arbitrary: nodes ps ds)
  case (Cons i "is")
  from Cons.prems(2) show ?case
  proof (cases rule: place_replica_cases [of nodes fl lc service spec ps i])
    case none
    with Cons.prems(1) obtain ds1 where ds: "ds = failed_decision fl service spec i nodes # ds1"
        "place_loop fl lc service spec is nodes ps = (ds1, nodes', ps')" by (auto simp: Let_def split: prod.splits)
    with Cons.IH [OF ds(2) Cons.prems(2)] Cons.prems(3,4) show ?thesis by auto
  next
    case (some n)
    let ?nodes = "set_resources (ns_id n) (snd (granted fl spec (ns_resources n))) nodes"
    from some(3) Cons.prems(1) obtain ds1 where ds: "ds = placed_decision fl service spec i n # ds1"
        "place_loop fl lc service spec is ?nodes (place \<lparr> pid_service = service, pid_replica = i \<rparr> (ns_id n) ps) = (ds1, nodes', ps')"
      by (auto simp: Let_def split: prod.splits)
    show ?thesis
    proof (cases "d \<in> set ds1")
      case True
      with Cons.IH [OF ds(2)] Cons.prems(2,4) have "\<exists>m \<in> set ?nodes. ns_id m = k \<and> constraints_ok spec m" by simp
      then show ?thesis by (auto simp: set_resources_def split: if_splits)
    next
      case False
      with ds(1) Cons.prems(3,4) have "ns_id n = k" by simp
      with suitable_constraints [OF some(2)] suitable_in [OF some(2)] show ?thesis by auto
    qed
  qed
qed simp

lemma placed_constraints:
  assumes "place_service_replicas fl lc service spec replicas nodes ps = (ds, nodes', ps')" and "distinct (map ns_id nodes)"
    and "d \<in> set ds" and "pd_node d = Some k"
  shows "\<exists>n \<in> set nodes. ns_id n = k \<and> constraints_ok spec n"
  using assms(1)
proof (cases rule: place_service_cases)
  case kept
  from loop_constraints [OF this(1) assms(2-4)] show ?thesis .
qed (use assms(3,4) in auto)

lemma distinct_replica_range: "distinct (replica_range n)"
  unfolding replica_range_def distinct_map
proof (intro conjI inj_onI)
  fix i j assume "i \<in> set [0..<unat n]" "j \<in> set [0..<unat n]" and eq: "(word_of_nat i :: u32) = word_of_nat j"
  then have "i < 2 ^ 32" "j < 2 ^ 32" using unat_bound [of n] by auto
  with arg_cong [OF eq, of unat] show "i = j" by (simp add: unsigned_of_nat take_bit_nat_eq_self)
qed simp

lemma replica_range_less: "i \<in> set (replica_range n) \<Longrightarrow> i < n"
  using unat_bound [of n] by (auto simp: replica_range_def word_less_nat_alt unsigned_of_nat take_bit_nat_eq_self)

lemma node_states_from_registry:
  assumes "hm_wf registry" and "\<forall>(k, info) \<in> set registry. ni_node_id info = k"
  shows "distinct (map ns_id (cluster_nodes_to_node_states fl registry))"
    and "n \<in> set (cluster_nodes_to_node_states fl registry) \<Longrightarrow>
      \<exists>info. hm_get registry (ns_id n) = Some info \<and> ni_status info = ''ready'' \<and> n = node_info_state fl info"
proof -
  have id: "ns_id (node_info_state fl info) = ni_node_id info" for info by (simp add: node_info_state_def Let_def)
  have "map ni_node_id (map snd registry) = map fst registry" using assms(2) by (induction registry) auto
  from this [symmetric] assms(1) have "distinct (map ni_node_id (map snd registry))" by (rule subst)
  then show "distinct (map ns_id (cluster_nodes_to_node_states fl registry))"
    unfolding cluster_nodes_to_node_states_def by (simp add: comp_def id distinct_map_filter)
  show "\<exists>info. hm_get registry (ns_id n) = Some info \<and> ni_status info = ''ready'' \<and> n = node_info_state fl info"
    if "n \<in> set (cluster_nodes_to_node_states fl registry)"
  proof -
    from that obtain k info where n: "(k, info) \<in> set registry" "ni_status info = ''ready''" "n = node_info_state fl info"
      by (auto simp: cluster_nodes_to_node_states_def)
    with assms(2) have "ns_id n = k" by (auto simp: id)
    with n hm_wf_mem_iff [OF assms(1), of k info] show ?thesis by auto
  qed
qed


definition ex_info :: "string \<Rightarrow> node_id \<Rightarrow> rat node_info" where
  "ex_info status k =
     \<lparr> ni_node_id = k, ni_address = ''10.0.0.1:9000'', registered_at = 0, last_heartbeat = 0, ni_gpus = [], ni_wg_public_key = [],
       ni_overlay_ip = [], ni_overlay_port = 0, ni_advertise_addr = ''10.0.0.1'', ni_api_port = 0, cpu_total = 4, memory_total = 4096,
       disk_total = 0, cpu_used = 0, memory_used = 0, disk_used = 0, gpu_utilization = [], ni_status = status, ni_mode = ''full'',
       ni_os = None, ni_arch = None, ni_slice_cidr = [], ni_labels = Map.empty \<rparr>"

lemma ex_dispatch:
  "fst (compute_placement rat_ops id (ex_spec Dedicated None None) ''web'' 2
     (cluster_nodes_to_node_states rat_ops [(1, ex_info ''draining'' 1), (2, ex_info ''ready'' 2)]) placement_state_new
     (Some (ex_spec Dedicated None None))) = [(2, [\<lparr> pid_service = ''web'', pid_replica = 0 \<rparr>])]"
  by (simp add: compute_placement_def cluster_nodes_to_node_states_def node_info_state_def ex_info_def place_service_replicas_def
      replica_range_def place_replica_def ex_placement Let_def upt_rec select_node_def select_for_isolation_def max_by_def
      reserve_node_resources_def gpu_count_requested_def gpu_sharing_def take_cpu_memory_def reserved_cpu_def requested_cpu_def
      requested_memory_def rat_ops_sel finalize_gang_def place_def group_assignments_def)


section \<open>Feasibility\<close>

lemma feasible_member:
  assumes "validate_placement_feasibility services available = Inr ()" and "(service, mode, replicas) \<in> set services" and "mode \<noteq> Shared"
  shows "unat replicas \<le> available"
proof -
  let ?ded = "sum_list (map (\<lambda>(_, m, r). if m = Dedicated then unat r else 0) services)"
  let ?exc = "List.map_filter (\<lambda>(s, m, r). if m = Exclusive then Some (s, r) else None) services"
  have "?ded + sum_list (map (\<lambda>(_, r). unat r) ?exc) \<le> available"
    using assms(1) by (auto simp: validate_placement_feasibility_def Let_def split: if_splits)
  moreover have "unat replicas \<le> ?ded" if "mode = Dedicated"
    using assms(2) that by (intro member_le_sum_list) force+
  moreover have "unat replicas \<le> sum_list (map (\<lambda>(_, r). unat r) ?exc)" if "mode = Exclusive"
    using assms(2) that by (intro member_le_sum_list) (force simp: map_filter_def)+
  ultimately show ?thesis using assms(3) by (cases mode) simp_all
qed

lemma all_placed_iff: "length (placed_nodes ds) = length ds \<longleftrightarrow> (\<forall>d \<in> set ds. is_success d)"
proof -
  have le: "length (placed_nodes ds) \<le> length ds" for ds :: "'a placement_decision list"
    by (induction ds) (auto simp: map_filter_simps split: option.splits)
  show ?thesis
  proof (induction ds)
    case (Cons d ds)
    with le [of ds] show ?case by (auto simp: map_filter_simps is_success_def split: option.splits)
  qed (simp add: map_filter_simps)
qed

text \<open>
  The feasibility check keeps its promise for one service at a time: if it accepts a set of services for as many nodes as
  suit a dedicated or exclusive service of the set, then placing that service gives every one of its replicas a node.
\<close>

theorem feasible_service_placed:
  assumes "distinct (map ns_id nodes)" and "ps_node_mode spec \<noteq> Shared" and "\<not> is_gang spec"
    and "(service, ps_node_mode spec, replicas) \<in> set services"
    and "validate_placement_feasibility services (length (suitable_nodes fl lc service spec nodes ps)) = Inr ()"
  shows "\<forall>d \<in> set (fst (place_service_replicas fl lc service spec replicas nodes ps)). is_success d"
proof -
  obtain ds nodes' ps' where p: "place_service_replicas fl lc service spec replicas nodes ps = (ds, nodes', ps')"
    using prod_cases3 by blast
  then have loop: "place_loop fl lc service spec (replica_range replicas) nodes ps = (ds, nodes', ps')"
    by (cases rule: place_service_cases) (use assms(3) in auto)
  have "length ds = unat replicas"
    using arg_cong [OF place_service_containers [OF p assms(1)], of length] by (simp add: replica_range_def)
  moreover have "unat replicas \<le> length (suitable_nodes fl lc service spec nodes ps)"
    by (rule feasible_member [OF assms(5,4,2)])
  ultimately have "length (placed_nodes ds) = length ds"
    using isolated_loop [OF loop assms(1,2)] by (simp add: replica_range_def)
  then show ?thesis by (simp add: p all_placed_iff)
qed

theorem feasible_service_placed_witness:
  "list_all is_success (fst (place_service_replicas rat_ops id ''web'' (ex_spec Exclusive None None) 2
     [ex_node 1 [], ex_node 2 []] placement_state_new))"
  unfolding list_all_iff
  by (rule feasible_service_placed [of "[ex_node 1 [], ex_node 2 []]" "ex_spec Exclusive None None" "''web''" 2
      "[(''web'', Exclusive, 2), (''api'', Shared, 9)]" rat_ops id placement_state_new])
    (simp_all add: ex_placement validate_placement_feasibility_def map_filter_simps Let_def)

section \<open>Memory sizes\<close>

lemma ends_with_append: "length p = length q \<Longrightarrow> ends_with (x @ p) q \<longleftrightarrow> p = q"
  by (auto simp: ends_with_iff)

lemma strip_suffix_append: "length p = length q \<Longrightarrow> strip_suffix (x @ p) q = (if p = q then Some x else None)"
  by (simp add: strip_suffix_def ends_with_append)

text \<open>
  A memory size written as a decimal count and a binary suffix is read as that many bytes, and not read at all when they do
  not fit in 64 bits; the validation of specifications accepts it exactly when the count is not zero.
\<close>

theorem memory_string_exact:
  assumes "(suffix, mult) \<in> set memory_suffixes"
  shows "memory_string_to_bytes (show_word (n :: u64) @ suffix) = (if unat n * unat mult < 2 ^ 64 then Some (n * mult) else None) \<and>
    (validate_memory (show_word n @ suffix) \<longleftrightarrow> n > 0)"
proof -
  have read: "parse_uint (show_word n) = Some n" by (rule parse_show)
  from assms consider "suffix = ''Ki''" "mult = 1024" | "suffix = ''Mi''" "mult = 1024 * 1024"
    | "suffix = ''Gi''" "mult = 1024 * 1024 * 1024" | "suffix = ''Ti''" "mult = 1024 * 1024 * 1024 * 1024"
    by (auto simp: memory_suffixes_def)
  then show ?thesis
    by cases (simp_all add: memory_string_to_bytes_def memory_suffixes_def strip_suffix_append read checked_mul_def
        validate_memory_def ends_with_append)
qed

theorem memory_string_exact_witness:
  "memory_string_to_bytes (show_word (3 :: u64) @ ''Mi'') = Some 3145728"
  using memory_string_exact [of "''Mi''" "1024 * 1024" 3] by (simp add: memory_suffixes_def)

text \<open>
  A size that does not fit passes validation, and placement then takes the request for none at all.
\<close>

lemma oversized_memory_ignored:
  "validate_memory (show_word (2 ^ 24 :: u64) @ ''Ti'') \<and>
   requested_memory (ex_spec Shared (Some (show_word (2 ^ 24 :: u64) @ ''Ti'')) None) = 0"
proof -
  have a: "validate_memory (show_word n @ ''Ti'') \<longleftrightarrow> n > 0" for n :: u64
    by (simp add: validate_memory_def ends_with_append)
  have b: "memory_string_to_bytes (show_word n @ ''Ti'') = checked_mul n (1024 * 1024 * 1024 * 1024)" for n :: u64
    by (simp add: memory_string_to_bytes_def memory_suffixes_def strip_suffix_append)
  show ?thesis
    using a [of "2 ^ 24"] b [of "2 ^ 24"] by (simp add: requested_memory_def ex_spec_def checked_mul_def)
qed

section \<open>What a rollback takes along\<close>

lemma drain_service_left:
  assumes "drain_service service i cs removed = (left, removed')" and "\<forall>j < i. j < length cs \<longrightarrow> pid_service (cs ! j) \<noteq> service"
  shows "\<forall>c \<in> set left. pid_service c \<noteq> service"
  using assms
proof (induction service i cs removed rule: drain_service.induct)
  case (1 service i cs removed)
  note eq = "1.prems"(1) [unfolded drain_service.simps [of service i cs removed]]
  show ?case
  proof (cases "i < length cs")
    case False
    from eq False have "left = cs" by simp
    then show ?thesis using "1.prems"(2) False by (metis in_set_conv_nth less_le_trans not_less)
  next
    case True
    show ?thesis
    proof (cases "pid_service (cs ! i) = service")
      case s: True
      have "\<forall>j < i. j < length (swap_remove i cs) \<longrightarrow> pid_service (swap_remove i cs ! j) \<noteq> service"
        using "1.prems"(2) True by (auto simp: swap_remove_def nth_butlast)
      moreover from eq True s have "drain_service service i (swap_remove i cs) (removed @ [cs ! i]) = (left, removed')" by simp
      ultimately show ?thesis using "1.IH"(1) [OF True s] by simp
    next
      case s: False
      have "\<forall>j < Suc i. j < length cs \<longrightarrow> pid_service (cs ! j) \<noteq> service"
        using "1.prems"(2) s by (auto simp: less_Suc_eq)
      moreover from eq True s have "drain_service service (Suc i) cs removed = (left, removed')" by simp
      ultimately show ?thesis using "1.IH"(2) [OF True s] by simp
    qed
  qed
qed

text \<open>
  Giving up a gang removes every container of the service from the nodes it had chosen, those of earlier passes included.
\<close>

lemma remove_service_none: "service_count_on_node (snd (remove_service_from_node n service ps)) n service = 0"
proof (cases "node_containers ps n")
  case None
  then show ?thesis by (simp add: remove_service_from_node_def service_count_on_node_def containers_on_node_def)
next
  case (Some cs)
  obtain left removed where "drain_service service 0 cs [] = (left, removed)" by fastforce
  with drain_service_left [OF this] Some show ?thesis
    by (auto simp: remove_service_from_node_def service_count_on_node_def containers_on_node_def filter_empty_conv)
qed

end
