(* ===== verification/Scheduler.thy ===== *)
theory Scheduler
  imports Placement_Policies
begin

text \<open>
  The scheduler of a cluster, \<open>crates/zlayer-scheduler/src/lib.rs\<close>, over the autoscaling loop, the placement algorithm and
  the replicated cluster state: registration, dispatch of scale requests to nodes, the search for another node when
  one refuses, and the rescheduling after a node has died. The HTTP client, the creation of the Raft coordinator and
  its consensus are not modelled; a proposal is accepted and applied, or it fails.
\<close>

section \<open>State and environment\<close>

text \<open>
  The scheduler of a cluster: the loop's own state (\<open>ds_core\<close>, with the specifications of the services), the placements it
  has made, the cluster state the Raft state machine has applied, and the scale requests sent to nodes so far (service, node,
  URL and replica count). A standalone scheduler has no Raft coordinator and its cluster state is not used.
\<close>

record scale_request =
  sq_service :: string
  sq_node :: node_id
  sq_url :: string
  sq_replicas :: u32

record ('f, 'i, 'c, 'n, 'm) dist_scheduler =
  ds_core :: "('f, ('f, 'i, 'c) place_spec) scheduler"
  ds_placement :: placement_state
  ds_cluster :: "('f, 'n, 'm) cluster_state"
  ds_sent :: "scale_request list"

text \<open>What a node answers to a scale request: it runs it, asks for another node with an operating system and a message, or fails.\<close>

datatype scale_reply = RanIt | RerouteTo string string | RequestFailed

text \<open>
  The world of one operation: which proposals the cluster accepts and the error of one it does not, the clocks, the order in which the maps of nodes and
  services are iterated, the answers of the nodes (a function of how many requests were sent before) and of the local agent.
  The default specification is that of a service with no entry.
\<close>

record ('f, 'i, 'c, 'n, 'm) dist_env =
  de_fl :: "'f f64_ops"
  de_lc :: "string \<Rightarrow> string"
  de_api :: "('n, 'm) ipnet_api"
  de_clock :: clock
  de_now :: u64
  de_self :: node_id
  de_accepts :: "'f request \<Rightarrow> bool"
  de_raft_error :: string
  de_nodes :: "(node_id \<rightharpoonup> 'f node_info) \<Rightarrow> (node_id, 'f node_info) hmap"
  de_services :: "(string \<rightharpoonup> service_state) \<Rightarrow> (string, service_state) hmap"
  de_reply :: "nat \<Rightarrow> scale_request \<Rightarrow> scale_reply"
  de_agent :: "string \<Rightarrow> u32 \<Rightarrow> scheduler_error + unit"
  de_default :: "('f, 'i, 'c) place_spec"

definition propose ::
  "('f::zero, 'i, 'c, 'n, 'm) dist_env \<Rightarrow> 'f request \<Rightarrow> ('f, 'i, 'c, 'n, 'm) dist_scheduler \<Rightarrow>
   (scheduler_error + response) \<times> ('f, 'i, 'c, 'n, 'm) dist_scheduler" where
  "propose env req ds =
     (if de_accepts env req
      then let (r, st) = cluster_apply (de_api env) (de_clock env) req (ds_cluster ds) in (Inr r, ds\<lparr>ds_cluster := st\<rparr>)
      else (Inl (RaftError (''Failed to propose: '' @ de_raft_error env)), ds))"

section \<open>Registration\<close>

fun spec_bounds :: "scale_spec \<Rightarrow> u32 \<times> u32" where
  "spec_bounds (Adaptive mn mx _ _) = (mn, mx)"
| "spec_bounds (Fixed replicas) = (replicas, replicas)"
| "spec_bounds Manual = (0, - 1)"

definition ds_register_service ::
  "('f::zero, 'i, 'c, 'n, 'm) dist_env \<Rightarrow> string \<Rightarrow> scale_spec \<Rightarrow> u32 \<Rightarrow> ('f, 'i, 'c) place_spec option \<Rightarrow>
   ('f, 'i, 'c, 'n, 'm) dist_scheduler \<Rightarrow> (scheduler_error + unit) \<times> ('f, 'i, 'c, 'n, 'm) dist_scheduler" where
  "ds_register_service env name scale_spec initial_replicas service_spec ds =
     (let ds1 = ds\<lparr>ds_core := snd (register_service (de_fl env) name scale_spec initial_replicas service_spec (Inr ()) (ds_core ds))\<rparr> in
      if sched_raft (ds_core ds)
      then (let (mn, mx) = spec_bounds scale_spec;
                state = \<lparr> current_replicas = initial_replicas, desired_replicas = initial_replicas, min_replicas = mn,
                          max_replicas = mx, health_status = health_status.HealthUnknown, last_scale_time = None, assigned_nodes = [de_self env] \<rparr>
            in case propose env (UpdateServiceState name state) ds1 of
                 (Inl e, ds2) \<Rightarrow> (Inl e, ds2)
               | (Inr _, ds2) \<Rightarrow> (Inr (), ds2))
      else (Inr (), ds1))"

section \<open>Dispatch\<close>

definition build_node_states ::
  "('f, 'i, 'c, 'n, 'm) dist_env \<Rightarrow> ('f, 'i, 'c, 'n, 'm) dist_scheduler \<Rightarrow> 'f node_state list" where
  "build_node_states env ds =
     (if sched_raft (ds_core ds) then cluster_nodes_to_node_states (de_fl env) (de_nodes env (cs_nodes (ds_cluster ds))) else [])"

definition scale_url :: "'f node_info \<Rightarrow> string" where
  "scale_url info =
     (let addr = (if ni_advertise_addr info = [] then takeWhile (\<lambda>c. c \<noteq> CHR '':'') (ni_address info) else ni_advertise_addr info);
          port = (if ni_api_port info > 0 then ni_api_port info else 3669)
      in ''http://'' @ addr @ '':'' @ show_word port @ ''/api/v1/internal/scale'')"

text \<open>The loop over the assignments: it gathers the nodes that ask for another node.\<close>

fun dispatch_loop ::
  "('f, 'i, 'c, 'n, 'm) dist_env \<Rightarrow> string \<Rightarrow> (node_id \<rightharpoonup> 'f node_info) \<Rightarrow> (node_id, placed_id list) hmap \<Rightarrow>
   scale_request list \<Rightarrow> (node_id \<times> string \<times> string) list \<times> scale_request list" where
  "dispatch_loop env service nodes [] sent = ([], sent)"
| "dispatch_loop env service nodes ((k, containers) # asg) sent =
     (case nodes k of
        None \<Rightarrow> dispatch_loop env service nodes asg sent
      | Some info \<Rightarrow>
          let req = \<lparr> sq_service = service, sq_node = k, sq_url = scale_url info, sq_replicas = word_of_nat (length containers) \<rparr>;
              (rerouted, sent') = dispatch_loop env service nodes asg (sent @ [req])
          in (case de_reply env (length sent) req of
                RerouteTo os message \<Rightarrow> ((k, os, message) # rerouted, sent')
              | _ \<Rightarrow> (rerouted, sent')))"

definition service_state_default :: service_state where
  "service_state_default = \<lparr> current_replicas = 0, desired_replicas = 0, min_replicas = 0, max_replicas = 0,
     health_status = health_status.HealthUnknown, last_scale_time = None, assigned_nodes = [] \<rparr>"

definition unhealthy_message :: "string \<Rightarrow> string \<Rightarrow> string \<Rightarrow> string" where
  "unhealthy_message service required_os detail =
     ''No cluster node can run service '' @ [CHR 0x27] @ service @ [CHR 0x27] @ '' (requires OS '' @ [CHR 0x27] @ required_os @ [CHR 0x27] @
     ''): '' @ detail @ ''. Remedies: enable `--install-wsl yes` on an existing Windows node, or add a '' @ required_os @ '' peer to the cluster.''"

definition mark_service_unhealthy_with_reason ::
  "('f::zero, 'i, 'c, 'n, 'm) dist_env \<Rightarrow> string \<Rightarrow> string \<Rightarrow> string \<Rightarrow> ('f, 'i, 'c, 'n, 'm) dist_scheduler \<Rightarrow>
   ('f, 'i, 'c, 'n, 'm) dist_scheduler" where
  "mark_service_unhealthy_with_reason env service required_os detail ds =
     (if \<not> sched_raft (ds_core ds) then ds
      else
        let message = unhealthy_message service required_os detail;
            current = (case cs_services (ds_cluster ds) service of Some s \<Rightarrow> s | None \<Rightarrow> service_state_default);
            ds = snd (propose env (UpdateServiceState service (current\<lparr>health_status := health_status.Unhealthy\<rparr>)) ds)
        in snd (propose env (RecordScaleEvent service 0 0 (''reroute failed: '' @ message) (de_now env)) ds))"

text \<open>The part of \<open>handle_reroutes\<close> before it dispatches again: the new assignments, if there is anything to dispatch.\<close>

definition plan_reroute ::
  "('f::zero, 'i, 'c, 'n, 'm) dist_env \<Rightarrow> string \<Rightarrow> (node_id \<times> string \<times> string) list \<Rightarrow> ('f, 'i, 'c, 'n, 'm) dist_scheduler \<Rightarrow>
   (node_id, placed_id list) hmap option \<times> ('f, 'i, 'c, 'n, 'm) dist_scheduler" where
  "plan_reroute env service rerouted ds =
     (let refused = map fst rerouted;
          required_os = (case rerouted of (_, os, _) # _ \<Rightarrow> os | [] \<Rightarrow> ''linux'');
          first_reason = (case rerouted of (_, _, r) # _ \<Rightarrow> r | [] \<Rightarrow> []);
          desired = (case cs_services (ds_cluster ds) service of Some s \<Rightarrow> desired_replicas s | None \<Rightarrow> 0)
      in if \<not> sched_raft (ds_core ds) \<or> desired = 0 then (None, ds)
         else
           let nodes = filter (\<lambda>n. ns_id n \<notin> set refused) (build_node_states env ds) in
           if nodes = [] then (None, mark_service_unhealthy_with_reason env service required_os first_reason ds)
           else
             let (asg, _, ps) = compute_placement (de_fl env) (de_lc env) (de_default env) service desired nodes (ds_placement ds)
                   (hm_get (service_specs (ds_core ds)) service);
                 ds = ds\<lparr>ds_placement := ps\<rparr>
             in if asg = [] then (None, mark_service_unhealthy_with_reason env service required_os first_reason ds)
                else (Some asg, ds))"

text \<open>
  \<open>execute_distributed_scaling\<close> and \<open>handle_reroutes\<close> call each other; \<open>fuel\<close> bounds the depth, and nothing is returned when
  it does not suffice. The error of the inner call is logged only.
\<close>

fun execute_distributed_scaling ::
  "nat \<Rightarrow> ('f::zero, 'i, 'c, 'n, 'm) dist_env \<Rightarrow> string \<Rightarrow> (node_id, placed_id list) hmap \<Rightarrow> ('f, 'i, 'c, 'n, 'm) dist_scheduler \<Rightarrow>
   ((scheduler_error + unit) \<times> ('f, 'i, 'c, 'n, 'm) dist_scheduler) option" where
  "execute_distributed_scaling 0 env service asg ds = None"
| "execute_distributed_scaling (Suc fuel) env service asg ds =
     (if \<not> sched_raft (ds_core ds) then Some (Inl NotLeader, ds)
      else
        let (rerouted, sent) = dispatch_loop env service (cs_nodes (ds_cluster ds)) asg (ds_sent ds);
            ds = ds\<lparr>ds_sent := sent\<rparr>;
            assigned = filter (\<lambda>k. k \<notin> fst ` set rerouted) (map fst asg);
            ds = snd (propose env (UpdateServiceAssignment service assigned) ds)
        in if rerouted = [] then Some (Inr (), ds)
           else case plan_reroute env service rerouted ds of
                  (None, ds) \<Rightarrow> Some (Inr (), ds)
                | (Some asg', ds) \<Rightarrow> map_option (\<lambda>(_, ds). (Inr (), ds)) (execute_distributed_scaling fuel env service asg' ds))"

section \<open>Scaling and node deaths\<close>

definition ds_execute ::
  "nat \<Rightarrow> ('f::zero, 'i, 'c, 'n, 'm) dist_env \<Rightarrow> string \<Rightarrow> u32 \<Rightarrow> ('f, 'i, 'c, 'n, 'm) dist_scheduler \<Rightarrow>
   ((scheduler_error + unit) \<times> ('f, 'i, 'c, 'n, 'm) dist_scheduler) option" where
  "ds_execute fuel env service target ds =
     (let nodes = build_node_states env ds in
      if sched_raft (ds_core ds) \<and> length nodes > 1
      then (let (asg, _, ps) = compute_placement (de_fl env) (de_lc env) (de_default env) service target nodes (ds_placement ds)
                  (hm_get (service_specs (ds_core ds)) service);
                ds = ds\<lparr>ds_placement := ps\<rparr>
            in if asg = [] then Some (de_agent env service target, ds)
               else execute_distributed_scaling fuel env service asg ds)
      else Some (de_agent env service target, ds))"

definition ds_apply_scaling ::
  "nat \<Rightarrow> ('f::zero, 'i, 'c, 'n, 'm) dist_env \<Rightarrow> 'f eval_env \<Rightarrow> string \<Rightarrow> scaling_decision \<Rightarrow> ('f, 'i, 'c, 'n, 'm) dist_scheduler \<Rightarrow>
   ((scheduler_error + unit) \<times> ('f, 'i, 'c, 'n, 'm) dist_scheduler) option" where
  "ds_apply_scaling fuel env eenv service decision ds =
     (if sched_raft (ds_core ds) \<and> \<not> leads_at_apply eenv then Some (Inr (), ds)
      else case target_replicas decision of
        None \<Rightarrow> Some (Inr (), ds)
      | Some target \<Rightarrow>
          (case record_scale_action (clk_record eenv) service target (sched_autoscaler (ds_core ds)) of
             (Inl e, a) \<Rightarrow> Some (Inl e, ds\<lparr>ds_core := (ds_core ds)\<lparr>sched_autoscaler := a\<rparr>\<rparr>)
           | (Inr _, a) \<Rightarrow>
               (case ds_execute fuel env service target (ds\<lparr>ds_core := (ds_core ds)\<lparr>sched_autoscaler := a\<rparr>\<rparr>) of
                  None \<Rightarrow> None
                | Some (Inl e, ds) \<Rightarrow> Some (Inl e, ds)
                | Some (Inr _, ds) \<Rightarrow>
                    if sched_raft (ds_core ds)
                    then (case decision_event decision of
                            None \<Rightarrow> Some (Inr (), ds)
                          | Some (from, reason) \<Rightarrow>
                              (case propose env (RecordScaleEvent service from target reason (de_now env)) ds of
                                 (Inl e, ds) \<Rightarrow> Some (Inl e, ds)
                               | (Inr _, ds) \<Rightarrow> Some (Inr (), ds)))
                    else Some (Inr (), ds))))"

definition ds_tick ::
  "nat \<Rightarrow> ('f::zero, 'i, 'c, 'n, 'm) dist_env \<Rightarrow> string \<times> 'f eval_env \<Rightarrow> ('f, 'i, 'c, 'n, 'm) dist_scheduler \<Rightarrow>
   ('f, 'i, 'c, 'n, 'm) dist_scheduler option" where
  "ds_tick fuel env p ds =
     (if sched_raft (ds_core ds) \<and> \<not> leads_at_tick (snd p) then Some ds
      else case evaluate_service (de_fl env) (snd p) (fst p) (ds_core ds) of
        (Inl _, s1) \<Rightarrow> Some (ds\<lparr>ds_core := s1\<rparr>)
      | (Inr decision, s1) \<Rightarrow>
          if is_change decision then map_option snd (ds_apply_scaling fuel env (snd p) (fst p) decision (ds\<lparr>ds_core := s1\<rparr>))
          else Some (ds\<lparr>ds_core := s1\<rparr>))"

text \<open>\<open>handle_node_death\<close>: every affected service is placed on the live nodes as they were read once.\<close>

definition affected_services ::
  "('f, 'i, 'c, 'n, 'm) dist_env \<Rightarrow> node_id \<Rightarrow> ('f, 'n, 'm) cluster_state \<Rightarrow> (string \<times> u32) list" where
  "affected_services env dead st =
     map (\<lambda>(name, svc). (name, desired_replicas svc)) (filter (\<lambda>(_, svc). dead \<in> set (assigned_nodes svc)) (de_services env (cs_services st)))"

definition reschedule_one ::
  "nat \<Rightarrow> ('f::zero, 'i, 'c, 'n, 'm) dist_env \<Rightarrow> node_id \<Rightarrow> 'f node_state list \<Rightarrow> string \<times> u32 \<Rightarrow> ('f, 'i, 'c, 'n, 'm) dist_scheduler \<Rightarrow>
   ('f, 'i, 'c, 'n, 'm) dist_scheduler option" where
  "reschedule_one fuel env dead nodes p ds =
     (let (service, desired) = p;
          ps = snd (remove_service_from_node dead service (ds_placement ds));
          (asg, _, ps) = compute_placement (de_fl env) (de_lc env) (de_default env) service desired nodes ps
            (hm_get (service_specs (ds_core ds)) service);
          ds = ds\<lparr>ds_placement := ps\<rparr>
      in if asg = [] then Some ds
         else map_option snd (execute_distributed_scaling fuel env service asg ds))"

primrec reschedule_all ::
  "nat \<Rightarrow> ('f::zero, 'i, 'c, 'n, 'm) dist_env \<Rightarrow> node_id \<Rightarrow> 'f node_state list \<Rightarrow> (string \<times> u32) list \<Rightarrow> ('f, 'i, 'c, 'n, 'm) dist_scheduler \<Rightarrow>
   ('f, 'i, 'c, 'n, 'm) dist_scheduler option" where
  "reschedule_all fuel env dead nodes [] ds = Some ds"
| "reschedule_all fuel env dead nodes (p # ps) ds =
     Option.bind (reschedule_one fuel env dead nodes p ds) (reschedule_all fuel env dead nodes ps)"

definition handle_node_death ::
  "nat \<Rightarrow> ('f::zero, 'i, 'c, 'n, 'm) dist_env \<Rightarrow> node_id \<Rightarrow> ('f, 'i, 'c, 'n, 'm) dist_scheduler \<Rightarrow>
   ((scheduler_error + unit) \<times> ('f, 'i, 'c, 'n, 'm) dist_scheduler) option" where
  "handle_node_death fuel env dead ds =
     (if \<not> sched_raft (ds_core ds) then Some (Inl NotLeader, ds)
      else
        let affected = affected_services env dead (ds_cluster ds) in
        if affected = [] then Some (Inr (), ds)
        else
          let nodes = build_node_states env ds in
          if nodes = [] then Some (Inr (), ds)
          else map_option (\<lambda>ds. (Inr (), ds)) (reschedule_all fuel env dead nodes affected ds))"

definition ds_is_leader :: "bool \<Rightarrow> ('f, 'i, 'c, 'n, 'm) dist_scheduler \<Rightarrow> bool" where
  "ds_is_leader raft_leads ds \<longleftrightarrow> (sched_raft (ds_core ds) \<longrightarrow> raft_leads)"

definition ds_current_replicas :: "string \<Rightarrow> ('f, 'i, 'c, 'n, 'm) dist_scheduler \<Rightarrow> u32 option" where
  "ds_current_replicas service ds = as_current_replicas service (sched_autoscaler (ds_core ds))"

section \<open>What a placement touches\<close>

lemma remove_service_other: "k \<noteq> n \<Longrightarrow> containers_on_node (snd (remove_service_from_node n s ps)) k = containers_on_node ps k"
  by (auto simp: remove_service_from_node_def containers_on_node_def split: option.splits prod.splits)

lemma rollback_other:
  "(\<And>d. d \<in> set ds \<Longrightarrow> pd_node d \<noteq> Some k) \<Longrightarrow>
   containers_on_node (snd (fold (rollback_one fl s cpu req) ds st)) k = containers_on_node (snd st) k"
proof (induction ds arbitrary: st)
  case (Cons d ds)
  have "containers_on_node (snd (rollback_one fl s cpu req d st)) k = containers_on_node (snd st) k"
    using Cons.prems [of d] by (auto simp: rollback_one_def Let_def remove_service_other split: option.splits)
  with Cons show ?case by simp
qed simp

lemma placement_elsewhere:
  assumes p: "place_service_replicas fl lc service spec replicas nodes ps = (ds, nodes', ps')" and dist: "distinct (map ns_id nodes)"
    and k: "k \<notin> ns_id ` set nodes"
  shows "containers_on_node ps' k = containers_on_node ps k"
  using p
proof (cases rule: place_service_cases)
  case kept
  have "on_node k ds = []" using loop_constraints [OF kept(1) dist] k by (force simp: filter_empty_conv)
  moreover have "containers_on_node ps' k = containers_on_node ps k @ map pd_container (on_node k ds)"
    using place_loop_records [OF kept(1) dist, of k undefined] by (elim conjE)
  ultimately show ?thesis by simp
next
  case (rolled_back ds1 nodes1 ps1)
  have none: "pd_node d \<noteq> Some k" if "d \<in> set ds1" for d
    using loop_constraints [OF rolled_back(1) dist that] k by force
  have "containers_on_node ps1 k = containers_on_node ps k @ map pd_container (on_node k ds1)"
    using place_loop_records [OF rolled_back(1) dist, of k undefined] by (elim conjE)
  moreover have "on_node k ds1 = []" using none by (simp add: filter_empty_conv)
  moreover have "containers_on_node (snd (nodes', ps')) k = containers_on_node (snd (nodes1, ps1)) k"
    unfolding rolled_back(4) by (rule rollback_other [OF none])
  ultimately show ?thesis by simp
qed

lemma compute_placement_scope:
  assumes "compute_placement fl lc dflt service desired nodes ps spec = (asg, nodes', ps')" and dist: "distinct (map ns_id nodes)"
  shows "fst ` set asg \<subseteq> ns_id ` set nodes" and "k \<notin> ns_id ` set nodes \<Longrightarrow> containers_on_node ps' k = containers_on_node ps k"
    and "hm_wf asg"
proof -
  obtain ds where p: "place_service_replicas fl lc service (case spec of Some s \<Rightarrow> s | None \<Rightarrow> dflt) desired nodes ps = (ds, nodes', ps')"
    and asg: "asg = group_assignments ds" using assms(1) by (auto simp: compute_placement_def split: prod.splits)
  show "k \<notin> ns_id ` set nodes \<Longrightarrow> containers_on_node ps' k = containers_on_node ps k" by (rule placement_elsewhere [OF p dist])
  show "hm_wf asg" unfolding asg group_assignments_def
    by (induction ds rule: rev_induct) (auto split: option.split)
  show "fst ` set asg \<subseteq> ns_id ` set nodes"
  proof
    fix k assume "k \<in> fst ` set asg"
    then have "hm_get (group_assignments ds) k \<noteq> None" by (simp add: asg map_of_eq_None_iff)
    then obtain d where "d \<in> set ds" "pd_node d = Some k" by (auto simp: group_assignments_get filter_empty_conv split: if_splits)
    from placed_constraints [OF p dist this] show "k \<in> ns_id ` set nodes" by auto
  qed
qed

lemma drain_subset: "drain_service s i cs removed = (left, removed') \<Longrightarrow> set left \<subseteq> set cs"
proof (induction s i cs removed rule: drain_service.induct)
  case (1 service i cs removed)
  note eq = "1.prems" [unfolded drain_service.simps [of service i cs removed]]
  have sub: "set (swap_remove i cs) \<subseteq> set cs" if "i < length cs"
  proof -
    have "last cs \<in> set cs" using that by (intro last_in_set) auto
    then show ?thesis using set_update_subset_insert [of cs i "last cs"] by (auto simp: swap_remove_def dest!: in_set_butlastD)
  qed
  show ?case
  proof (cases "i < length cs")
    case True
    then show ?thesis using eq sub "1.IH" by (auto split: if_splits)
  qed (use eq in auto)
qed

lemma remove_service_subset: "set (containers_on_node (snd (remove_service_from_node n s ps)) k) \<subseteq> set (containers_on_node ps k)"
proof (cases "k = n")
  case True
  then show ?thesis
    by (auto simp: remove_service_from_node_def containers_on_node_def dest: drain_subset split: option.splits prod.splits if_splits)
qed (simp add: remove_service_other)

definition absent :: "placement_state \<Rightarrow> node_id \<Rightarrow> string \<Rightarrow> bool" where
  "absent ps k s \<longleftrightarrow> service_count_on_node ps k s = 0"

lemma absent_iff: "absent ps k s \<longleftrightarrow> (\<forall>c \<in> set (containers_on_node ps k). pid_service c \<noteq> s)"
  by (simp add: absent_def service_count_on_node_def filter_empty_conv)

lemma absent_remove: "absent ps k s \<Longrightarrow> absent (snd (remove_service_from_node n s' ps)) k s"
  using remove_service_subset [of n s' ps k] by (auto simp: absent_iff)

section \<open>Dispatch without refusals\<close>

definition scale_requests :: "string \<Rightarrow> (node_id \<rightharpoonup> 'f node_info) \<Rightarrow> (node_id, placed_id list) hmap \<Rightarrow> scale_request list" where
  "scale_requests service nodes asg =
     [\<lparr> sq_service = service, sq_node = k, sq_url = scale_url info, sq_replicas = word_of_nat (length cs) \<rparr>.
        (k, cs) \<leftarrow> asg, info \<leftarrow> (case nodes k of Some i \<Rightarrow> [i] | None \<Rightarrow> [])]"

lemma dispatch_loop_sent: "snd (dispatch_loop env service nodes asg sent) = sent @ scale_requests service nodes asg"
proof (induction asg arbitrary: sent)
  case (Cons x asg)
  then show ?case
    by (cases x) (simp add: scale_requests_def case_prod_unfold Let_def split: option.split scale_reply.split)
qed (simp add: scale_requests_def)

lemma dispatch_loop_quiet:
  assumes "\<And>n q os m. de_reply env n q \<noteq> RerouteTo os m"
  shows "fst (dispatch_loop env service nodes asg sent) = []"
proof (induction asg arbitrary: sent)
  case (Cons x asg)
  then show ?case using assms
    by (cases x) (simp add: case_prod_unfold Let_def split: option.split scale_reply.split)
qed simp

lemma propose_assignment:
  "ds_core (snd (propose env (UpdateServiceAssignment s ks) ds)) = ds_core ds"
  "ds_placement (snd (propose env (UpdateServiceAssignment s ks) ds)) = ds_placement ds"
  "ds_sent (snd (propose env (UpdateServiceAssignment s ks) ds)) = ds_sent ds"
  "cs_nodes (ds_cluster (snd (propose env (UpdateServiceAssignment s ks) ds))) = cs_nodes (ds_cluster ds)"
  "cs_services (ds_cluster (snd (propose env (UpdateServiceAssignment s ks) ds))) =
     (if de_accepts env (UpdateServiceAssignment s ks)
      then (cs_services (ds_cluster ds))(s := map_option (\<lambda>svc. svc\<lparr>assigned_nodes := ks\<rparr>) (cs_services (ds_cluster ds) s))
      else cs_services (ds_cluster ds))"
  by (auto simp: propose_def split: option.splits)

definition after_dispatch ::
  "('f::zero, 'i, 'c, 'n, 'm) dist_env \<Rightarrow> string \<Rightarrow> (node_id, placed_id list) hmap \<Rightarrow> ('f, 'i, 'c, 'n, 'm) dist_scheduler \<Rightarrow>
   ('f, 'i, 'c, 'n, 'm) dist_scheduler" where
  "after_dispatch env service asg ds =
     snd (propose env (UpdateServiceAssignment service (map fst asg))
       (ds\<lparr>ds_sent := ds_sent ds @ scale_requests service (cs_nodes (ds_cluster ds)) asg\<rparr>))"

lemma execute_quiet:
  assumes "\<And>n q os m. de_reply env n q \<noteq> RerouteTo os m" "sched_raft (ds_core ds)"
  shows "execute_distributed_scaling (Suc fuel) env service asg ds = Some (Inr (), after_dispatch env service asg ds)"
proof -
  have "dispatch_loop env service (cs_nodes (ds_cluster ds)) asg (ds_sent ds) =
      ([], ds_sent ds @ scale_requests service (cs_nodes (ds_cluster ds)) asg)"
    using dispatch_loop_quiet [OF assms(1)] dispatch_loop_sent [of env service] by (metis prod.collapse)
  then show ?thesis using assms(2) by (simp add: after_dispatch_def)
qed

lemma after_dispatch_sel [simp]:
  "ds_core (after_dispatch env s asg ds) = ds_core ds" "ds_placement (after_dispatch env s asg ds) = ds_placement ds"
  "cs_nodes (ds_cluster (after_dispatch env s asg ds)) = cs_nodes (ds_cluster ds)"
  "ds_sent (after_dispatch env s asg ds) = ds_sent ds @ scale_requests s (cs_nodes (ds_cluster ds)) asg"
  "s' \<noteq> s \<Longrightarrow> cs_services (ds_cluster (after_dispatch env s asg ds)) s' = cs_services (ds_cluster ds) s'"
  by (simp_all add: after_dispatch_def propose_assignment)

lemma scale_requests_nodes:
  assumes "q \<in> set (scale_requests s nodes asg)"
  shows "sq_service q = s" "sq_node q \<in> fst ` set asg" "nodes (sq_node q) \<noteq> None"
proof -
  from assms obtain k cs where k: "(k, cs) \<in> set asg" and
    "q \<in> (\<lambda>info. \<lparr> sq_service = s, sq_node = k, sq_url = scale_url info, sq_replicas = word_of_nat (length cs) \<rparr>) `
       set (case nodes k of Some i \<Rightarrow> [i] | None \<Rightarrow> [])" unfolding scale_requests_def by auto
  then have q: "nodes k \<noteq> None" "sq_node q = k" "sq_service q = s" by (cases "nodes k"; auto)+
  show "sq_service q = s" "nodes (sq_node q) \<noteq> None" using q by simp_all
  show "sq_node q \<in> fst ` set asg" using k q(2) by (metis fst_conv image_eqI)
qed

section \<open>Node deaths\<close>

text \<open>The iteration of the node map gives each entry once, under its own identifier.\<close>

definition nodes_listed :: "('f, 'i, 'c, 'n, 'm) dist_env \<Rightarrow> (node_id \<rightharpoonup> 'f node_info) \<Rightarrow> bool" where
  "nodes_listed env nodes \<longleftrightarrow> hm_wf (de_nodes env nodes) \<and> hm_get (de_nodes env nodes) = nodes \<and>
     list_all (\<lambda>(k, info). ni_node_id info = k) (de_nodes env nodes)"

lemma listed_ready:
  assumes "nodes_listed env (cs_nodes (ds_cluster ds))" "sched_raft (ds_core ds)"
  shows "distinct (map ns_id (build_node_states env ds))"
    and "k \<in> ns_id ` set (build_node_states env ds) \<Longrightarrow> \<exists>info. cs_nodes (ds_cluster ds) k = Some info \<and> ni_status info = ''ready''"
proof -
  let ?reg = "de_nodes env (cs_nodes (ds_cluster ds))"
  have wf: "hm_wf ?reg" "\<forall>(k, info) \<in> set ?reg. ni_node_id info = k" "hm_get ?reg = cs_nodes (ds_cluster ds)"
    using assms(1) by (simp_all add: nodes_listed_def list_all_iff)
  note r = node_states_from_registry [where fl = "de_fl env", OF wf(1,2)]
  show "distinct (map ns_id (build_node_states env ds))" using r(1) assms(2) by (simp add: build_node_states_def)
  show "\<exists>info. cs_nodes (ds_cluster ds) k = Some info \<and> ni_status info = ''ready''" if "k \<in> ns_id ` set (build_node_states env ds)"
  proof -
    from that obtain n where n: "n \<in> set (cluster_nodes_to_node_states (de_fl env) ?reg)" "k = ns_id n"
      using assms(2) by (auto simp: build_node_states_def)
    from r(2) [OF n(1)] n(2) wf(3) show ?thesis by auto
  qed
qed

text \<open>What the rescheduling of the services \<open>S\<close> may change: the nodes \<open>K\<close> get requests, and the dead node loses its containers.\<close>

definition resched ::
  "node_id \<Rightarrow> node_id set \<Rightarrow> string set \<Rightarrow> ('f, 'i, 'c, 'n, 'm) dist_scheduler \<Rightarrow> ('f, 'i, 'c, 'n, 'm) dist_scheduler \<Rightarrow> bool" where
  "resched dead K S ds ds' \<longleftrightarrow>
     ds_core ds' = ds_core ds \<and> cs_nodes (ds_cluster ds') = cs_nodes (ds_cluster ds) \<and>
     (\<forall>s. absent (ds_placement ds) dead s \<or> s \<in> S \<longrightarrow> absent (ds_placement ds') dead s) \<and>
     (\<exists>qs. ds_sent ds' = ds_sent ds @ qs \<and> (\<forall>q \<in> set qs. sq_service q \<in> S \<and> sq_node q \<in> K)) \<and>
     (\<forall>s. s \<notin> S \<longrightarrow> cs_services (ds_cluster ds') s = cs_services (ds_cluster ds) s)"

lemma resched_trans:
  assumes "resched dead K S ds ds1" "resched dead K T ds1 ds2"
  shows "resched dead K (S \<union> T) ds ds2"
proof -
  from assms obtain qs rs where "ds_sent ds1 = ds_sent ds @ qs" "\<forall>q \<in> set qs. sq_service q \<in> S \<and> sq_node q \<in> K"
    "ds_sent ds2 = ds_sent ds1 @ rs" "\<forall>q \<in> set rs. sq_service q \<in> T \<and> sq_node q \<in> K" unfolding resched_def by (elim exE conjE)
  then have "\<exists>qs. ds_sent ds2 = ds_sent ds @ qs \<and> (\<forall>q \<in> set qs. sq_service q \<in> S \<union> T \<and> sq_node q \<in> K)"
    by (intro exI [of _ "qs @ rs"]) auto
  with assms show ?thesis unfolding resched_def by simp
qed

lemma reschedule_one_effect:
  assumes quiet: "\<And>n q os m. de_reply env n q \<noteq> RerouteTo os m" and raft: "sched_raft (ds_core ds)"
    and dist: "distinct (map ns_id nodes)" and dead: "dead \<notin> ns_id ` set nodes"
  shows "\<exists>ds'. reschedule_one (Suc fuel) env dead nodes (s, desired) ds = Some ds' \<and> resched dead (ns_id ` set nodes) {s} ds ds'"
proof -
  let ?ps = "snd (remove_service_from_node dead s (ds_placement ds))"
  obtain asg nodes' ps' where c: "compute_placement (de_fl env) (de_lc env) (de_default env) s desired nodes ?ps
      (hm_get (service_specs (ds_core ds)) s) = (asg, nodes', ps')" using prod_cases3 by blast
  note scope = compute_placement_scope [OF c dist]
  have con: "containers_on_node ps' dead = containers_on_node ?ps dead" by (rule scope(2) [OF dead])
  have abs: "absent ps' dead s'" if "absent (ds_placement ds) dead s' \<or> s' \<in> {s}" for s'
    using that remove_service_none [of dead s "ds_placement ds"] absent_remove [of "ds_placement ds" dead s' dead s]
    unfolding absent_def service_count_on_node_def con by auto
  let ?ds = "ds\<lparr>ds_placement := ps'\<rparr>"
  show ?thesis
  proof (cases "asg = []")
    case True
    then have "reschedule_one (Suc fuel) env dead nodes (s, desired) ds = Some ?ds" using c by (simp add: reschedule_one_def)
    moreover have "resched dead (ns_id ` set nodes) {s} ds ?ds" using abs by (simp add: resched_def)
    ultimately show ?thesis by blast
  next
    case False
    have "execute_distributed_scaling (Suc fuel) env s asg ?ds = Some (Inr (), after_dispatch env s asg ?ds)"
      by (rule execute_quiet [OF quiet]) (simp add: raft)
    then have "reschedule_one (Suc fuel) env dead nodes (s, desired) ds = Some (after_dispatch env s asg ?ds)"
      using c False by (simp add: reschedule_one_def del: execute_distributed_scaling.simps)
    moreover have "sq_service q = s \<and> sq_node q \<in> ns_id ` set nodes" if "q \<in> set (scale_requests s (cs_nodes (ds_cluster ds)) asg)" for q
      using scope(1) scale_requests_nodes [OF that] by auto
    then have "resched dead (ns_id ` set nodes) {s} ds (after_dispatch env s asg ?ds)" using abs by (simp add: resched_def)
    ultimately show ?thesis by blast
  qed
qed

lemma reschedule_all_effect:
  assumes quiet: "\<And>n q os m. de_reply env n q \<noteq> RerouteTo os m" and dist: "distinct (map ns_id nodes)" and dead: "dead \<notin> ns_id ` set nodes"
  shows "sched_raft (ds_core ds) \<Longrightarrow>
     \<exists>ds'. reschedule_all (Suc fuel) env dead nodes ps ds = Some ds' \<and> resched dead (ns_id ` set nodes) (fst ` set ps) ds ds'"
proof (induction ps arbitrary: ds)
  case Nil
  then show ?case by (simp add: resched_def)
next
  case (Cons p ps)
  obtain s desired where p: "p = (s, desired)" by fastforce
  from reschedule_one_effect [OF quiet Cons.prems dist dead, of fuel s desired] obtain ds1 where
    one: "reschedule_one (Suc fuel) env dead nodes (s, desired) ds = Some ds1" "resched dead (ns_id ` set nodes) {s} ds ds1" by (elim exE conjE)
  then have "sched_raft (ds_core ds1)" using Cons.prems by (simp add: resched_def)
  from Cons.IH [OF this] obtain ds2 where
    rest: "reschedule_all (Suc fuel) env dead nodes ps ds1 = Some ds2" "resched dead (ns_id ` set nodes) (fst ` set ps) ds1 ds2" by (elim exE conjE)
  have "reschedule_all (Suc fuel) env dead nodes (p # ps) ds = Some ds2" by (simp add: p one(1) rest(1))
  with resched_trans [OF one(2) rest(2)] show ?case by (simp add: p)
qed

text \<open>
  C10. Rescheduling after a node's death. As long as no node turns a request down, it returns; it sends scale requests only for
  services that were assigned to the dead node, and only to registered nodes that are ready; no container of those services
  is recorded on the dead node any more; and the replicated state of every other service is unchanged. (With no ready node
  left nothing is done.)
\<close>

theorem node_death_rescheduled:
  assumes "sched_raft (ds_core ds)" "nodes_listed env (cs_nodes (ds_cluster ds))"
    and "\<forall>info. cs_nodes (ds_cluster ds) dead = Some info \<longrightarrow> ni_status info \<noteq> ''ready''"
    and "\<forall>n q os m. de_reply env n q \<noteq> RerouteTo os m"
    and "affected = set (map fst (affected_services env dead (ds_cluster ds)))"
  shows "\<exists>ds' qs. handle_node_death (Suc fuel) env dead ds = Some (Inr (), ds') \<and> ds_sent ds' = ds_sent ds @ qs \<and>
     (\<forall>q \<in> set qs. sq_service q \<in> affected \<and> sq_node q \<noteq> dead \<and>
        (\<exists>info. cs_nodes (ds_cluster ds) (sq_node q) = Some info \<and> ni_status info = ''ready'')) \<and>
     (build_node_states env ds \<noteq> [] \<longrightarrow> (\<forall>s \<in> affected. service_count_on_node (ds_placement ds') dead s = 0)) \<and>
     (\<forall>s. s \<notin> affected \<longrightarrow> cs_services (ds_cluster ds') s = cs_services (ds_cluster ds) s)"
proof (cases "affected_services env dead (ds_cluster ds) = [] \<or> build_node_states env ds = []")
  case True
  then show ?thesis using assms(1,5) by (intro exI [of _ ds] exI [of _ "[]"]) (auto simp: handle_node_death_def Let_def)
next
  case False
  note l = listed_ready [OF assms(2,1)]
  have dead: "dead \<notin> ns_id ` set (build_node_states env ds)" using l(2) [of dead] assms(3) by auto
  have quiet: "de_reply env n q \<noteq> RerouteTo os m" for n q os m using assms(4) by blast
  from reschedule_all_effect [OF quiet l(1) dead assms(1), of fuel "affected_services env dead (ds_cluster ds)"] obtain ds' where
    r: "reschedule_all (Suc fuel) env dead (build_node_states env ds) (affected_services env dead (ds_cluster ds)) ds = Some ds'"
    and e: "resched dead (ns_id ` set (build_node_states env ds)) affected ds ds'" using assms(5) by auto
  from e obtain qs where q: "ds_sent ds' = ds_sent ds @ qs" "\<forall>q \<in> set qs. sq_service q \<in> affected \<and> sq_node q \<in> ns_id ` set (build_node_states env ds)"
    unfolding resched_def by (elim exE conjE)
  have "handle_node_death (Suc fuel) env dead ds = Some (Inr (), ds')"
    using False r assms(1) by (simp add: handle_node_death_def Let_def del: reschedule_all.simps)
  moreover have "\<forall>q \<in> set qs. sq_service q \<in> affected \<and> sq_node q \<noteq> dead \<and>
        (\<exists>info. cs_nodes (ds_cluster ds) (sq_node q) = Some info \<and> ni_status info = ''ready'')"
    using q(2) l(2) dead by auto
  ultimately show ?thesis using q(1) e unfolding resched_def absent_def by (intro exI [of _ ds'] exI [of _ qs]) simp
qed

section \<open>The loop\<close>

lemma propose_core [simp]: "ds_core (snd (propose env req ds)) = ds_core ds"
  by (simp add: propose_def case_prod_unfold Let_def)

lemma plan_reroute_core: "plan_reroute env service rerouted ds = (r, ds') \<Longrightarrow> ds_core ds' = ds_core ds"
  by (auto simp: plan_reroute_def mark_service_unhealthy_with_reason_def Let_def split: if_splits prod.splits)

lemma execute_core: "execute_distributed_scaling fuel env service asg ds = Some (r, ds') \<Longrightarrow> ds_core ds' = ds_core ds"
proof (induction fuel arbitrary: asg ds r ds')
  case (Suc fuel)
  show ?case
  proof (cases "sched_raft (ds_core ds)")
    case True
    let ?d = "dispatch_loop env service (cs_nodes (ds_cluster ds)) asg (ds_sent ds)"
    let ?ds = "snd (propose env (UpdateServiceAssignment service (filter (\<lambda>k. k \<notin> fst ` set (fst ?d)) (map fst asg))) (ds\<lparr>ds_sent := snd ?d\<rparr>))"
    have c: "ds_core ?ds = ds_core ds" by simp
    obtain p ds2 where p: "plan_reroute env service (fst ?d) ?ds = (p, ds2)" by fastforce
    have c2: "ds_core ds2 = ds_core ds" using plan_reroute_core [OF p] c by simp
    show ?thesis
    proof (cases p)
      case None
      with Suc.prems True p c c2 show ?thesis by (auto simp: case_prod_unfold Let_def split: if_splits)
    next
      case (Some asg')
      with Suc.prems True p c show ?thesis
        using Suc.IH [of asg' ds2] c2 by (auto simp: case_prod_unfold Let_def split: if_splits)
    qed
  qed (use Suc.prems in simp)
qed simp

lemma ds_execute_core: "ds_execute fuel env service target ds = Some (r, ds') \<Longrightarrow> ds_core ds' = ds_core ds"
  by (auto simp: ds_execute_def Let_def split: if_splits prod.splits dest: execute_core)

text \<open>The answers a pass of the loop gets, as the world of the loop's own development sees them.\<close>

definition with_answers :: "'f eval_env \<Rightarrow> (scheduler_error + unit) \<Rightarrow> (scheduler_error + unit) \<Rightarrow> 'f eval_env" where
  "with_answers eenv executed recorded = eenv\<lparr>execute := (\<lambda>_. executed), record_event := (\<lambda>_ _ _. recorded)\<rparr>"

lemma with_answers_sel [simp]:
  "leads_at_tick (with_answers eenv x y) = leads_at_tick eenv" "leads_at_apply (with_answers eenv x y) = leads_at_apply eenv"
  "source_answers (with_answers eenv x y) = source_answers eenv" "clk_read (with_answers eenv x y) = clk_read eenv"
  "clk_store (with_answers eenv x y) = clk_store eenv" "clk_eval (with_answers eenv x y) = clk_eval eenv"
  "clk_remaining (with_answers eenv x y) = clk_remaining eenv" "clk_record (with_answers eenv x y) = clk_record eenv"
  "execute (with_answers eenv x y) = (\<lambda>_. x)" "record_event (with_answers eenv x y) = (\<lambda>_ _ _. y)"
  by (simp_all add: with_answers_def)

lemma apply_refines:
  assumes "ds_apply_scaling fuel env eenv service decision ds = Some (r, ds')"
  shows "\<exists>x y. apply_scaling (with_answers eenv x y) service decision (ds_core ds) = (r, ds_core ds')"
proof (cases "sched_raft (ds_core ds) \<and> \<not> leads_at_apply eenv \<or> target_replicas decision = None")
  case True
  then show ?thesis using assms by (auto simp: ds_apply_scaling_def apply_scaling_def)
next
  case False
  then obtain target where t: "target_replicas decision = Some target" by auto
  obtain q a where a: "record_scale_action (clk_record eenv) service target (sched_autoscaler (ds_core ds)) = (q, a)" by fastforce
  show ?thesis
  proof (cases q)
    case (Inl e)
    with False t a assms show ?thesis by (auto simp: ds_apply_scaling_def apply_scaling_def)
  next
    case (Inr u)
    let ?ds = "ds\<lparr>ds_core := (ds_core ds)\<lparr>sched_autoscaler := a\<rparr>\<rparr>"
    from False t a Inr assms obtain x ds1 where x: "ds_execute fuel env service target ?ds = Some (x, ds1)"
      by (auto simp: ds_apply_scaling_def split: option.splits)
    have c: "ds_core ds1 = (ds_core ds)\<lparr>sched_autoscaler := a\<rparr>" using ds_execute_core [OF x] by simp
    show ?thesis
    proof (cases x)
      case (Inl e)
      with False t a Inr x c assms have "(r, ds') = (Inl e, ds1)" by (auto simp: ds_apply_scaling_def)
      moreover have "apply_scaling (with_answers eenv (Inl e) (Inr ())) service decision (ds_core ds) = (Inl e, (ds_core ds)\<lparr>sched_autoscaler := a\<rparr>)"
        using False t a \<open>q = Inr u\<close> by (auto simp: apply_scaling_def and_then_def)
      ultimately show ?thesis using c by auto
    next
      case (Inr v)
      show ?thesis
      proof (cases "sched_raft (ds_core ds) \<and> decision_event decision \<noteq> None")
        case True
        then obtain frm reason where e: "decision_event decision = Some (frm, reason)" by auto
        obtain y ds2 where y: "propose env (RecordScaleEvent service frm target reason (de_now env)) ds1 = (y, ds2)" by fastforce
        have c2: "ds_core ds2 = ds_core ds1" using propose_core [of env _ ds1] y by (metis snd_conv)
        define z where "z = (case y of Inl e \<Rightarrow> Inl e | Inr _ \<Rightarrow> Inr ())"
        have "(r, ds') = (z, ds2)"
          using False t a \<open>q = Inr u\<close> x Inr assms True e y c by (auto simp: ds_apply_scaling_def z_def split: sum.splits)
        moreover have "apply_scaling (with_answers eenv (Inr ()) z) service decision (ds_core ds) = (z, (ds_core ds)\<lparr>sched_autoscaler := a\<rparr>)"
          using False t a \<open>q = Inr u\<close> True e by (simp add: apply_scaling_def and_then_def)
        ultimately show ?thesis using c c2 by auto
      next
        case noev: False
        have "(r, ds') = (Inr (), ds1)"
          using False t a \<open>q = Inr u\<close> x Inr assms noev c by (auto simp: ds_apply_scaling_def split: option.splits if_splits)
        moreover have "apply_scaling (with_answers eenv (Inr ()) (Inr ())) service decision (ds_core ds) = (Inr (), (ds_core ds)\<lparr>sched_autoscaler := a\<rparr>)"
          using False t a \<open>q = Inr u\<close> noev by (auto simp: apply_scaling_def and_then_def split: option.splits)
        ultimately show ?thesis using c by auto
      qed
    qed
  qed
qed


text \<open>As long as no node turns a request down, a turn of the loop returns.\<close>

lemma quiet_tick_returns:
  assumes "\<And>n q os m. de_reply env n q \<noteq> RerouteTo os m"
  shows "\<exists>ds'. ds_tick (Suc fuel) env p ds = Some ds'"
proof -
  have run: "\<exists>r ds'. execute_distributed_scaling (Suc fuel) env service asg ds = Some (r, ds')" for service asg ds
  proof (cases "sched_raft (ds_core ds)")
    case True
    show ?thesis using execute_quiet [OF assms True] by blast
  qed simp
  have execute: "\<exists>r ds'. ds_execute (Suc fuel) env service target ds = Some (r, ds')" for service target ds
    using run by (simp add: ds_execute_def Let_def case_prod_unfold del: execute_distributed_scaling.simps)
  have "\<exists>r ds'. ds_apply_scaling (Suc fuel) env eenv service d ds = Some (r, ds')" for eenv service d ds
  proof (cases "target_replicas d")
    case (Some target)
    obtain x a where a: "record_scale_action (clk_record eenv) service target (sched_autoscaler (ds_core ds)) = (x, a)" by fastforce
    obtain r ds' where "ds_execute (Suc fuel) env service target (ds\<lparr>ds_core := (ds_core ds)\<lparr>sched_autoscaler := a\<rparr>\<rparr>) = Some (r, ds')"
      using execute by blast
    with Some a show ?thesis by (auto simp: ds_apply_scaling_def split: sum.splits option.splits prod.splits)
  qed (simp add: ds_apply_scaling_def)
  then have "\<exists>ds'. map_option snd (ds_apply_scaling (Suc fuel) env eenv service d ds) = Some ds'" for eenv service d ds by fastforce
  then show ?thesis by (auto simp: ds_tick_def split: sum.splits prod.splits)
qed

section \<open>Desired replicas\<close>

text \<open>
  The replicated state of a service has the replica count that is wanted of it. Scaling a service does not change it: it stays
  what it was at registration, and it is what a reroute or a rescheduling after a death restores.
\<close>

definition keeps_desired :: "('f, 'i, 'c, 'n, 'm) dist_scheduler \<Rightarrow> ('f, 'i, 'c, 'n, 'm) dist_scheduler \<Rightarrow> bool" where
  "keeps_desired ds ds' \<longleftrightarrow> (\<forall>s svc. cs_services (ds_cluster ds) s = Some svc \<longrightarrow>
     (\<exists>svc'. cs_services (ds_cluster ds') s = Some svc' \<and> desired_replicas svc' = desired_replicas svc))"

lemma keeps_desired_refl: "ds_cluster ds' = ds_cluster ds \<Longrightarrow> keeps_desired ds ds'"
  by (simp add: keeps_desired_def)

lemma keeps_desired_trans: "keeps_desired a b \<Longrightarrow> keeps_desired b c \<Longrightarrow> keeps_desired a c"
  unfolding keeps_desired_def by metis

lemma propose_keeps_desired:
  "keeps_desired ds (snd (propose env (UpdateServiceAssignment s ks) ds))"
  "keeps_desired ds (snd (propose env (RecordScaleEvent s a b reason t) ds))"
  "keeps_desired ds (snd (propose env (UpdateServiceState s ((case cs_services (ds_cluster ds) s of Some x \<Rightarrow> x | None \<Rightarrow> service_state_default)\<lparr>health_status := h\<rparr>)) ds))"
  by (auto simp: keeps_desired_def propose_def apply_record_scale_event_def Let_def split: option.splits)

lemma plan_keeps_desired: "plan_reroute env service rerouted ds = (r, ds') \<Longrightarrow> keeps_desired ds ds'"
proof -
  have m: "keeps_desired x (mark_service_unhealthy_with_reason env service os msg x)" for x os msg
    by (auto simp: mark_service_unhealthy_with_reason_def Let_def keeps_desired_refl
        intro: keeps_desired_trans [OF propose_keeps_desired(3) propose_keeps_desired(2)])
  have m': "keeps_desired ds (mark_service_unhealthy_with_reason env service os msg (ds\<lparr>ds_placement := ps\<rparr>))" for ps os msg
    by (rule keeps_desired_trans [OF keeps_desired_refl m]) simp
  assume "plan_reroute env service rerouted ds = (r, ds')"
  then show ?thesis using m m' keeps_desired_refl [of ds ds]
    by (auto simp: plan_reroute_def Let_def keeps_desired_refl split: if_splits prod.splits)
qed

lemma execute_keeps_desired: "execute_distributed_scaling fuel env service asg ds = Some (r, ds') \<Longrightarrow> keeps_desired ds ds'"
proof (induction fuel arbitrary: asg ds r ds')
  case (Suc fuel)
  show ?case
  proof (cases "sched_raft (ds_core ds)")
    case True
    let ?d = "dispatch_loop env service (cs_nodes (ds_cluster ds)) asg (ds_sent ds)"
    let ?ks = "filter (\<lambda>k. k \<notin> fst ` set (fst ?d)) (map fst asg)"
    let ?ds = "snd (propose env (UpdateServiceAssignment service ?ks) (ds\<lparr>ds_sent := snd ?d\<rparr>))"
    have c: "keeps_desired ds ?ds"
      by (rule keeps_desired_trans [OF keeps_desired_refl propose_keeps_desired(1)]) simp
    obtain p ds2 where p: "plan_reroute env service (fst ?d) ?ds = (p, ds2)" by fastforce
    have c2: "keeps_desired ds ds2" by (rule keeps_desired_trans [OF c plan_keeps_desired [OF p]])
    show ?thesis
    proof (cases p)
      case None
      with Suc.prems True p c c2 show ?thesis by (auto simp: case_prod_unfold Let_def split: if_splits)
    next
      case (Some asg')
      with Suc.prems True p c show ?thesis
        using Suc.IH [of asg' ds2] keeps_desired_trans [OF c2] by (auto simp: case_prod_unfold Let_def split: if_splits)
    qed
  qed (use Suc.prems in \<open>simp add: keeps_desired_refl\<close>)
qed simp

lemma ds_execute_keeps_desired: "ds_execute fuel env service target ds = Some (r, ds') \<Longrightarrow> keeps_desired ds ds'"
proof -
  assume x: "ds_execute fuel env service target ds = Some (r, ds')"
  have "keeps_desired ds ds'" if "execute_distributed_scaling fuel env service asg (ds\<lparr>ds_placement := ps\<rparr>) = Some (r, ds')" for asg ps
    by (rule keeps_desired_trans [OF keeps_desired_refl execute_keeps_desired [OF that]]) simp
  with x show ?thesis by (auto simp: ds_execute_def Let_def keeps_desired_refl split: if_splits prod.splits)
qed

lemma scaling_keeps_desired:
  assumes "ds_apply_scaling fuel env eenv service decision ds = Some (r, ds')"
  shows "keeps_desired ds ds'"
proof -
  have x: "keeps_desired ds ds1" if "ds_execute fuel env service t (ds\<lparr>ds_core := c\<rparr>) = Some (q, ds1)" for t c q ds1
    by (rule keeps_desired_trans [OF keeps_desired_refl ds_execute_keeps_desired [OF that]]) simp
  have y: "keeps_desired ds ds2" if "ds_execute fuel env service t (ds\<lparr>ds_core := c\<rparr>) = Some (q, ds1)"
      "propose env (RecordScaleEvent service a b reason n) ds1 = (w, ds2)" for t c q ds1 a b reason n w ds2
    using keeps_desired_trans [OF x [OF that(1)] propose_keeps_desired(2)] that(2) by (metis snd_conv)
  show ?thesis using assms x y
    by (auto simp: ds_apply_scaling_def keeps_desired_refl split: if_splits option.splits prod.splits sum.splits)
qed

section \<open>Refusals\<close>

text \<open>
  Two nodes that both refuse: each search for another node leaves out only the node that refused last, so the other one is
  asked again, without end.
\<close>

lemma dispatch_refused:
  assumes "nodes k = Some info" "\<And>n q. de_reply env n q = RerouteTo os msg"
  shows "dispatch_loop env service nodes [(k, cs)] sent = ([(k, os, msg)], sent @ scale_requests service nodes [(k, cs)])"
  using assms by (simp add: scale_requests_def)

lemma refusals_endless:
  assumes nodes: "\<And>ds'. cs_nodes (ds_cluster ds') = N \<Longrightarrow> sched_raft (ds_core ds') \<Longrightarrow> build_node_states env ds' = [n1, n2]"
    and ids: "ns_id n1 \<noteq> ns_id n2" "N (ns_id n1) \<noteq> None" "N (ns_id n2) \<noteq> None"
    and refuse: "\<And>n q. de_reply env n q = RerouteTo os msg"
    and place: "\<And>n ps. n \<in> {n1, n2} \<Longrightarrow> \<exists>cs. fst (compute_placement (de_fl env) (de_lc env) (de_default env) service desired [n] ps spec) = [(ns_id n, cs)]"
    and d: "desired \<noteq> 0"
  shows "sched_raft (ds_core ds) \<Longrightarrow> cs_nodes (ds_cluster ds) = N \<Longrightarrow> hm_get (service_specs (ds_core ds)) service = spec \<Longrightarrow>
     (\<exists>svc. cs_services (ds_cluster ds) service = Some svc \<and> desired_replicas svc = desired) \<Longrightarrow> k \<in> {ns_id n1, ns_id n2} \<Longrightarrow>
     execute_distributed_scaling fuel env service [(k, cs)] ds = None"
proof (induction fuel arbitrary: k cs ds)
  case (Suc fuel)
  from Suc.prems(2,5) ids obtain info where info: "cs_nodes (ds_cluster ds) k = Some info" by auto
  let ?sent = "ds_sent ds @ scale_requests service (cs_nodes (ds_cluster ds)) [(k, cs)]"
  note disp = dispatch_refused [of "cs_nodes (ds_cluster ds)" k info env os msg service cs "ds_sent ds", OF info refuse]
  let ?ds = "snd (propose env (UpdateServiceAssignment service []) (ds\<lparr>ds_sent := ?sent\<rparr>))"
  have ds: "ds_core ?ds = ds_core ds" "cs_nodes (ds_cluster ?ds) = N" "\<exists>svc. cs_services (ds_cluster ?ds) service = Some svc \<and> desired_replicas svc = desired"
    using Suc.prems(2,4) by (auto simp: propose_assignment)
  obtain n where n: "n \<in> {n1, n2}" "filter (\<lambda>n. ns_id n \<notin> set [k]) (build_node_states env ?ds) = [n]" "ns_id n \<noteq> k"
    using nodes [of ?ds] ds(1,2) ids(1) Suc.prems(1,5) by auto
  obtain cs' nodes' ps' where c: "compute_placement (de_fl env) (de_lc env) (de_default env) service desired [n] (ds_placement ?ds) spec = ([(ns_id n, cs')], nodes', ps')"
    using place [OF n(1), of "ds_placement ?ds"] by (metis prod.collapse)
  have plan: "plan_reroute env service [(k, os, msg)] ?ds = (Some [(ns_id n, cs')], ?ds\<lparr>ds_placement := ps'\<rparr>)"
    using ds n(2) c d Suc.prems(1,3) by (auto simp: plan_reroute_def Let_def)
  have "execute_distributed_scaling fuel env service [(ns_id n, cs')] (?ds\<lparr>ds_placement := ps'\<rparr>) = None"
    using Suc.prems(1,3) ds n(1) by (intro Suc.IH) auto
  with Suc.prems(1) disp plan show ?case by simp
qed simp

text \<open>
  C36. A cluster with two ready nodes, each of which can be given the service by placement and both of which turn every request
  down: dispatching the service never returns, whatever the depth allowed. Each search leaves out only the node that
  refused last, so the two are asked in turn for ever, and the service is never marked unhealthy.
\<close>

theorem refusals_never_end:
  assumes nodes: "\<forall>ds'. cs_nodes (ds_cluster ds') = N \<and> sched_raft (ds_core ds') \<longrightarrow> build_node_states env ds' = [n1, n2]"
    and ids: "ns_id n1 \<noteq> ns_id n2" "N (ns_id n1) \<noteq> None" "N (ns_id n2) \<noteq> None"
    and refuse: "\<forall>n q. de_reply env n q = RerouteTo os msg"
    and place: "\<forall>n ps. n = n1 \<or> n = n2 \<longrightarrow>
       (\<exists>cs. fst (compute_placement (de_fl env) (de_lc env) (de_default env) service (desired_replicas svc) [n] ps
          (hm_get (service_specs (ds_core ds)) service)) = [(ns_id n, cs)])"
    and state: "sched_raft (ds_core ds)" "cs_nodes (ds_cluster ds) = N" "cs_services (ds_cluster ds) service = Some svc" "desired_replicas svc \<noteq> 0"
    and k: "k = ns_id n1 \<or> k = ns_id n2"
  shows "execute_distributed_scaling fuel env service [(k, cs)] ds = None"
proof -
  have "build_node_states env ds' = [n1, n2]" if "cs_nodes (ds_cluster ds') = N" "sched_raft (ds_core ds')" for ds' using nodes that by blast
  moreover have "\<exists>cs. fst (compute_placement (de_fl env) (de_lc env) (de_default env) service (desired_replicas svc) [n] ps
          (hm_get (service_specs (ds_core ds)) service)) = [(ns_id n, cs)]" if "n \<in> {n1, n2}" for n ps using place that by blast
  ultimately show ?thesis
    by (rule refusals_endless [OF _ ids refuse [rule_format] _ state(4) state(1,2) refl]) (use state(3) k in auto)
qed

section \<open>A cluster of three nodes\<close>

text \<open>Two ready nodes and a draining one, which has the only replica of the service.\<close>

definition ex_entries :: "(node_id, rat node_info) hmap" where
  "ex_entries = [(1, ex_info ''ready'' 1), (2, ex_info ''ready'' 2), (3, ex_info ''draining'' 3)]"

definition ex_service :: service_state where
  "ex_service = service_state_default\<lparr>current_replicas := 1, desired_replicas := 1, assigned_nodes := [3]\<rparr>"

definition ex_dist_env :: "(nat \<Rightarrow> scale_request \<Rightarrow> scale_reply) \<Rightarrow> (rat, unit, unit, 32 cidr, 128 cidr) dist_env" where
  "ex_dist_env reply =
     \<lparr> de_fl = rat_ops, de_lc = id, de_api = cidr_api, de_clock = \<lparr> unix_millis = 1, utc_now = 10 \<rparr>, de_now = 1, de_self = 1,
       de_accepts = (\<lambda>_. True), de_raft_error = ''no quorum'', de_nodes = (\<lambda>_. ex_entries), de_services = (\<lambda>_. [(''web'', ex_service)]), de_reply = reply,
       de_agent = (\<lambda>_ _. Inr ()), de_default = ex_spec Shared None None \<rparr>"

definition ex_dist :: "scale_spec \<Rightarrow> (rat, unit, unit, 32 cidr, 128 cidr) dist_scheduler" where
  "ex_dist spec =
     \<lparr> ds_core = snd (register_service rat_ops ''web'' spec 1 (Some (ex_spec Shared None None)) (Inr ())
         \<lparr> sched_metrics = \<lparr> mc_cache = [], mc_cache_ttl = 2 \<rparr>, sched_autoscaler = autoscaler_new rat_ops,
           sched_raft = True, service_specs = [] \<rparr>),
       ds_placement = place \<lparr> pid_service = ''web'', pid_replica = 0 \<rparr> 3 placement_state_new,
       ds_cluster = \<lparr> cs_services = [''web'' \<mapsto> ex_service], cs_nodes = map_of ex_entries, scale_events = [], cs_secrets = secrets_default,
         worker_leases = Map.empty, service_subnets = default_subnets, service_overlay_endpoints = [] \<rparr>,
       ds_sent = [] \<rparr>"

definition ex_ready :: "node_id \<Rightarrow> rat node_state" where
  "ex_ready k = node_info_state rat_ops (ex_info ''ready'' k)"

lemma ex_build: "sched_raft (ds_core ds) \<Longrightarrow> build_node_states (ex_dist_env reply) ds = [ex_ready 1, ex_ready 2]"
  by (simp add: build_node_states_def ex_dist_env_def ex_entries_def ex_ready_def cluster_nodes_to_node_states_def ex_info_def)

lemmas ex_place_eval = compute_placement_def node_info_state_def ex_info_def place_service_replicas_def
  replica_range_def place_replica_def ex_placement Let_def upt_rec select_node_def select_for_bin_packing_def max_by_def
  reserve_node_resources_def gpu_count_requested_def gpu_sharing_def take_cpu_memory_def reserved_cpu_def requested_cpu_def
  requested_memory_def rat_ops_sel finalize_gang_def place_def group_assignments_def node_has_capacity_def cpu_available_def memory_available_def

lemma ex_place_one:
  "fst (compute_placement rat_ops id (ex_spec Shared None None) ''web'' 1 [ex_ready k] ps (Some (ex_spec Shared None None))) =
     [(k, [\<lparr> pid_service = ''web'', pid_replica = 0 \<rparr>])]"
  by (simp add: ex_place_eval ex_ready_def)

lemma ex_dist_sel [simp]:
  "sched_raft (ds_core (ex_dist spec))" "hm_get (service_specs (ds_core (ex_dist spec))) ''web'' = Some (ex_spec Shared None None)"
  "cs_nodes (ds_cluster (ex_dist spec)) = map_of ex_entries" "cs_services (ds_cluster (ex_dist spec)) ''web'' = Some ex_service"
  "ds_sent (ex_dist spec) = []" "ds_placement (ex_dist spec) = place \<lparr> pid_service = ''web'', pid_replica = 0 \<rparr> 3 placement_state_new"
  by (simp_all add: ex_dist_def register_service_def Let_def)

lemma ex_dist_env_sel [simp]:
  "de_fl (ex_dist_env reply) = rat_ops" "de_lc (ex_dist_env reply) = id" "de_default (ex_dist_env reply) = ex_spec Shared None None"
  "de_reply (ex_dist_env reply) = reply" "de_nodes (ex_dist_env reply) = (\<lambda>_. ex_entries)"
  by (simp_all add: ex_dist_env_def)

lemma ex_ready_id [simp]: "ns_id (ex_ready k) = k"
  by (simp add: ex_ready_def node_info_state_def ex_info_def)

theorem refusals_never_end_witness:
  "execute_distributed_scaling 100 (ex_dist_env (\<lambda>_ _. RerouteTo ''linux'' ''no'')) ''web'' [(1, [])] (ex_dist Manual) = None"
proof -
  let ?e = "ex_dist_env (\<lambda>_ _. RerouteTo ''linux'' ''no'')"
  have d: "desired_replicas ex_service = 1" by (simp add: ex_service_def)
  have place: "\<exists>cs. fst (compute_placement (de_fl ?e) (de_lc ?e) (de_default ?e) ''web'' (desired_replicas ex_service) [n] ps
      (hm_get (service_specs (ds_core (ex_dist Manual))) ''web'')) = [(ns_id n, cs)]" if "n = ex_ready 1 \<or> n = ex_ready 2" for n ps
    using that ex_place_one [of _ ps] unfolding ex_dist_env_sel ex_dist_sel d by auto
  show ?thesis
    by (rule refusals_never_end [where N = "map_of ex_entries" and ?n1.0 = "ex_ready 1" and ?n2.0 = "ex_ready 2" and svc = ex_service])
       (use place in \<open>auto simp: ex_build ex_entries_def d\<close>)
qed

lemma ex_affected: "affected_services (ex_dist_env reply) 3 st = [(''web'', 1)]"
  by (simp add: affected_services_def ex_dist_env_def ex_service_def)

theorem node_death_rescheduled_witness:
  "\<exists>ds' qs. handle_node_death 1 (ex_dist_env (\<lambda>_ _. RanIt)) 3 (ex_dist Manual) = Some (Inr (), ds') \<and> ds_sent ds' = qs \<and>
     list_all (\<lambda>q. sq_service q = ''web'' \<and> sq_node q \<noteq> 3) qs \<and>
     service_count_on_node (ds_placement (ex_dist Manual)) 3 ''web'' = 1 \<and> service_count_on_node (ds_placement ds') 3 ''web'' = 0"
proof -
  have "nodes_listed (ex_dist_env (\<lambda>_ _. RanIt)) (cs_nodes (ds_cluster (ex_dist Manual)))"
    by (simp add: nodes_listed_def ex_entries_def ex_info_def)
  moreover have "service_count_on_node (ds_placement (ex_dist Manual)) 3 ''web'' = 1"
    by (simp add: service_count_on_node_def containers_on_node_def place_def placement_state_new_def)
  moreover have "build_node_states (ex_dist_env (\<lambda>_ _. RanIt)) (ex_dist Manual) \<noteq> []" by (simp add: ex_build)
  ultimately show ?thesis
    using node_death_rescheduled [of "ex_dist Manual" "ex_dist_env (\<lambda>_ _. RanIt)" 3 "{''web''}" 0]
    by (auto simp: ex_affected ex_entries_def ex_info_def list_all_iff)
qed


end
