(* ===== verification/Secret_Refs.thy ===== *)
theory Secret_Refs
  imports Prelude
begin

text \<open>
  References to secrets and to variables of the host in the environment of a service: the type, parser and printer of
  \<open>crates/zlayer-types/src/secrets/types.rs\<close> (\<open>SecretRef\<close>, \<open>SecretScope\<close>), and the resolution that happens when a
  container starts, \<open>crates/zlayer-agent/src/env.rs\<close>.
\<close>

section \<open>Secret references\<close>

record secret_ref =
  sr_name :: string
  sr_service :: "string option"
  sr_project :: "string option"
  sr_environment :: "string option"
  sr_field :: "string option"

definition SECRET_PREFIX :: string where
  "SECRET_PREFIX = ''$S:''"

definition is_secret_ref :: "string \<Rightarrow> bool" where
  "is_secret_ref v = starts_with v SECRET_PREFIX"

definition parse_env_scoped :: "string \<Rightarrow> string \<Rightarrow> secret_ref option" where
  "parse_env_scoped scope tail =
     (case split_once '':'' scope of
        None \<Rightarrow> None
      | Some (project_raw, environment) \<Rightarrow>
          if environment = [] \<or> str_contains environment '':'' then None
          else let project = (if project_raw = [] then None else Some project_raw) in
            (case (case split_once ''/'' tail of
                     Some (name, field) \<Rightarrow> if field = [] \<or> str_contains field ''/'' then None else Some (name, Some field)
                   | None \<Rightarrow> Some (tail, None)) of
               None \<Rightarrow> None
             | Some (name, field) \<Rightarrow>
                 if name = [] then None
                 else Some \<lparr> sr_name = name, sr_service = None, sr_project = project,
                             sr_environment = Some environment, sr_field = field \<rparr>))"

definition parse_service_scoped :: "string \<Rightarrow> secret_ref option" where
  "parse_service_scoped service_rest =
     (case splitn 3 ''/'' service_rest of
        service # name # parts \<Rightarrow>
          if service = [] \<or> name = [] then None
          else Some \<lparr> sr_name = name, sr_service = Some service, sr_project = None, sr_environment = None,
                      sr_field = (case parts of field # _ \<Rightarrow> if field = [] then None else Some field | [] \<Rightarrow> None) \<rparr>
      | _ \<Rightarrow> None)"

definition secret_ref_parse :: "string \<Rightarrow> secret_ref option" where
  "secret_ref_parse v =
     (case strip_prefix v SECRET_PREFIX of
        None \<Rightarrow> None
      | Some rest \<Rightarrow>
          if rest = [] then None
          else case strip_prefix rest ''@'' of
            Some service_rest \<Rightarrow> parse_service_scoped service_rest
          | None \<Rightarrow>
              if starts_with rest ''/'' then None
              else case split_once ''/'' rest of
                Some (scope, tail) \<Rightarrow>
                  if str_contains scope '':'' then parse_env_scoped scope tail
                  else if scope = [] then None
                  else if tail = [] then None
                  else if str_contains tail ''/'' then None
                  else Some \<lparr> sr_name = scope, sr_service = None, sr_project = None, sr_environment = None, sr_field = Some tail \<rparr>
              | None \<Rightarrow>
                  if str_contains rest '':'' then None
                  else Some \<lparr> sr_name = rest, sr_service = None, sr_project = None, sr_environment = None, sr_field = None \<rparr>)"

definition display_field :: "secret_ref \<Rightarrow> string" where
  "display_field r = (case sr_field r of Some field \<Rightarrow> ''/'' @ field | None \<Rightarrow> [])"

definition secret_ref_display :: "secret_ref \<Rightarrow> string" where
  "secret_ref_display r = SECRET_PREFIX @
     (case sr_service r of
        Some service \<Rightarrow> ''@'' @ service @ ''/'' @ sr_name r @ display_field r
      | None \<Rightarrow>
          (case sr_environment r of
             Some environment \<Rightarrow>
               (case sr_project r of
                  Some project \<Rightarrow> project @ '':'' @ environment @ ''/'' @ sr_name r
                | None \<Rightarrow> '':'' @ environment @ ''/'' @ sr_name r) @ display_field r
           | None \<Rightarrow> sr_name r @ display_field r))"

datatype secret_scope = DeploymentScope string | ServiceScope string string

definition to_scope :: "secret_ref \<Rightarrow> string \<Rightarrow> secret_scope" where
  "to_scope r deployment =
     (case sr_service r of Some service \<Rightarrow> ServiceScope deployment service | None \<Rightarrow> DeploymentScope deployment)"

fun to_key_prefix :: "secret_scope \<Rightarrow> string" where
  "to_key_prefix (DeploymentScope d) = ''deployments/'' @ d @ ''/secrets''"
| "to_key_prefix (ServiceScope d s) = ''deployments/'' @ d @ ''/services/'' @ s @ ''/secrets''"

section \<open>Resolution\<close>

text \<open>
  The host environment, the secrets provider and the JSON library are arguments: \<open>host\<close> is \<open>std::env::var\<close>,
  \<open>None\<close> when the variable is missing or no Unicode; \<open>provider\<close> is the \<open>get_secret\<close> of the secrets
  provider; \<open>json_api\<close> parses a text and reads a field of it. \<open>JOther\<close> stands for arrays and
  objects and carries their JSON text.
\<close>

datatype env_resolution_error = MissingEnvVar string | SecretNotFound string | SecretResolution string

datatype secrets_error = NotFoundSecret string | OtherSecretsError string

datatype json_value = JString string | JNumber string | JBool bool | JNull | JOther string

record 'j json_api =
  json_from_str :: "string \<Rightarrow> string + 'j"
  json_get :: "'j \<Rightarrow> string \<Rightarrow> json_value option"

fun json_text :: "json_value \<Rightarrow> string" where
  "json_text (JString s) = s"
| "json_text (JNumber n) = n"
| "json_text (JBool b) = (if b then ''true'' else ''false'')"
| "json_text JNull = []"
| "json_text (JOther t) = t"

definition extract_json_field :: "'j json_api \<Rightarrow> string \<Rightarrow> string \<Rightarrow> env_resolution_error + string" where
  "extract_json_field json v field =
     (case json_from_str json v of
        Inl e \<Rightarrow> Inl (SecretResolution (''failed to parse secret as JSON: '' @ e))
      | Inr j \<Rightarrow>
          (case json_get json j field of
             Some x \<Rightarrow> Inr (json_text x)
           | None \<Rightarrow> Inl (SecretNotFound (''field '' @ [CHR 0x27] @ field @ [CHR 0x27] @ '' in secret''))))"

definition ENV_REF_PREFIX :: string where
  "ENV_REF_PREFIX = ''$E:''"

definition resolve_env_value :: "(string \<Rightarrow> string option) \<Rightarrow> string \<Rightarrow> env_resolution_error + string" where
  "resolve_env_value host v =
     (case strip_prefix v ENV_REF_PREFIX of
        Some var_name \<Rightarrow> ok_or (host var_name) (MissingEnvVar var_name)
      | None \<Rightarrow> Inr v)"

definition effective_scope :: "string \<Rightarrow> secret_ref \<Rightarrow> string" where
  "effective_scope scope r = (case sr_service r of Some service \<Rightarrow> scope @ ''/'' @ service | None \<Rightarrow> scope)"

fun secrets_error_to_env :: "secrets_error \<Rightarrow> env_resolution_error" where
  "secrets_error_to_env (NotFoundSecret name) = SecretNotFound name"
| "secrets_error_to_env (OtherSecretsError msg) = SecretResolution msg"

definition resolve_value_with_secrets ::
    "(string \<Rightarrow> string option) \<Rightarrow> 'j json_api \<Rightarrow> (string \<Rightarrow> string \<Rightarrow> secrets_error + string) \<Rightarrow> string \<Rightarrow> string \<Rightarrow>
     env_resolution_error + string" where
  "resolve_value_with_secrets host json provider scope v =
     (if is_secret_ref v
      then case secret_ref_parse v of
        None \<Rightarrow> Inl (SecretResolution (''invalid secret reference syntax: '' @ v))
      | Some r \<Rightarrow>
          (case provider (effective_scope scope r) (sr_name r) of
             Inl e \<Rightarrow> Inl (secrets_error_to_env e)
           | Inr secret \<Rightarrow>
               (case sr_field r of Some field \<Rightarrow> extract_json_field json secret field | None \<Rightarrow> Inr secret))
      else resolve_env_value host v)"

definition resolve_pairs ::
    "(string \<Rightarrow> env_resolution_error + string) \<Rightarrow> (string, string) hmap \<Rightarrow> env_resolution_error + (string, string) hmap" where
  "resolve_pairs f env =
     and_then (try_map (\<lambda>(key, v). and_then (f v) (\<lambda>v'. Inr (key, v'))) env)
       (\<lambda>ps. Inr (fold (\<lambda>(key, v). hm_insert key v) ps []))"

definition resolve_env_vars :: "(string \<Rightarrow> string option) \<Rightarrow> (string, string) hmap \<Rightarrow> env_resolution_error + (string, string) hmap" where
  "resolve_env_vars host env = resolve_pairs (resolve_env_value host) env"

definition resolve_env_with_secrets ::
    "(string \<Rightarrow> string option) \<Rightarrow> 'j json_api \<Rightarrow> (string \<Rightarrow> string \<Rightarrow> secrets_error + string) \<Rightarrow> string \<Rightarrow>
     (string, string) hmap \<Rightarrow> env_resolution_error + (string, string) hmap" where
  "resolve_env_with_secrets host json provider scope env =
     resolve_pairs (resolve_value_with_secrets host json provider scope) env"

definition resolve_env_vars_with_warnings ::
    "(string \<Rightarrow> string option) \<Rightarrow> (string, string) hmap \<Rightarrow> env_resolution_error + string list \<times> string list" where
  "resolve_env_vars_with_warnings host env =
     and_then (try_map (\<lambda>(key, v). and_then (resolve_env_value host v) (\<lambda>v'. Inr (key, v, v'))) env)
       (\<lambda>ps. Inr (map (\<lambda>(key, _, v'). key @ ''='' @ v') ps,
                  List.map_filter (\<lambda>(_, v, v'). case strip_prefix v ENV_REF_PREFIX of
                      Some var_name \<Rightarrow> if v' = [] then Some (''environment variable '' @ [CHR 0x27] @ var_name @ [CHR 0x27] @ '' is set but empty'') else None
                    | None \<Rightarrow> None) ps))"

definition get_secret_references :: "(string, string) hmap \<Rightarrow> string list" where
  "get_secret_references env = List.map_filter (\<lambda>(_, v). strip_prefix v SECRET_PREFIX) env"

definition get_env_references :: "(string, string) hmap \<Rightarrow> string list" where
  "get_env_references env = List.map_filter (\<lambda>(_, v). strip_prefix v ENV_REF_PREFIX) env"

section \<open>Round trips\<close>

text \<open>
  The references that have a written form: a name, and segments that do not contain the separators of that form.
\<close>

definition segment :: "string \<Rightarrow> string \<Rightarrow> bool" where
  "segment seps s \<longleftrightarrow> s \<noteq> [] \<and> set s \<inter> set seps = {}"

definition secret_ref_wf :: "secret_ref \<Rightarrow> bool" where
  "secret_ref_wf r \<longleftrightarrow>
     (case sr_service r of
        Some s \<Rightarrow> segment ''/'' s \<and> segment ''/'' (sr_name r) \<and> sr_project r = None \<and> sr_environment r = None \<and>
          (case sr_field r of Some f \<Rightarrow> f \<noteq> [] | None \<Rightarrow> True)
      | None \<Rightarrow>
          (case sr_field r of Some f \<Rightarrow> segment ''/'' f | None \<Rightarrow> True) \<and>
          (case sr_environment r of
             Some e \<Rightarrow> segment ''/:'' e \<and> segment ''/'' (sr_name r) \<and>
               (case sr_project r of Some p \<Rightarrow> segment ''/:'' p \<and> hd p \<noteq> CHR ''@'' | None \<Rightarrow> True)
           | None \<Rightarrow> segment ''/:'' (sr_name r) \<and> hd (sr_name r) \<noteq> CHR ''@'' \<and> sr_project r = None))"

lemma parse_prefix: "secret_ref_parse v = Some r \<Longrightarrow> \<exists>rest. v = SECRET_PREFIX @ rest \<and> rest \<noteq> []"
  by (auto simp: secret_ref_parse_def strip_prefix_def starts_with_iff split: if_splits)

lemma parse_service_scoped_wf:
  assumes "parse_service_scoped s = Some r"
  shows "secret_ref_wf r"
proof (cases "split_once ''/'' s")
  case None
  with assms show ?thesis by (simp add: parse_service_scoped_def numeral_3_eq_3)
next
  case (Some p)
  obtain service rest where p: "p = (service, rest)" by fastforce
  with Some have s: "CHR ''/'' \<notin> set service" by (simp add: split_once_char_Some)
  show ?thesis
  proof (cases "split_once ''/'' rest")
    case None
    with assms Some p s show ?thesis
      by (auto simp: parse_service_scoped_def numeral_3_eq_3 secret_ref_wf_def segment_def split: if_splits)
  next
    case (Some q)
    obtain name field where "q = (name, field)" by fastforce
    with assms p s Some \<open>split_once ''/'' s = Some p\<close> show ?thesis
      by (auto simp: parse_service_scoped_def numeral_3_eq_3 secret_ref_wf_def segment_def split_once_char_Some split: if_splits)
  qed
qed

lemma parse_env_scoped_wf:
  assumes "parse_env_scoped scope tail = Some r" and "CHR ''/'' \<notin> set scope" and "hd scope \<noteq> CHR ''@''"
  shows "secret_ref_wf r"
proof (cases "split_once '':'' scope")
  case None
  with assms show ?thesis by (simp add: parse_env_scoped_def)
next
  case (Some q)
  obtain p e where "q = (p, e)" by fastforce
  with Some have s: "scope = p @ CHR '':'' # e" "CHR '':'' \<notin> set p" and q: "split_once '':'' scope = Some (p, e)"
    by (simp_all add: split_once_char_Some)
  with assms(2,3) have wf: "CHR ''/'' \<notin> set p" "CHR ''/'' \<notin> set e" "p \<noteq> [] \<Longrightarrow> hd p \<noteq> CHR ''@''" by (auto simp: hd_append)
  from assms(1) q have e: "e \<noteq> []" "CHR '':'' \<notin> set e" by (auto simp: parse_env_scoped_def split: if_splits)
  show ?thesis
  proof (cases "split_once ''/'' tail")
    case None
    with assms(1) q e s(2) wf show ?thesis by (auto simp: parse_env_scoped_def Let_def secret_ref_wf_def segment_def split: if_splits)
  next
    case (Some t)
    obtain name field where "t = (name, field)" by fastforce
    with assms(1) q e s(2) wf Some show ?thesis
      by (auto simp: parse_env_scoped_def Let_def secret_ref_wf_def segment_def split_once_char_Some split: if_splits)
  qed
qed

lemma secret_ref_parse_wf:
  assumes "secret_ref_parse v = Some r"
  shows "secret_ref_wf r"
proof -
  from assms obtain rest where v: "v = SECRET_PREFIX @ rest" "rest \<noteq> []" by (auto dest: parse_prefix)
  show ?thesis
  proof (cases "strip_prefix rest ''@''")
    case (Some s)
    with assms v have "parse_service_scoped s = Some r" by (simp add: secret_ref_parse_def)
    then show ?thesis by (auto dest: parse_service_scoped_wf)
  next
    case None
    then have hd: "hd rest \<noteq> CHR ''@''" using v by (cases rest) (auto simp: strip_prefix_char split: if_splits)
    note parse = assms [unfolded v(1) secret_ref_parse_def, simplified, simplified None v(2) if_False option.case]
    show ?thesis
    proof (cases "split_once ''/'' rest")
      case None
      then have "CHR ''/'' \<notin> set rest" by simp
      with parse v hd show ?thesis by (auto simp: secret_ref_wf_def segment_def split: if_splits)
    next
      case (Some st)
      then obtain scope tail where st: "st = (scope, tail)" "rest = scope @ CHR ''/'' # tail" "CHR ''/'' \<notin> set scope"
        by (cases st) (simp add: split_once_char_Some)
      with hd have hd': "hd scope \<noteq> CHR ''@''" if "scope \<noteq> []" using that by simp
      show ?thesis
      proof (cases "CHR '':'' \<in> set scope")
        case True
        with parse Some st have "parse_env_scoped scope tail = Some r" by (auto split: if_splits)
        moreover from True have "hd scope \<noteq> CHR ''@''" by (intro hd') auto
        ultimately show ?thesis by (rule parse_env_scoped_wf [OF _ st(3)])
      next
        case False
        with parse Some st hd' show ?thesis by (auto simp: secret_ref_wf_def segment_def split: if_splits)
      qed
    qed
  qed
qed

lemma display_field_simps: "sr_field r = None \<Longrightarrow> display_field r = []" "sr_field r = Some f \<Longrightarrow> display_field r = CHR ''/'' # f"
  by (simp_all add: display_field_def)

lemma parse_display_service:
  assumes "secret_ref_wf r" and "sr_service r = Some s"
  shows "secret_ref_parse (secret_ref_display r) = Some r"
  using assms
  by (cases r; cases "sr_field r")
    (simp_all add: secret_ref_parse_def secret_ref_display_def strip_prefix_char parse_service_scoped_def numeral_3_eq_3
      secret_ref_wf_def segment_def display_field_simps)

lemma parse_display_environment:
  assumes "secret_ref_wf r" and "sr_service r = None" and "sr_environment r = Some e"
  shows "secret_ref_parse (secret_ref_display r) = Some r"
proof -
  define scope where "scope = (case sr_project r of Some p \<Rightarrow> p | None \<Rightarrow> []) @ '':'' @ e"
  define tail where "tail = sr_name r @ display_field r"
  have d: "secret_ref_display r = SECRET_PREFIX @ scope @ ''/'' @ tail"
    using assms(2,3) by (simp add: secret_ref_display_def scope_def tail_def split: option.splits)
  have sc: "CHR ''/'' \<notin> set scope" "CHR '':'' \<in> set scope" "scope \<noteq> []" "hd scope \<noteq> CHR ''@''" "hd scope \<noteq> CHR ''/''"
    using assms by (auto simp: scope_def secret_ref_wf_def segment_def hd_append dest: hd_in_set split: option.splits)
  then have "secret_ref_parse (secret_ref_display r) = parse_env_scoped scope tail"
    unfolding d by (cases scope) (auto simp: secret_ref_parse_def strip_prefix_char)
  also have "\<dots> = Some r"
    using assms by (cases r; cases "sr_project r"; cases "sr_field r")
      (simp_all add: parse_env_scoped_def scope_def tail_def secret_ref_wf_def segment_def display_field_simps)
  finally show ?thesis .
qed

lemma parse_display_deployment:
  assumes "secret_ref_wf r" and "sr_service r = None" and "sr_environment r = None"
  shows "secret_ref_parse (secret_ref_display r) = Some r"
proof -
  from assms obtain c n where n: "sr_name r = c # n" "c \<noteq> CHR ''@''" "c \<noteq> CHR ''/''" "CHR ''/'' \<notin> set n" "c \<noteq> CHR '':''" "CHR '':'' \<notin> set n"
    by (cases "sr_name r") (auto simp: secret_ref_wf_def segment_def)
  then have "split_once ''/'' (sr_name r @ CHR ''/'' # f) = Some (sr_name r, f)" for f by simp
  with assms n show ?thesis
    by (cases r; cases "sr_field r") (simp_all add: secret_ref_parse_def secret_ref_display_def strip_prefix_char secret_ref_wf_def segment_def display_field_simps)
qed

lemma secret_ref_parse_display: "secret_ref_wf r \<Longrightarrow> secret_ref_parse (secret_ref_display r) = Some r"
  by (cases "sr_service r"; cases "sr_environment r")
    (auto intro: parse_display_environment parse_display_deployment parse_display_service)

text \<open>
  C23. Secret references round-trip: parsing the displayed form of a reference gives it back exactly for the references
  whose parts are non-empty and free of the separators of their form, and those are the references parsing yields.
\<close>

theorem secret_ref_roundtrip:
  "(secret_ref_parse (secret_ref_display r) = Some r \<longleftrightarrow> secret_ref_wf r) \<and> ((\<exists>v. secret_ref_parse v = Some r) \<longleftrightarrow> secret_ref_wf r)"
  by (intro conjI iffI) (auto intro: secret_ref_parse_display dest: secret_ref_parse_wf)

lemma map_of_list_all2:
  "list_all2 (\<lambda>x y. fst x = fst y \<and> P (snd x) (snd y)) xs ys \<Longrightarrow> rel_option P (map_of xs k) (map_of ys k)"
  by (induction xs ys rule: list_all2_induct) (auto simp: split_beta)

lemma map_fst_list_all2: "list_all2 (\<lambda>x y. fst x = fst y \<and> P x y) xs ys \<Longrightarrow> map fst xs = map fst ys"
  by (induction xs ys rule: list_all2_induct) auto

lemma resolve_pairs_Inr:
  assumes "hm_wf env" and "resolve_pairs f env = Inr env'"
  shows "rel_option (\<lambda>v v'. f v = Inr v') (hm_get env key) (hm_get env' key)"
proof -
  from assms(2) obtain ps where ps: "try_map (\<lambda>(key, v). and_then (f v) (\<lambda>v'. Inr (key, v'))) env = Inr ps"
    and env': "env' = fold (\<lambda>(key, v). hm_insert key v) ps []"
    by (auto simp: resolve_pairs_def and_then_Inr_iff)
  from ps have rel: "list_all2 (\<lambda>x y. fst x = fst y \<and> f (snd x) = Inr (snd y)) env ps"
    unfolding try_map_Inr by (rule list_all2_mono) (auto simp: and_then_Inr_iff)
  from map_fst_list_all2 [of "\<lambda>x y. f (snd x) = Inr (snd y)", OF rel] assms(1) have "distinct (map fst ps)" by simp
  then have "hm_get env' = map_of ps" by (simp add: env' hm_get_fold_insert map_of_rev_wf)
  with map_of_list_all2 [of "\<lambda>v v'. f v = Inr v'", OF rel] show ?thesis by simp
qed

lemma resolve_pairs_Inl:
  assumes "hm_wf env" and "resolve_pairs f env = Inl e"
  shows "\<exists>key v. hm_get env key = Some v \<and> f v = Inl e"
proof -
  from assms(2) have "try_map (\<lambda>(key, v). and_then (f v) (\<lambda>v'. Inr (key, v'))) env = Inl e"
    by (cases "try_map (\<lambda>(key, v). and_then (f v) (\<lambda>v'. Inr (key, v'))) env") (simp_all add: resolve_pairs_def)
  from try_map_Inl [OF this] obtain x where x: "x \<in> set env" "(case x of (key, v) \<Rightarrow> and_then (f v) (\<lambda>v'. Inr (key, v'))) = Inl e"
    by (elim bexE)
  obtain key v where "x = (key, v)" by fastforce
  with x have kv: "(key, v) \<in> set env" "and_then (f v) (\<lambda>v'. Inr (key, v')) = Inl e" by simp_all
  from kv(2) have "f v = Inl e" by (cases "f v") simp_all
  moreover have "hm_get env key = Some v" by (rule iffD1 [OF hm_wf_mem_iff [OF assms(1)] kv(1)])
  ultimately show ?thesis by (intro exI conjI)
qed

text \<open>
  Resolving an environment for a container succeeds exactly when every value resolves, and then has the
  same keys, each with the resolution of its value; a failure is the error of one of the values.
\<close>

theorem resolve_env_exact:
  assumes "hm_wf env"
  shows "case resolve_env_with_secrets host json provider scope env of
      Inr env' \<Rightarrow> \<forall>key. rel_option (\<lambda>v v'. resolve_value_with_secrets host json provider scope v = Inr v') (hm_get env key) (hm_get env' key)
    | Inl e \<Rightarrow> \<exists>key v. hm_get env key = Some v \<and> resolve_value_with_secrets host json provider scope v = Inl e"
proof (cases "resolve_env_with_secrets host json provider scope env")
  case (Inl e)
  with resolve_pairs_Inl [OF assms, of "resolve_value_with_secrets host json provider scope" e] show ?thesis
    by (simp add: resolve_env_with_secrets_def)
next
  case (Inr env')
  then have "resolve_pairs (resolve_value_with_secrets host json provider scope) env = Inr env'"
    by (simp add: resolve_env_with_secrets_def)
  from resolve_pairs_Inr [OF assms this] Inr show ?thesis by simp
qed

definition ex_json :: "unit json_api" where
  "ex_json = \<lparr> json_from_str = \<lambda>_. Inl ''none'', json_get = \<lambda>_ _. None \<rparr>"

theorem resolve_env_exact_witness:
  "resolve_env_with_secrets (\<lambda>_. None) ex_json (\<lambda>scope name. Inr (scope @ ''!'' @ name)) ''prod'' [(''DB'', ''$S:@db/url''), (''MODE'', ''fast'')] =
     Inr [(''DB'', ''prod/db!url''), (''MODE'', ''fast'')] \<and>
   rel_option (\<lambda>v v'. resolve_value_with_secrets (\<lambda>_. None) ex_json (\<lambda>scope name. Inr (scope @ ''!'' @ name)) ''prod'' v = Inr v')
     (hm_get [(''DB'', ''$S:@db/url''), (''MODE'', ''fast'')] ''DB'') (hm_get [(''DB'', ''prod/db!url''), (''MODE'', ''fast'')] ''DB'')"
proof -
  have r: "resolve_env_with_secrets (\<lambda>_. None) ex_json (\<lambda>scope name. Inr (scope @ ''!'' @ name)) ''prod'' [(''DB'', ''$S:@db/url''), (''MODE'', ''fast'')] =
     Inr [(''DB'', ''prod/db!url''), (''MODE'', ''fast'')]"
    by (simp add: resolve_env_with_secrets_def resolve_pairs_def resolve_value_with_secrets_def is_secret_ref_def SECRET_PREFIX_def
        secret_ref_parse_def parse_service_scoped_def strip_prefix_def starts_with_def numeral_3_eq_3 effective_scope_def
        resolve_env_value_def ENV_REF_PREFIX_def)
  from resolve_env_exact [of "[(''DB'', ''$S:@db/url''), (''MODE'', ''fast'')]" "\<lambda>_. None" ex_json "\<lambda>scope name. Inr (scope @ ''!'' @ name)" "''prod''"]
  have "rel_option (\<lambda>v v'. resolve_value_with_secrets (\<lambda>_. None) ex_json (\<lambda>scope name. Inr (scope @ ''!'' @ name)) ''prod'' v = Inr v')
     (hm_get [(''DB'', ''$S:@db/url''), (''MODE'', ''fast'')] ''DB'') (hm_get [(''DB'', ''prod/db!url''), (''MODE'', ''fast'')] ''DB'')"
    unfolding r sum.case by (rule spec) simp
  with r show ?thesis by (rule conjI)
qed

text \<open>
  A reference to a secret of an environment is looked up in the scope of the deployment: the environment and the project
  play no part.
\<close>

lemma environment_scope_ignored:
  assumes "secret_ref_wf r" and "sr_environment r = Some e" and "secret_ref_wf (r\<lparr>sr_environment := None, sr_project := None\<rparr>)"
  shows "resolve_value_with_secrets host json provider scope (secret_ref_display r) =
    resolve_value_with_secrets host json provider scope (secret_ref_display (r\<lparr>sr_environment := None, sr_project := None\<rparr>))"
proof -
  have "is_secret_ref (secret_ref_display r)" for r
    by (simp add: is_secret_ref_def secret_ref_display_def starts_with_iff)
  with assms show ?thesis
    by (simp add: resolve_value_with_secrets_def secret_ref_parse_display effective_scope_def split: option.splits sum.splits)
qed

end
