(* ===== verification/Spec_Validation.thy ===== *)
theory Spec_Validation
  imports Placement_State Dependency_Graph Secret_Refs
begin

text \<open>
  Validation of deployment specifications, \<open>crates/zlayer-types/src/spec\<close>: the checks on single fields and across
  fields (\<open>validate.rs\<close>), their errors (\<open>error.rs\<close>), and the loading of a specification that runs them (\<open>mod.rs\<close>).
  The YAML and cron parsers, the duration parser and the rendering of field errors are third-party code and arguments.
\<close>

section \<open>Declarations\<close>

text \<open>The fields of a deployment that validation reads.\<close>

datatype resource_type = RtService | RtJob | RtCron

datatype service_type =
    Standard | WasmHttp | WasmPlugin | WasmTransformer | WasmAuthenticator | WasmRateLimiter | WasmMiddleware | WasmRouter | StJob

record wasm_capabilities =
  wc_config :: bool
  wc_keyvalue :: bool
  wc_logging :: bool
  wc_secrets :: bool
  wc_metrics :: bool
  wc_http_client :: bool
  wc_cli :: bool
  wc_filesystem :: bool
  wc_sockets :: bool

record wasm_preopen =
  wp_source :: string
  wp_target :: string

record wasm_config =
  wasm_min_instances :: u32
  wasm_max_instances :: u32
  wasm_max_memory :: "string option"
  wasm_capabilities_of :: "wasm_capabilities option"
  wasm_preopens :: "wasm_preopen list"

record tunnel_definition =
  td_from :: string
  td_to :: string
  td_local_port :: u16
  td_remote_port :: u16

record group_decl =
  gd_role :: string
  gd_count :: u32

record 'f service_decl =
  sd_rtype :: resource_type
  sd_schedule :: "string option"
  sd_resources :: "'f resources_spec"
  sd_env :: "(string, string) hmap"
  sd_endpoints :: "endpoint_spec list"
  sd_scale :: scale_spec
  sd_replica_groups :: "group_decl list option"
  sd_depends :: "depends_spec list"
  sd_service_type :: service_type
  sd_wasm :: "wasm_config option"

record external_spec =
  ext_backends :: "string list"
  ext_endpoints :: "endpoint_spec list"

record 'f deployment_spec =
  ds_version :: string
  ds_deployment :: string
  ds_services :: "(string, 'f service_decl) hmap"
  ds_externals :: "(string, external_spec) hmap"
  ds_tunnels :: "(string, tunnel_definition) hmap"

fun is_wasm :: "service_type \<Rightarrow> bool" where
  "is_wasm Standard = False"
| "is_wasm StJob = False"
| "is_wasm _ = True"

fun default_wasm_capabilities :: "service_type \<Rightarrow> wasm_capabilities option" where
  "default_wasm_capabilities WasmPlugin = Some
     \<lparr> wc_config = True, wc_keyvalue = True, wc_logging = True, wc_secrets = True, wc_metrics = True,
       wc_http_client = True, wc_cli = True, wc_filesystem = True, wc_sockets = False \<rparr>"
| "default_wasm_capabilities WasmTransformer = Some
     \<lparr> wc_config = False, wc_keyvalue = False, wc_logging = True, wc_secrets = False, wc_metrics = False,
       wc_http_client = False, wc_cli = True, wc_filesystem = False, wc_sockets = False \<rparr>"
| "default_wasm_capabilities WasmAuthenticator = Some
     \<lparr> wc_config = True, wc_keyvalue = False, wc_logging = True, wc_secrets = True, wc_metrics = False,
       wc_http_client = True, wc_cli = False, wc_filesystem = False, wc_sockets = False \<rparr>"
| "default_wasm_capabilities WasmRateLimiter = Some
     \<lparr> wc_config = True, wc_keyvalue = True, wc_logging = True, wc_secrets = False, wc_metrics = True,
       wc_http_client = False, wc_cli = True, wc_filesystem = False, wc_sockets = False \<rparr>"
| "default_wasm_capabilities WasmMiddleware = Some
     \<lparr> wc_config = True, wc_keyvalue = False, wc_logging = True, wc_secrets = False, wc_metrics = False,
       wc_http_client = True, wc_cli = False, wc_filesystem = False, wc_sockets = False \<rparr>"
| "default_wasm_capabilities Standard = None"
| "default_wasm_capabilities StJob = None"
| "default_wasm_capabilities _ = Some
     \<lparr> wc_config = True, wc_keyvalue = True, wc_logging = True, wc_secrets = False, wc_metrics = False,
       wc_http_client = True, wc_cli = False, wc_filesystem = False, wc_sockets = False \<rparr>"

text \<open>The capabilities an empty \<open>capabilities\<close> entry stands for.\<close>

definition wasm_capabilities_default :: wasm_capabilities where
  "wasm_capabilities_default =
     \<lparr> wc_config = True, wc_keyvalue = True, wc_logging = True, wc_secrets = False, wc_metrics = True,
       wc_http_client = False, wc_cli = False, wc_filesystem = False, wc_sockets = False \<rparr>"

fun service_type_debug :: "service_type \<Rightarrow> string" where
  "service_type_debug Standard = ''Standard''"
| "service_type_debug WasmHttp = ''WasmHttp''"
| "service_type_debug WasmPlugin = ''WasmPlugin''"
| "service_type_debug WasmTransformer = ''WasmTransformer''"
| "service_type_debug WasmAuthenticator = ''WasmAuthenticator''"
| "service_type_debug WasmRateLimiter = ''WasmRateLimiter''"
| "service_type_debug WasmMiddleware = ''WasmMiddleware''"
| "service_type_debug WasmRouter = ''WasmRouter''"
| "service_type_debug StJob = ''Job''"

section \<open>Errors\<close>

datatype 'f validation_error_kind =
    InvalidVersion string
  | EmptyDeploymentName
  | EmptyServiceName
  | EmptyImageName
  | InvalidPort u32
  | InvalidCpu 'f
  | InvalidMemoryFormat string
  | InvalidDuration string
  | DuplicateEndpoint string
  | UnknownInitAction string
  | UnknownDependency string
  | CircularDependency string string
  | InvalidScaleRange u32 u32
  | EmptyScaleTargets
  | InvalidEnvVar string string
  | InvalidCronSchedule string string
  | ScheduleOnlyForCron
  | CronRequiresSchedule
  | GenericError string
  | InsufficientNodes nat nat string
  | InvalidTunnelProtocol string
  | InvalidTunnelPort u16 string
  | InvalidTunnelTtl string string
  | WasmConfigOnNonWasmType
  | InvalidWasmInstanceRange u32 u32
  | WasmCapabilityNotAvailable string string
  | WasmHttpMissingHttpEndpoint
  | WasmPreopenEmpty nat string

type_synonym 'f validation_error = "'f validation_error_kind \<times> string"

datatype 'f spec_error = YamlError string | SpecValidation "'f validation_error"

section \<open>Fields\<close>

text \<open>
  The checks behind the \<open>validate\<close> attributes of the types. The \<open>validator\<close> crate runs them all and renders the
  failures into one text; only whether one of them fails is kept. A name is compared byte by byte, which agrees with the
  comparison by characters because the classes are ASCII. The cron parser is an argument.
\<close>

definition ascii_alpha :: "char \<Rightarrow> bool" where
  "ascii_alpha c \<longleftrightarrow> CHR ''a'' \<le> c \<and> c \<le> CHR ''z'' \<or> CHR ''A'' \<le> c \<and> c \<le> CHR ''Z''"

definition ascii_alnum :: "char \<Rightarrow> bool" where
  "ascii_alnum c \<longleftrightarrow> ascii_alpha c \<or> is_digit c"

definition lower_alnum :: "char \<Rightarrow> bool" where
  "lower_alnum c \<longleftrightarrow> CHR ''a'' \<le> c \<and> c \<le> CHR ''z'' \<or> is_digit c"

definition validate_deployment_name :: "string \<Rightarrow> 'f validation_error + unit" where
  "validate_deployment_name name =
     (if length name < 3 \<or> length name > 63 then Inl (EmptyDeploymentName, ''deployment'')
      else if \<not> ascii_alnum (hd name) then Inl (EmptyDeploymentName, ''deployment'')
      else if \<not> list_all (\<lambda>c. ascii_alnum c \<or> c = CHR ''-'') name then Inl (EmptyDeploymentName, ''deployment'')
      else Inr ())"

definition validate_version :: "string \<Rightarrow> 'f validation_error + unit" where
  "validate_version version = (if version = ''v1'' then Inr () else Inl (InvalidVersion version, ''version''))"

definition validate_cpu_option_wrapper :: "'f f64_ops \<Rightarrow> 'f \<Rightarrow> bool" where
  "validate_cpu_option_wrapper fl cpu = (\<not> f_le fl cpu (f_lit fl 0 1))"

definition validate_cpu :: "'f f64_ops \<Rightarrow> 'f \<Rightarrow> 'f validation_error + unit" where
  "validate_cpu fl cpu = (if f_lt fl (f_lit fl 0 1) cpu then Inr () else Inl (InvalidCpu cpu, ''resources.cpu''))"

definition validate_port :: "u16 \<Rightarrow> 'f validation_error + unit" where
  "validate_port port = (if port \<ge> 1 then Inr () else Inl (InvalidPort (ucast port), ''endpoints[].port''))"

definition validate_image_name :: "string \<Rightarrow> 'f validation_error + unit" where
  "validate_image_name name = (if name = [] \<or> trim name = [] then Inl (EmptyImageName, ''image.name'') else Inr ())"

definition validate_memory_format :: "string \<Rightarrow> 'f validation_error + unit" where
  "validate_memory_format v = (if validate_memory v then Inr () else Inl (InvalidMemoryFormat v, ''resources.memory''))"

definition validate_scale_range :: "u32 \<Rightarrow> u32 \<Rightarrow> 'f validation_error + unit" where
  "validate_scale_range mn mx = (if mn \<le> mx then Inr () else Inl (InvalidScaleRange mn mx, ''scale''))"

fun validate_scale_spec :: "scale_spec \<Rightarrow> bool" where
  "validate_scale_spec (Adaptive mn mx _ _) = (mn \<le> mx)"
| "validate_scale_spec _ = True"

text \<open>The pattern \<open>^[a-z]([a-z0-9-]{0,28}[a-z0-9])?$\<close>.\<close>

definition role_pattern :: "string \<Rightarrow> bool" where
  "role_pattern s \<longleftrightarrow>
     s \<noteq> [] \<and> CHR ''a'' \<le> hd s \<and> hd s \<le> CHR ''z'' \<and>
     (length s = 1 \<or>
      length s \<le> 30 \<and> list_all (\<lambda>c. lower_alnum c \<or> c = CHR ''-'') (butlast (tl s)) \<and> lower_alnum (last s))"

definition endpoint_fields_ok :: "endpoint_spec \<Rightarrow> bool" where
  "endpoint_fields_ok e \<longleftrightarrow> ep_name e \<noteq> [] \<and> ep_port e \<ge> 1"

definition group_fields_ok :: "group_decl \<Rightarrow> bool" where
  "group_fields_ok g \<longleftrightarrow> 1 \<le> length (gd_role g) \<and> length (gd_role g) \<le> 30 \<and> role_pattern (gd_role g) \<and> gd_count g \<ge> 1"

definition resources_fields_ok :: "'f f64_ops \<Rightarrow> 'f resources_spec \<Rightarrow> bool" where
  "resources_fields_ok fl r \<longleftrightarrow>
     (case rs_cpu r of Some cpu \<Rightarrow> validate_cpu_option_wrapper fl cpu | None \<Rightarrow> True) \<and>
     (case rs_memory r of Some m \<Rightarrow> validate_memory m | None \<Rightarrow> True)"

definition service_fields_ok :: "'f f64_ops \<Rightarrow> (string \<Rightarrow> bool) \<Rightarrow> 'f service_decl \<Rightarrow> bool" where
  "service_fields_ok fl cron_ok s \<longleftrightarrow>
     (case sd_schedule s of Some sch \<Rightarrow> cron_ok sch | None \<Rightarrow> True) \<and>
     resources_fields_ok fl (sd_resources s) \<and> list_all endpoint_fields_ok (sd_endpoints s) \<and>
     validate_scale_spec (sd_scale s) \<and>
     (case sd_replica_groups s of Some gs \<Rightarrow> list_all group_fields_ok gs | None \<Rightarrow> True)"

definition external_fields_ok :: "external_spec \<Rightarrow> bool" where
  "external_fields_ok x \<longleftrightarrow> 1 \<le> length (ext_backends x) \<and> list_all endpoint_fields_ok (ext_endpoints x)"

definition deployment_fields_ok :: "'f f64_ops \<Rightarrow> (string \<Rightarrow> bool) \<Rightarrow> 'f deployment_spec \<Rightarrow> bool" where
  "deployment_fields_ok fl cron_ok d \<longleftrightarrow>
     validate_version (ds_version d) = (Inr () :: 'f validation_error + unit) \<and>
     validate_deployment_name (ds_deployment d) = (Inr () :: 'f validation_error + unit) \<and>
     list_all (\<lambda>(_, s). service_fields_ok fl cron_ok s) (ds_services d) \<and>
     list_all (\<lambda>(_, x). external_fields_ok x) (ds_externals d)"

section \<open>Secret references\<close>

definition name_chars_ok :: "string \<Rightarrow> bool" where
  "name_chars_ok s \<longleftrightarrow>
     s \<noteq> [] \<and> ascii_alpha (hd s) \<and> list_all (\<lambda>c. ascii_alnum c \<or> c = CHR ''-'' \<or> c = CHR ''_'') s"

text \<open>\<open>validate_secret_reference\<close>; the text of the error is not kept.\<close>

definition validate_secret_reference :: "string \<Rightarrow> bool" where
  "validate_secret_reference v =
     (if \<not> starts_with v ''$S:'' then True
      else let secret_ref = drop 3 v in
        if secret_ref = [] then False
        else case strip_prefix secret_ref ''@'' of
          Some rest \<Rightarrow>
            (case splitn 2 ''/'' rest of
               [service_name, secret_name] \<Rightarrow> name_chars_ok service_name \<and> name_chars_ok secret_name
             | _ \<Rightarrow> False)
        | None \<Rightarrow> name_chars_ok secret_ref)"

section \<open>Checks across fields\<close>

definition validate_dependencies :: "'f deployment_spec \<Rightarrow> 'f validation_error + unit" where
  "validate_dependencies d =
     try_each (\<lambda>(service_name, s).
       try_each (\<lambda>dep.
         if dep_service dep \<notin> set (map fst (ds_services d))
         then Inl (UnknownDependency (dep_service dep), ''services.'' @ service_name @ ''.depends'')
         else Inr ()) (sd_depends s)) (ds_services d)"

fun unique_names_from :: "string list \<Rightarrow> string list \<Rightarrow> string + unit" where
  "unique_names_from seen [] = Inr ()"
| "unique_names_from seen (n # ns) = (if n \<in> set seen then Inl n else unique_names_from (n # seen) ns)"

definition validate_unique_service_endpoints :: "'f deployment_spec \<Rightarrow> 'f validation_error + unit" where
  "validate_unique_service_endpoints d =
     try_each (\<lambda>(service_name, s).
       case unique_names_from [] (map ep_name (sd_endpoints s)) of
         Inl name \<Rightarrow> Inl (DuplicateEndpoint name, ''services.'' @ service_name @ ''.endpoints'')
       | Inr _ \<Rightarrow> Inr ()) (ds_services d)"

definition validate_unique_endpoints :: "endpoint_spec list \<Rightarrow> 'f validation_error + unit" where
  "validate_unique_endpoints es =
     (case unique_names_from [] (map ep_name es) of Inl name \<Rightarrow> Inl (DuplicateEndpoint name, ''endpoints'') | Inr _ \<Rightarrow> Inr ())"

definition validate_unique_replica_group_roles :: "group_decl list \<Rightarrow> string + unit" where
  "validate_unique_replica_group_roles groups = unique_names_from [] (map gd_role groups)"

definition validate_service_schedule :: "string \<Rightarrow> 'f service_decl \<Rightarrow> 'f validation_error + unit" where
  "validate_service_schedule service_name s =
     (if sd_schedule s \<noteq> None \<and> sd_rtype s \<noteq> RtCron then Inl (ScheduleOnlyForCron, ''services.'' @ service_name @ ''.schedule'')
      else if sd_rtype s = RtCron \<and> sd_schedule s = None then Inl (CronRequiresSchedule, ''services.'' @ service_name @ ''.schedule'')
      else Inr ())"

definition validate_cron_schedules :: "'f deployment_spec \<Rightarrow> 'f validation_error + unit" where
  "validate_cron_schedules d = try_each (\<lambda>(service_name, s). validate_service_schedule service_name s) (ds_services d)"

text \<open>\<open>ttl_error\<close> is the duration parser of the \<open>humantime\<close> crate: the text of its error, if any.\<close>

definition validate_tunnel_ttl :: "(string \<Rightarrow> string option) \<Rightarrow> string \<Rightarrow> string option" where
  "validate_tunnel_ttl ttl_error ttl =
     map_option (\<lambda>e. ''invalid TTL format '' @ [CHR 0x27] @ ttl @ [CHR 0x27] @ '': '' @ e) (ttl_error ttl)"

definition validate_tunnel_access_config ::
    "(string \<Rightarrow> string option) \<Rightarrow> tunnel_access_config \<Rightarrow> string \<Rightarrow> 'f validation_error + unit" where
  "validate_tunnel_access_config ttl_error c path =
     (case tac_max_ttl c of
        None \<Rightarrow> Inr ()
      | Some max_ttl \<Rightarrow>
          (case validate_tunnel_ttl ttl_error max_ttl of
             Some msg \<Rightarrow> Inl (InvalidTunnelTtl max_ttl msg, path @ ''.access.max_ttl'')
           | None \<Rightarrow> Inr ()))"

definition validate_endpoint_tunnel_config ::
    "(string \<Rightarrow> string option) \<Rightarrow> endpoint_tunnel_config \<Rightarrow> string \<Rightarrow> 'f validation_error + unit" where
  "validate_endpoint_tunnel_config ttl_error c path =
     (case etc_access c of None \<Rightarrow> Inr () | Some access \<Rightarrow> validate_tunnel_access_config ttl_error access path)"

definition validate_tunnel_definition :: "string \<Rightarrow> tunnel_definition \<Rightarrow> 'f validation_error + unit" where
  "validate_tunnel_definition name t =
     (let path = ''tunnels.'' @ name in
      if td_local_port t = 0 then Inl (InvalidTunnelPort (td_local_port t) ''local_port'', path @ ''.local_port'')
      else if td_remote_port t = 0 then Inl (InvalidTunnelPort (td_remote_port t) ''remote_port'', path @ ''.remote_port'')
      else Inr ())"

definition validate_tunnels :: "(string \<Rightarrow> string option) \<Rightarrow> 'f deployment_spec \<Rightarrow> 'f validation_error + unit" where
  "validate_tunnels ttl_error d =
     and_then (try_each (\<lambda>(name, t). validate_tunnel_definition name t) (ds_tunnels d)) (\<lambda>_.
       try_each (\<lambda>(service_name, s).
         try_each (\<lambda>(idx, e).
           case ep_tunnel e of
             None \<Rightarrow> Inr ()
           | Some c \<Rightarrow> validate_endpoint_tunnel_config ttl_error c
               (''services.'' @ service_name @ ''.endpoints['' @ show_nat idx @ ''].tunnel'')) (enumerate 0 (sd_endpoints s)))
         (ds_services d))"

section \<open>WASM services\<close>

definition validate_wasm_fields :: "string \<Rightarrow> wasm_config \<Rightarrow> 'f validation_error + unit" where
  "validate_wasm_fields service_name w =
     and_then (case wasm_max_memory w of
                 None \<Rightarrow> Inr ()
               | Some m \<Rightarrow> (case (validate_memory_format m :: 'f validation_error + unit) of
                    Inl _ \<Rightarrow> Inl (InvalidMemoryFormat m, ''services.'' @ service_name @ ''.wasm.max_memory'')
                  | Inr _ \<Rightarrow> Inr ()))
       (\<lambda>_. if wasm_min_instances w > wasm_max_instances w
            then Inl (InvalidWasmInstanceRange (wasm_min_instances w) (wasm_max_instances w), ''services.'' @ service_name @ ''.wasm'')
            else Inr ())"

definition validate_capability_restriction ::
    "string \<Rightarrow> service_type \<Rightarrow> string \<times> bool \<times> bool \<Rightarrow> 'f validation_error + unit" where
  "validate_capability_restriction service_name st c =
     (case c of (cap_name, requested, dflt) \<Rightarrow>
        if requested \<and> \<not> dflt
        then Inl (WasmCapabilityNotAvailable cap_name (service_type_debug st), ''services.'' @ service_name @ ''.wasm.capabilities.'' @ cap_name)
        else Inr ())"

definition validate_wasm_capabilities :: "string \<Rightarrow> service_type \<Rightarrow> wasm_config \<Rightarrow> 'f validation_error + unit" where
  "validate_wasm_capabilities service_name st w =
     (case wasm_capabilities_of w of
        None \<Rightarrow> Inr ()
      | Some caps \<Rightarrow>
          (case default_wasm_capabilities st of
             None \<Rightarrow> Inr ()
           | Some defaults \<Rightarrow>
               try_each (validate_capability_restriction service_name st)
                 [(''config'', wc_config caps, wc_config defaults),
                  (''keyvalue'', wc_keyvalue caps, wc_keyvalue defaults),
                  (''logging'', wc_logging caps, wc_logging defaults),
                  (''secrets'', wc_secrets caps, wc_secrets defaults),
                  (''metrics'', wc_metrics caps, wc_metrics defaults),
                  (''http_client'', wc_http_client caps, wc_http_client defaults),
                  (''cli'', wc_cli caps, wc_cli defaults),
                  (''filesystem'', wc_filesystem caps, wc_filesystem defaults),
                  (''sockets'', wc_sockets caps, wc_sockets defaults)]))"

definition validate_wasm_http_endpoints :: "string \<Rightarrow> 'f service_decl \<Rightarrow> 'f validation_error + unit" where
  "validate_wasm_http_endpoints service_name s =
     (if sd_service_type s = WasmHttp \<and> sd_endpoints s \<noteq> [] \<and>
         \<not> list_ex (\<lambda>e. ep_protocol e = Http \<or> ep_protocol e = Https) (sd_endpoints s)
      then Inl (WasmHttpMissingHttpEndpoint, ''services.'' @ service_name @ ''.endpoints'')
      else Inr ())"

definition validate_wasm_preopens :: "string \<Rightarrow> wasm_config \<Rightarrow> 'f validation_error + unit" where
  "validate_wasm_preopens service_name w =
     try_each (\<lambda>(i, p).
       if wp_source p = []
       then Inl (WasmPreopenEmpty i ''source'', ''services.'' @ service_name @ ''.wasm.preopens['' @ show_nat i @ ''].source'')
       else if wp_target p = []
       then Inl (WasmPreopenEmpty i ''target'', ''services.'' @ service_name @ ''.wasm.preopens['' @ show_nat i @ ''].target'')
       else Inr ()) (enumerate 0 (wasm_preopens w))"

definition validate_wasm_config :: "string \<Rightarrow> 'f service_decl \<Rightarrow> 'f validation_error + unit" where
  "validate_wasm_config service_name s =
     (if \<not> is_wasm (sd_service_type s) \<and> sd_wasm s \<noteq> None
      then Inl (WasmConfigOnNonWasmType, ''services.'' @ service_name @ ''.wasm'')
      else case sd_wasm s of
        None \<Rightarrow> Inr ()
      | Some w \<Rightarrow>
          and_then (validate_wasm_fields service_name w) (\<lambda>_.
          and_then (validate_wasm_capabilities service_name (sd_service_type s) w) (\<lambda>_.
          and_then (validate_wasm_http_endpoints service_name s) (\<lambda>_.
          validate_wasm_preopens service_name w))))"

definition validate_wasm_configs :: "'f deployment_spec \<Rightarrow> 'f validation_error + unit" where
  "validate_wasm_configs d = try_each (\<lambda>(service_name, s). validate_wasm_config service_name s) (ds_services d)"

section \<open>Loading a deployment\<close>

text \<open>
  \<open>parse_yaml\<close> is the deserialization of the YAML text by \<open>serde_yaml\<close>, \<open>field_errors\<close> the rendering of the failed
  field checks by the \<open>validator\<close> crate.
\<close>

record 'f spec_env =
  parse_yaml :: "string \<Rightarrow> string + 'f deployment_spec"
  field_errors :: "'f deployment_spec \<Rightarrow> string"
  cron_valid :: "string \<Rightarrow> bool"
  humantime_error :: "string \<Rightarrow> string option"

definition validate_spec :: "'f f64_ops \<Rightarrow> 'f spec_env \<Rightarrow> 'f deployment_spec \<Rightarrow> 'f validation_error + unit" where
  "validate_spec fl env d =
     (if \<not> deployment_fields_ok fl (cron_valid env) d then Inl (GenericError (field_errors env d), [])
      else and_then (validate_dependencies d) (\<lambda>_.
           and_then (validate_unique_service_endpoints d) (\<lambda>_.
           and_then (validate_cron_schedules d) (\<lambda>_.
           and_then (validate_tunnels (humantime_error env) d) (\<lambda>_.
           validate_wasm_configs d)))))"

definition from_yaml_str :: "'f f64_ops \<Rightarrow> 'f spec_env \<Rightarrow> string \<Rightarrow> 'f spec_error + 'f deployment_spec" where
  "from_yaml_str fl env yaml =
     (case parse_yaml env yaml of
        Inl e \<Rightarrow> Inl (YamlError e)
      | Inr d \<Rightarrow> (case validate_spec fl env d of Inl e \<Rightarrow> Inl (SpecValidation e) | Inr _ \<Rightarrow> Inr d))"

section \<open>What validation guarantees\<close>

text \<open>
  A well-formed deployment, stated without the order of the checks: the type the rest of the system relies on.
\<close>

definition caps_within :: "wasm_capabilities \<Rightarrow> wasm_capabilities \<Rightarrow> bool" where
  "caps_within c d \<longleftrightarrow>
     (wc_config c \<longrightarrow> wc_config d) \<and> (wc_keyvalue c \<longrightarrow> wc_keyvalue d) \<and> (wc_logging c \<longrightarrow> wc_logging d) \<and>
     (wc_secrets c \<longrightarrow> wc_secrets d) \<and> (wc_metrics c \<longrightarrow> wc_metrics d) \<and> (wc_http_client c \<longrightarrow> wc_http_client d) \<and>
     (wc_cli c \<longrightarrow> wc_cli d) \<and> (wc_filesystem c \<longrightarrow> wc_filesystem d) \<and> (wc_sockets c \<longrightarrow> wc_sockets d)"

definition wasm_wf :: "'f service_decl \<Rightarrow> wasm_config \<Rightarrow> bool" where
  "wasm_wf s w \<longleftrightarrow>
     is_wasm (sd_service_type s) \<and> wasm_min_instances w \<le> wasm_max_instances w \<and>
     (\<forall>m. wasm_max_memory w = Some m \<longrightarrow> validate_memory m) \<and>
     (\<forall>c d. wasm_capabilities_of w = Some c \<longrightarrow> default_wasm_capabilities (sd_service_type s) = Some d \<longrightarrow> caps_within c d) \<and>
     (sd_service_type s = WasmHttp \<longrightarrow> sd_endpoints s = [] \<or> (\<exists>e \<in> set (sd_endpoints s). ep_protocol e \<in> {Http, Https})) \<and>
     (\<forall>p \<in> set (wasm_preopens w). wp_source p \<noteq> [] \<and> wp_target p \<noteq> [])"

definition service_wf :: "'f f64_ops \<Rightarrow> 'f spec_env \<Rightarrow> 'f deployment_spec \<Rightarrow> 'f service_decl \<Rightarrow> bool" where
  "service_wf fl env d s \<longleftrightarrow>
     service_fields_ok fl (cron_valid env) s \<and>
     (\<forall>dep \<in> set (sd_depends s). hm_get (ds_services d) (dep_service dep) \<noteq> None) \<and>
     distinct (map ep_name (sd_endpoints s)) \<and>
     (sd_schedule s \<noteq> None \<longleftrightarrow> sd_rtype s = RtCron) \<and>
     (\<forall>e \<in> set (sd_endpoints s). \<forall>c a ttl. ep_tunnel e = Some c \<longrightarrow> etc_access c = Some a \<longrightarrow> tac_max_ttl a = Some ttl \<longrightarrow>
        humantime_error env ttl = None) \<and>
     (\<forall>w. sd_wasm s = Some w \<longrightarrow> wasm_wf s w)"

definition deployment_wf :: "'f f64_ops \<Rightarrow> 'f spec_env \<Rightarrow> 'f deployment_spec \<Rightarrow> bool" where
  "deployment_wf fl env d \<longleftrightarrow>
     ds_version d = ''v1'' \<and>
     3 \<le> length (ds_deployment d) \<and> length (ds_deployment d) \<le> 63 \<and> ascii_alnum (hd (ds_deployment d)) \<and>
     (\<forall>c \<in> set (ds_deployment d). ascii_alnum c \<or> c = CHR ''-'') \<and>
     (\<forall>(name, s) \<in> set (ds_services d). service_wf fl env d s) \<and>
     (\<forall>(name, x) \<in> set (ds_externals d). external_fields_ok x) \<and>
     (\<forall>(name, t) \<in> set (ds_tunnels d). td_local_port t \<noteq> 0 \<and> td_remote_port t \<noteq> 0)"

lemma unique_names_iff: "unique_names_from seen ns = Inr u \<longleftrightarrow> distinct ns \<and> set ns \<inter> set seen = {}"
  by (induction ns arbitrary: seen) auto

lemma validate_dependencies_iff:
  "validate_dependencies d = Inr u \<longleftrightarrow>
   (\<forall>(name, s) \<in> set (ds_services d). \<forall>dep \<in> set (sd_depends s). hm_get (ds_services d) (dep_service dep) \<noteq> None)"
  by (auto simp: validate_dependencies_def map_of_eq_None_iff split: if_splits prod.splits)

lemma unique_names_case:
  "(case unique_names_from [] ns of Inl name \<Rightarrow> Inl (f name) | Inr _ \<Rightarrow> Inr ()) = Inr () \<longleftrightarrow> distinct ns"
  using unique_names_iff [of "[]" ns] by (cases "unique_names_from [] ns") auto

lemma validate_unique_endpoints_iff:
  "validate_unique_service_endpoints d = Inr u \<longleftrightarrow> (\<forall>(name, s) \<in> set (ds_services d). distinct (map ep_name (sd_endpoints s)))"
  by (simp add: validate_unique_service_endpoints_def split_beta unique_names_case)

lemma validate_cron_iff:
  "validate_cron_schedules d = Inr u \<longleftrightarrow> (\<forall>(name, s) \<in> set (ds_services d). sd_schedule s \<noteq> None \<longleftrightarrow> sd_rtype s = RtCron)"
  by (auto simp: validate_cron_schedules_def validate_service_schedule_def split: if_splits)

lemma try_each_enumerate:
  assumes "\<And>i y. f i y = Inr () \<longleftrightarrow> P y"
  shows "try_each (\<lambda>(i, y). f i y) (enumerate n xs) = Inr u \<longleftrightarrow> (\<forall>y \<in> set xs. P y)"
  unfolding try_each_Inr by (induction xs arbitrary: n) (simp_all add: assms)

lemma endpoint_tunnel_iff:
  "validate_endpoint_tunnel_config ttl_error c path = Inr () \<longleftrightarrow>
   (\<forall>a ttl. etc_access c = Some a \<longrightarrow> tac_max_ttl a = Some ttl \<longrightarrow> ttl_error ttl = None)"
  by (auto simp: validate_endpoint_tunnel_config_def validate_tunnel_access_config_def validate_tunnel_ttl_def split: option.splits)

lemma endpoint_tunnels_iff:
  "try_each (\<lambda>(idx, e). case ep_tunnel e of None \<Rightarrow> Inr () | Some c \<Rightarrow> validate_endpoint_tunnel_config ttl_error c (path idx)) (enumerate 0 es) = Inr u \<longleftrightarrow>
   (\<forall>e \<in> set es. \<forall>c a ttl. ep_tunnel e = Some c \<longrightarrow> etc_access c = Some a \<longrightarrow> tac_max_ttl a = Some ttl \<longrightarrow> ttl_error ttl = None)"
  by (rule try_each_enumerate) (simp add: endpoint_tunnel_iff split: option.split)

lemma tunnel_definition_iff:
  "validate_tunnel_definition name t = Inr u \<longleftrightarrow> td_local_port t \<noteq> 0 \<and> td_remote_port t \<noteq> 0"
  by (simp add: validate_tunnel_definition_def Let_def)

lemma validate_tunnels_iff:
  "validate_tunnels ttl_error d = Inr u \<longleftrightarrow>
   (\<forall>(name, t) \<in> set (ds_tunnels d). td_local_port t \<noteq> 0 \<and> td_remote_port t \<noteq> 0) \<and>
   (\<forall>(name, s) \<in> set (ds_services d). \<forall>e \<in> set (sd_endpoints s). \<forall>c a ttl.
      ep_tunnel e = Some c \<longrightarrow> etc_access c = Some a \<longrightarrow> tac_max_ttl a = Some ttl \<longrightarrow> ttl_error ttl = None)"
  by (simp add: validate_tunnels_def and_then_Inr_iff tunnel_definition_iff split_beta
      try_each_Inr [of _ "ds_services d"] try_each_Inr [of _ "ds_tunnels d"] endpoint_tunnels_iff [unfolded split_beta] endpoint_tunnels_iff
      del: try_each_Inr)

lemma validate_wasm_capabilities_iff:
  "validate_wasm_capabilities name st w = Inr u \<longleftrightarrow>
   (\<forall>c d. wasm_capabilities_of w = Some c \<longrightarrow> default_wasm_capabilities st = Some d \<longrightarrow> caps_within c d)"
  by (auto simp: validate_wasm_capabilities_def validate_capability_restriction_def caps_within_def split: option.splits)

lemma validate_wasm_preopens_iff:
  "validate_wasm_preopens name w = Inr u \<longleftrightarrow> (\<forall>p \<in> set (wasm_preopens w). wp_source p \<noteq> [] \<and> wp_target p \<noteq> [])"
  unfolding validate_wasm_preopens_def by (rule try_each_enumerate) simp

lemma validate_wasm_iff: "validate_wasm_config name s = Inr u \<longleftrightarrow> (\<forall>w. sd_wasm s = Some w \<longrightarrow> wasm_wf s w)"
proof (cases "sd_wasm s")
  case (Some w)
  have f: "validate_wasm_fields name w = (Inr () :: 'a validation_error + unit) \<longleftrightarrow>
      wasm_min_instances w \<le> wasm_max_instances w \<and> (\<forall>m. wasm_max_memory w = Some m \<longrightarrow> validate_memory m)"
    by (auto simp: validate_wasm_fields_def validate_memory_format_def and_then_Inr_iff not_less split: option.splits if_splits)
  have h: "validate_wasm_http_endpoints name s = Inr () \<longleftrightarrow>
      (sd_service_type s = WasmHttp \<longrightarrow> sd_endpoints s = [] \<or> (\<exists>e \<in> set (sd_endpoints s). ep_protocol e \<in> {Http, Https}))"
    by (auto simp: validate_wasm_http_endpoints_def list_ex_iff)
  show ?thesis
    by (simp add: validate_wasm_config_def Some and_then_Inr_iff f h validate_wasm_capabilities_iff validate_wasm_preopens_iff wasm_wf_def conj_ac)
qed (simp add: validate_wasm_config_def)

lemmas validate_iffs = validate_dependencies_iff validate_unique_endpoints_iff validate_cron_iff validate_tunnels_iff validate_wasm_iff

lemma validate_spec_iff: "validate_spec fl env d = Inr u \<longleftrightarrow> deployment_wf fl env d"
proof -
  have n: "validate_deployment_name (ds_deployment d) = (Inr () :: 'a validation_error + unit) \<longleftrightarrow>
      3 \<le> length (ds_deployment d) \<and> length (ds_deployment d) \<le> 63 \<and> ascii_alnum (hd (ds_deployment d)) \<and>
      (\<forall>c \<in> set (ds_deployment d). ascii_alnum c \<or> c = CHR ''-'')"
    by (auto simp: validate_deployment_name_def list_all_iff)
  have v: "validate_version (ds_version d) = (Inr () :: 'a validation_error + unit) \<longleftrightarrow> ds_version d = ''v1''"
    by (simp add: validate_version_def)
  have w: "validate_wasm_configs d = Inr u \<longleftrightarrow> (\<forall>(name, s) \<in> set (ds_services d). \<forall>w. sd_wasm s = Some w \<longrightarrow> wasm_wf s w)" for u
    by (simp add: validate_wasm_configs_def split_beta validate_wasm_iff)
  have f: "deployment_fields_ok fl (cron_valid env) d \<longleftrightarrow> ds_version d = ''v1'' \<and>
      3 \<le> length (ds_deployment d) \<and> length (ds_deployment d) \<le> 63 \<and> ascii_alnum (hd (ds_deployment d)) \<and>
      (\<forall>c \<in> set (ds_deployment d). ascii_alnum c \<or> c = CHR ''-'') \<and>
      (\<forall>(name, s) \<in> set (ds_services d). service_fields_ok fl (cron_valid env) s) \<and>
      (\<forall>(name, x) \<in> set (ds_externals d). external_fields_ok x)"
    by (simp add: deployment_fields_ok_def n v list_all_iff)
  have c: "validate_spec fl env d = Inr u \<longleftrightarrow> deployment_fields_ok fl (cron_valid env) d \<and> validate_dependencies d = Inr () \<and>
      validate_unique_service_endpoints d = Inr () \<and> validate_cron_schedules d = Inr () \<and>
      validate_tunnels (humantime_error env) d = Inr () \<and> validate_wasm_configs d = Inr ()"
    by (simp add: validate_spec_def and_then_Inr_iff)
  show ?thesis unfolding c f w validate_iffs deployment_wf_def service_wf_def split_beta by blast
qed

text \<open>
  C5. Loading a specification yields exactly the well-formed deployments: the version and the name are valid, every dependency
  names a service of the deployment, endpoint names are unique within a service and ports are not zero, a schedule is
  present exactly on cron services, tunnels have ports and readable lifetimes, and a WASM configuration stands only on a WASM
  service, within the capabilities of its type.
\<close>

theorem loaded_spec_wf:
  "from_yaml_str fl env yaml = Inr d \<longleftrightarrow> parse_yaml env yaml = Inr d \<and> deployment_wf fl env d"
proof (cases "parse_yaml env yaml")
  case (Inr d')
  then show ?thesis
    using validate_spec_iff [of fl env d'] by (cases "validate_spec fl env d'") (auto simp: from_yaml_str_def)
qed (simp add: from_yaml_str_def)

section \<open>Validated deployments and the dependency graph\<close>

definition spec_services :: "'f deployment_spec \<Rightarrow> services" where
  "spec_services d = map (\<lambda>(name, s). (name, sd_depends s)) (ds_services d)"

lemma spec_services_get: "hm_get (spec_services d) n = map_option sd_depends (hm_get (ds_services d) n)"
  unfolding spec_services_def by (induction "ds_services d") (auto simp: map_of_map)

lemma spec_services_keys: "map fst (spec_services d) = map fst (ds_services d)"
  by (simp add: spec_services_def split_beta comp_def)

lemma loaded_deps_exist:
  assumes "deployment_wf fl env d" and "(name, deps) \<in> set (spec_services d)" and "dep \<in> set deps"
  shows "hm_get (spec_services d) (dep_service dep) \<noteq> None"
proof -
  from assms(2) obtain s where "(name, s) \<in> set (ds_services d)" "deps = sd_depends s" by (auto simp: spec_services_def)
  with assms(1,3) have "hm_get (ds_services d) (dep_service dep) \<noteq> None" by (fastforce simp: deployment_wf_def service_wf_def)
  then show ?thesis by (simp add: spec_services_get)
qed

text \<open>
  C21. A loaded deployment never refers to a service that does not exist: its dependency graph is built, with an order that
  starts every service after its dependencies, exactly when the dependencies have no cycle, which validation does not
  look for.
\<close>

theorem loaded_spec_builds:
  assumes "from_yaml_str fl env yaml = Inr d" and "hm_wf (ds_services d)"
    and "distinct keys" and "set keys = set (map fst (ds_services d))"
  shows "(\<exists>g. build keys (spec_services d) = Inr g \<and> topo (deps_of (spec_services d)) (dg_startup_order g)) \<longleftrightarrow>
    acyclic (dep_edges (spec_services d))"
proof -
  have wf: "hm_wf (spec_services d)" "set keys = set (map fst (spec_services d))"
    using assms(2,4) by (simp_all only: spec_services_keys)
  from assms(1) have "deployment_wf fl env d"
    by (auto simp: from_yaml_str_def validate_spec_iff split: sum.splits)
  note exist = loaded_deps_exist [OF this]
  have valid: "\<forall>(n, deps) \<in> set (spec_services d). valid_deps (spec_services d) n deps" if "acyclic (dep_edges (spec_services d))"
  proof (intro ballI, clarify)
    fix n deps assume nd: "(n, deps) \<in> set (spec_services d)"
    then have "hm_get (spec_services d) n = Some deps" by (rule iffD1 [OF hm_wf_mem_iff [OF wf(1)]])
    then have "(n, dep_service dep) \<in> dep_edges (spec_services d)" if "dep \<in> set deps" for dep
      using that by (simp add: dep_edges_def deps_of_def)
    with that exist [OF nd] show "valid_deps (spec_services d) n deps" by (auto simp: valid_deps_def acyclic_def)
  qed
  from build_cases [OF wf(1) assms(3) wf(2)] show ?thesis
  proof (elim disjE exE conjE)
    fix e assume e: "build keys (spec_services d) = Inl (BuildError (agent_error_from e))" "edge_error (spec_services d) e"
    from edge_error_invalid [OF wf(1) e(2)] valid have "\<not> acyclic (dep_edges (spec_services d))" by blast
    with e(1) show ?thesis by simp
  next
    fix adj radj order
    assume g: "build keys (spec_services d) = Inr \<lparr> dg_keys = keys, dg_nodes = init_nodes (spec_services d), dg_startup_order = order,
         dg_adjacency = adj, dg_reverse_adjacency = radj \<rparr>"
      and a: "acyclic (dep_edges (spec_services d))" "topo (deps_of (spec_services d)) order"
    then show ?thesis by simp
  qed
qed
definition ex_endpoint :: endpoint_spec where
  "ex_endpoint = \<lparr> ep_name = ''http'', ep_protocol = Http, ep_port = 80, ep_target_port = None, ep_path = None, ep_host = None,
     ep_expose = Public, ep_stream = None, ep_target_role = None, ep_tunnel = None \<rparr>"

definition ex_decl :: "depends_spec list \<Rightarrow> rat service_decl" where
  "ex_decl deps = \<lparr> sd_rtype = RtService, sd_schedule = None, sd_resources = \<lparr> rs_cpu = Some 1, rs_memory = None, rs_gpu = None \<rparr>,
     sd_env = [], sd_endpoints = [ex_endpoint], sd_scale = Fixed 1, sd_replica_groups = None, sd_depends = deps,
     sd_service_type = Standard, sd_wasm = None \<rparr>"

definition ex_deployment :: "rat deployment_spec" where
  "ex_deployment = \<lparr> ds_version = ''v1'', ds_deployment = ''shop'', ds_services = [(''web'', ex_decl [sample_dep ''db'']), (''db'', ex_decl [])],
     ds_externals = [], ds_tunnels = [(''t'', \<lparr> td_from = ''a'', td_to = ''b'', td_local_port = 1, td_remote_port = 2 \<rparr>)] \<rparr>"

definition ex_spec_env :: "rat spec_env" where
  "ex_spec_env = \<lparr> parse_yaml = \<lambda>_. Inr ex_deployment, field_errors = \<lambda>_. [], cron_valid = \<lambda>_. True, humantime_error = \<lambda>_. None \<rparr>"

lemma ex_deployment_loads: "from_yaml_str rat_ops ex_spec_env [] = Inr ex_deployment"
proof -
  have "deployment_wf rat_ops ex_spec_env ex_deployment"
    by (simp add: deployment_wf_def service_wf_def service_fields_ok_def resources_fields_ok_def endpoint_fields_ok_def
        validate_cpu_option_wrapper_def rat_ops_sel ex_deployment_def ex_decl_def ex_endpoint_def sample_dep_def ex_spec_env_def
        ascii_alnum_def ascii_alpha_def less_eq_char_def)
  then have "validate_spec rat_ops ex_spec_env ex_deployment = Inr ()" by (simp add: validate_spec_iff)
  then show ?thesis by (simp add: from_yaml_str_def ex_spec_env_def)
qed

theorem loaded_spec_builds_witness:
  "\<exists>g. build [''db'', ''web''] (spec_services ex_deployment) = Inr g \<and> topo (deps_of (spec_services ex_deployment)) (dg_startup_order g)"
proof -
  have "deps_of (spec_services ex_deployment) n = (if n = ''web'' then [''db''] else [])" for n
    by (simp add: deps_of_def spec_services_def ex_deployment_def ex_decl_def sample_dep_def)
  then have "dep_edges (spec_services ex_deployment) = {(''web'', ''db'')}" by (auto simp: dep_edges_def split: if_splits)
  then have "acyclic (dep_edges (spec_services ex_deployment))" by (simp add: acyclic_insert) (simp add: acyclic_def)
  moreover have "hm_wf (ds_services ex_deployment)" "set [''db'', ''web''] = set (map fst (ds_services ex_deployment))"
    by (auto simp: ex_deployment_def)
  ultimately show ?thesis using loaded_spec_builds [OF ex_deployment_loads, of "[''db'', ''web'']"] by simp
qed

section \<open>Secrets of a validated deployment\<close>

lemma name_no_slash:
  assumes "validate_deployment_name d = Inr u"
  shows "CHR ''/'' \<notin> set d"
proof
  assume "CHR ''/'' \<in> set d"
  with assms have "ascii_alnum (CHR ''/'')" by (auto simp: validate_deployment_name_def list_all_iff split: if_splits)
  then show False by (simp add: ascii_alnum_def ascii_alpha_def is_digit_def less_eq_char_def)
qed

text \<open>
  C22. Deployments do not share secrets: for validated deployment names, two references are looked up under the same key only if
  they belong to the same deployment, the same service and the same name.
\<close>

theorem secret_keys_separate:
  assumes "validate_deployment_name d = (Inr () :: 'f validation_error + unit)"
    and "validate_deployment_name d' = (Inr () :: 'f validation_error + unit)"
  shows "(effective_scope d r, sr_name r) = (effective_scope d' r', sr_name r') \<longleftrightarrow>
    d = d' \<and> sr_service r = sr_service r' \<and> sr_name r = sr_name r'"
  using name_no_slash [OF assms(1)] name_no_slash [OF assms(2)]
  by (auto simp: effective_scope_def split: option.splits dest: append_sep_inject)

definition ex_ref :: "string option \<Rightarrow> secret_ref" where
  "ex_ref service = \<lparr> sr_name = ''key'', sr_service = service, sr_project = None, sr_environment = None, sr_field = None \<rparr>"

theorem secret_keys_separate_witness:
  "(effective_scope ''shop'' (ex_ref (Some ''web'')), sr_name (ex_ref (Some ''web''))) \<noteq>
   (effective_scope ''blog'' (ex_ref (Some ''web'')), sr_name (ex_ref (Some ''web'')))"
proof -
  have "validate_deployment_name ''shop'' = (Inr () :: rat validation_error + unit)"
    "validate_deployment_name ''blog'' = (Inr () :: rat validation_error + unit)"
    by (simp_all add: validate_deployment_name_def ascii_alnum_def ascii_alpha_def less_eq_char_def)
  from secret_keys_separate [OF this, of "ex_ref (Some ''web'')" "ex_ref (Some ''web'')"] show ?thesis by simp
qed

lemma name_chars_okD: "name_chars_ok s \<Longrightarrow> s \<noteq> [] \<and> hd s \<noteq> CHR ''@'' \<and> CHR ''/'' \<notin> set s \<and> CHR '':'' \<notin> set s"
proof -
  assume n: "name_chars_ok s"
  have no: "\<not> (ascii_alnum c \<or> c = CHR ''-'' \<or> c = CHR ''_'')" if "c = CHR ''/'' \<or> c = CHR '':'' \<or> c = CHR ''@''" for c
    using that by (auto simp: ascii_alnum_def ascii_alpha_def is_digit_def less_eq_char_def)
  from n have "s \<noteq> []" "\<forall>c \<in> set s. ascii_alnum c \<or> c = CHR ''-'' \<or> c = CHR ''_''" by (simp_all add: name_chars_ok_def list_all_iff)
  moreover from this have "hd s \<in> set s" by simp
  ultimately show ?thesis using no by blast
qed

text \<open>
  A value that starts like a secret reference and passes validation is read back as one, of a deployment or a service and
  without a field, and its displayed form is the value.
\<close>

theorem validated_reference_parses:
  assumes "is_secret_ref v" and "validate_secret_reference v"
  shows "\<exists>r. secret_ref_parse v = Some r \<and> secret_ref_display r = v \<and> sr_field r = None \<and> sr_environment r = None"
proof -
  from assms(1) obtain rest where v: "v = ''$S:'' @ rest" by (auto simp: is_secret_ref_def SECRET_PREFIX_def starts_with_iff)
  show ?thesis
  proof (cases "strip_prefix rest ''@''")
    case None
    with assms(2) v have "name_chars_ok rest" by (auto simp: validate_secret_reference_def Let_def starts_with_iff split: if_splits)
    then have "secret_ref_wf \<lparr> sr_name = rest, sr_service = None, sr_project = None, sr_environment = None, sr_field = None \<rparr>"
      using name_chars_okD [of rest] by (simp add: secret_ref_wf_def segment_def)
    from secret_ref_parse_display [OF this] show ?thesis
      by (intro exI [of _ "\<lparr> sr_name = rest, sr_service = None, sr_project = None, sr_environment = None, sr_field = None \<rparr>"])
        (simp add: secret_ref_display_def display_field_def v SECRET_PREFIX_def)
  next
    case (Some svc)
    with assms(2) v obtain service name where s: "splitn 2 ''/'' svc = [service, name]" "name_chars_ok service" "name_chars_ok name"
      by (auto simp: validate_secret_reference_def Let_def starts_with_iff split: if_splits list.splits)
    then have svc: "svc = service @ CHR ''/'' # name"
      by (auto simp: numeral_2_eq_2 split_once_char_Some split: option.splits prod.splits)
    from Some have rest: "rest = CHR ''@'' # svc" by (auto simp: strip_prefix_char split: list.splits if_splits)
    let ?r = "\<lparr> sr_name = name, sr_service = Some service, sr_project = None, sr_environment = None, sr_field = None \<rparr>"
    have "secret_ref_wf ?r" using name_chars_okD [OF s(2)] name_chars_okD [OF s(3)] by (simp add: secret_ref_wf_def segment_def)
    from secret_ref_parse_display [OF this] show ?thesis
      by (intro exI [of _ ?r]) (simp add: secret_ref_display_def display_field_def v rest svc SECRET_PREFIX_def)
  qed
qed

theorem validated_reference_parses_witness: "\<exists>r. secret_ref_parse ''$S:@auth/jwt-key'' = Some r \<and> sr_field r = None"
  using validated_reference_parses [of "''$S:@auth/jwt-key''"]
  by (auto simp: is_secret_ref_def SECRET_PREFIX_def starts_with_def validate_secret_reference_def strip_prefix_def numeral_2_eq_2
      name_chars_ok_def ascii_alnum_def ascii_alpha_def less_eq_char_def is_digit_def)

section \<open>Gaps in validation\<close>

text \<open>
  Writing out only some capabilities asks for metrics as well, which only two of the WASM types have.
\<close>

lemma default_capabilities_rejected:
  assumes "wasm_capabilities_of w = Some wasm_capabilities_default" and "is_wasm st"
  shows "validate_wasm_capabilities name st w = Inr () \<longleftrightarrow> st = WasmPlugin \<or> st = WasmRateLimiter"
  using assms by (cases st) (simp_all add: validate_wasm_capabilities_iff caps_within_def wasm_capabilities_default_def)

text \<open>A CPU limit that is not a number passes the check of the field, and not the direct one.\<close>

lemma cpu_checks_differ:
  assumes "\<not> f_le fl cpu (f_lit fl 0 1)" and "\<not> f_lt fl (f_lit fl 0 1) cpu"
  shows "validate_cpu_option_wrapper fl cpu \<and> validate_cpu fl cpu \<noteq> Inr ()"
  using assms by (simp add: validate_cpu_option_wrapper_def validate_cpu_def)

end
