(* ===== verification/Load_Balancer.thy ===== *)
theory Load_Balancer
  imports Prelude
begin

text \<open>
  The load balancer of the proxy, \<open>crates/zlayer-proxy/src/lb.rs\<close>. Backends are shared through reference
  counted pointers by the groups that list them and by the guards of open connections, so they live in
  a store and are named by their place in it; a group lists places, and a guard holds one. The atomic
  counters wrap at 64 bits. The background health checker is modelled by the effect of one probe;
  its timing, its concurrency limit and the socket it opens are not.
\<close>

section \<open>State\<close>

datatype lb_strategy = RoundRobin | LeastConnections

datatype lb_health = LbHealthy | LbUnhealthy

definition UNHEALTHY_THRESHOLD :: u64 where
  "UNHEALTHY_THRESHOLD = 3"

record backend =
  be_addr :: socket_addr
  be_active :: u64
  be_health :: lb_health
  be_failures :: u64

type_synonym backend_id = nat

record backend_group =
  grp_backends :: "backend_id list"
  grp_strategy :: lb_strategy
  rr_counter :: u64

record load_balancer =
  store :: "backend list"
  groups :: "(string, backend_group) hmap"

section \<open>One backend\<close>

definition backend_new :: "socket_addr \<Rightarrow> backend" where
  "backend_new addr = \<lparr> be_addr = addr, be_active = 0, be_health = LbHealthy, be_failures = 0 \<rparr>"

definition on_backend :: "(backend \<Rightarrow> backend) \<Rightarrow> backend_id \<Rightarrow> load_balancer \<Rightarrow> load_balancer" where
  "on_backend f i lb = (if i < length (store lb) then lb\<lparr>store := (store lb)[i := f (store lb ! i)]\<rparr> else lb)"

definition track_connection :: "backend_id \<Rightarrow> load_balancer \<Rightarrow> load_balancer" where
  "track_connection = on_backend (\<lambda>b. b\<lparr>be_active := be_active b + 1\<rparr>)"

definition guard_drop :: "backend_id \<Rightarrow> load_balancer \<Rightarrow> load_balancer" where
  "guard_drop = on_backend (\<lambda>b. b\<lparr>be_active := be_active b - 1\<rparr>)"

definition is_healthy :: "load_balancer \<Rightarrow> backend_id \<Rightarrow> bool" where
  "is_healthy lb i \<longleftrightarrow> be_health (store lb ! i) = LbHealthy"

definition set_healthy :: "backend_id \<Rightarrow> load_balancer \<Rightarrow> load_balancer" where
  "set_healthy = on_backend (\<lambda>b. b\<lparr>be_health := LbHealthy\<rparr>)"

definition set_unhealthy :: "backend_id \<Rightarrow> load_balancer \<Rightarrow> load_balancer" where
  "set_unhealthy = on_backend (\<lambda>b. b\<lparr>be_health := LbUnhealthy\<rparr>)"

definition record_failure :: "backend_id \<Rightarrow> load_balancer \<Rightarrow> load_balancer" where
  "record_failure = on_backend (\<lambda>b. b\<lparr>be_failures := be_failures b + 1\<rparr>)"

definition reset_failures :: "backend_id \<Rightarrow> load_balancer \<Rightarrow> load_balancer" where
  "reset_failures = on_backend (\<lambda>b. b\<lparr>be_failures := 0\<rparr>)"

text \<open>One probe of the health checker: whether the connection attempt succeeded in time.\<close>

definition health_probe :: "bool \<Rightarrow> backend_id \<Rightarrow> load_balancer \<Rightarrow> load_balancer" where
  "health_probe ok i lb =
     (if ok then reset_failures i (set_healthy i lb)
      else
        let lb = record_failure i lb;
            failures = be_failures (store lb ! i) in
        if failures \<ge> UNHEALTHY_THRESHOLD then set_unhealthy i lb else lb)"

section \<open>Groups\<close>

definition group_new :: "lb_strategy \<Rightarrow> backend_group" where
  "group_new s = \<lparr> grp_backends = [], grp_strategy = s, rr_counter = 0 \<rparr>"

fun rr_scan :: "load_balancer \<Rightarrow> backend_id list \<Rightarrow> nat \<Rightarrow> nat list \<Rightarrow> backend_id option" where
  "rr_scan lb bs start [] = None"
| "rr_scan lb bs start (i # is) =
     (let idx = (start + i) mod length bs; b = bs ! idx in
      if is_healthy lb b then Some b else rr_scan lb bs start is)"

definition select_round_robin :: "load_balancer \<Rightarrow> backend_group \<Rightarrow> backend_id option \<times> backend_group" where
  "select_round_robin lb g =
     (let n = length (grp_backends g);
          start = unat (rr_counter g) mod n
      in (rr_scan lb (grp_backends g) start [0 ..< n], g\<lparr>rr_counter := rr_counter g + 1\<rparr>))"

definition select_least_connections :: "load_balancer \<Rightarrow> backend_group \<Rightarrow> backend_id option" where
  "select_least_connections lb g =
     min_by_key (\<lambda>i. be_active (store lb ! i)) (filter (is_healthy lb) (grp_backends g))"

definition group_select :: "load_balancer \<Rightarrow> backend_group \<Rightarrow> backend_id option \<times> backend_group" where
  "group_select lb g =
     (if grp_backends g = [] then (None, g)
      else case grp_strategy g of
             RoundRobin \<Rightarrow> select_round_robin lb g
           | LeastConnections \<Rightarrow> (select_least_connections lb g, g))"

fun reuse_backends ::
  "backend_id list \<Rightarrow> socket_addr list \<Rightarrow> backend list \<Rightarrow> backend_id list \<times> backend list" where
  "reuse_backends old [] st = ([], st)"
| "reuse_backends old (addr # addrs) st =
     (case find (\<lambda>i. be_addr (st ! i) = addr) old of
        Some i \<Rightarrow> let (is, st') = reuse_backends old addrs st in (i # is, st')
      | None \<Rightarrow>
          let (is, st') = reuse_backends old addrs (st @ [backend_new addr]) in (length st # is, st'))"

definition group_update_backends ::
  "socket_addr list \<Rightarrow> backend_group \<Rightarrow> backend list \<Rightarrow> backend_group \<times> backend list" where
  "group_update_backends addrs g st =
     (let (is, st') = reuse_backends (grp_backends g) addrs st in (g\<lparr>grp_backends := is\<rparr>, st'))"

definition group_add_backend :: "socket_addr \<Rightarrow> backend_group \<Rightarrow> backend list \<Rightarrow> backend_group \<times> backend list" where
  "group_add_backend addr g st =
     (if \<not> list_ex (\<lambda>i. be_addr (st ! i) = addr) (grp_backends g)
      then (g\<lparr>grp_backends := grp_backends g @ [length st]\<rparr>, st @ [backend_new addr])
      else (g, st))"

definition group_remove_backend :: "socket_addr \<Rightarrow> backend_group \<Rightarrow> backend list \<Rightarrow> backend_group" where
  "group_remove_backend addr g st =
     g\<lparr>grp_backends := filter (\<lambda>i. be_addr (st ! i) \<noteq> addr) (grp_backends g)\<rparr>"

section \<open>The load balancer\<close>

definition lb_new :: load_balancer where
  "lb_new = \<lparr> store = [], groups = [] \<rparr>"

definition lb_register :: "string \<Rightarrow> socket_addr list \<Rightarrow> lb_strategy \<Rightarrow> load_balancer \<Rightarrow> load_balancer" where
  "lb_register service addrs strategy lb =
     (let n = length (store lb);
          group = (group_new strategy)\<lparr>grp_backends := [n ..< n + length addrs]\<rparr>
      in lb\<lparr>store := store lb @ map backend_new addrs, groups := hm_insert service group (groups lb)\<rparr>)"

definition lb_select :: "string \<Rightarrow> load_balancer \<Rightarrow> backend_id option \<times> load_balancer" where
  "lb_select service lb =
     (case hm_get (groups lb) service of
        None \<Rightarrow> (None, lb)
      | Some g \<Rightarrow> let (r, g') = group_select lb g in (r, lb\<lparr>groups := hm_insert service g' (groups lb)\<rparr>))"

definition lb_update_backends :: "string \<Rightarrow> socket_addr list \<Rightarrow> load_balancer \<Rightarrow> load_balancer" where
  "lb_update_backends service addrs lb =
     (case hm_get (groups lb) service of
        None \<Rightarrow> lb
      | Some g \<Rightarrow>
          let (g', st) = group_update_backends addrs g (store lb) in
          lb\<lparr>store := st, groups := hm_insert service g' (groups lb)\<rparr>)"

definition lb_unregister :: "string \<Rightarrow> load_balancer \<Rightarrow> load_balancer" where
  "lb_unregister service lb = lb\<lparr>groups := hm_remove service (groups lb)\<rparr>"

definition lb_add_backend :: "string \<Rightarrow> socket_addr \<Rightarrow> load_balancer \<Rightarrow> load_balancer" where
  "lb_add_backend service addr lb =
     (case hm_get (groups lb) service of
        None \<Rightarrow> lb
      | Some g \<Rightarrow>
          let (g', st) = group_add_backend addr g (store lb) in
          lb\<lparr>store := st, groups := hm_insert service g' (groups lb)\<rparr>)"

definition lb_remove_backend :: "string \<Rightarrow> socket_addr \<Rightarrow> load_balancer \<Rightarrow> load_balancer" where
  "lb_remove_backend service addr lb =
     (case hm_get (groups lb) service of
        None \<Rightarrow> lb
      | Some g \<Rightarrow> lb\<lparr>groups := hm_insert service (group_remove_backend addr g (store lb)) (groups lb)\<rparr>)"

definition backend_count :: "string \<Rightarrow> load_balancer \<Rightarrow> nat" where
  "backend_count service lb =
     (case hm_get (groups lb) service of None \<Rightarrow> 0 | Some g \<Rightarrow> length (grp_backends g))"

definition healthy_count :: "string \<Rightarrow> load_balancer \<Rightarrow> nat" where
  "healthy_count service lb =
     (case hm_get (groups lb) service of
        None \<Rightarrow> 0 | Some g \<Rightarrow> length (filter (is_healthy lb) (grp_backends g)))"

definition mark_health :: "string \<Rightarrow> socket_addr \<Rightarrow> bool \<Rightarrow> load_balancer \<Rightarrow> load_balancer" where
  "mark_health service addr healthy lb =
     (case hm_get (groups lb) service of
        None \<Rightarrow> lb
      | Some g \<Rightarrow>
          (case find (\<lambda>i. be_addr (store lb ! i) = addr) (grp_backends g) of
             None \<Rightarrow> lb
           | Some i \<Rightarrow>
               if healthy then reset_failures i (set_healthy i lb)
               else record_failure i (set_unhealthy i lb)))"

record backend_snapshot =
  snap_addr :: socket_addr
  snap_healthy :: bool
  snap_active :: u64
  snap_failures :: u64

definition group_snapshot :: "string \<Rightarrow> load_balancer \<Rightarrow> (lb_strategy \<times> backend_snapshot list) option" where
  "group_snapshot service lb =
     (case hm_get (groups lb) service of
        None \<Rightarrow> None
      | Some g \<Rightarrow> Some (grp_strategy g,
          map (\<lambda>i. let b = store lb ! i in
             \<lparr> snap_addr = be_addr b, snap_healthy = is_healthy lb i, snap_active = be_active b,
               snap_failures = be_failures b \<rparr>) (grp_backends g)))"

definition list_service_names :: "load_balancer \<Rightarrow> string list" where
  "list_service_names lb = map fst (groups lb)"

text \<open>
  One sweep of the health checker: every listed backend is probed, \<open>up i\<close> being whether the connection to
  backend \<open>i\<close> succeeds in time. A probe touches its own backend only.
\<close>

definition health_sweep :: "(backend_id \<Rightarrow> bool) \<Rightarrow> load_balancer \<Rightarrow> load_balancer" where
  "health_sweep up lb =
     fold (\<lambda>i. health_probe (up i) i) (concat (map (\<lambda>(_, g). grp_backends g) (groups lb))) lb"

section \<open>Selection\<close>

lemma rr_scan_eq: "rr_scan lb bs start is = find (is_healthy lb) (map (\<lambda>i. bs ! ((start + i) mod length bs)) is)"
  by (induction "is") (simp_all add: Let_def)

lemma rotation_set: "bs \<noteq> [] \<Longrightarrow> set (map (\<lambda>i. bs ! ((start + i) mod length bs)) [0 ..< length bs]) = set bs"
proof -
  assume ne: "bs \<noteq> []"
  have "bs ! j \<in> (\<lambda>i. bs ! ((start + i) mod length bs)) ` {0 ..< length bs}" if "j < length bs" for j
  proof (rule image_eqI)
    let ?n = "length bs"
    let ?i = "(j + ?n - start mod ?n) mod ?n"
    have "(start + ?i) mod ?n = (start mod ?n + (j + ?n - start mod ?n)) mod ?n"
      by (simp add: mod_add_eq mod_add_left_eq mod_add_right_eq)
    also have "start mod ?n + (j + ?n - start mod ?n) = j + ?n"
      using ne mod_less_divisor [of ?n start] by (simp add: less_imp_le trans_le_add2)
    finally show "bs ! j = bs ! ((start + ?i) mod ?n)" using that by simp
    show "?i \<in> {0 ..< ?n}" using ne by simp
  qed
  moreover have "bs ! ((start + i) mod length bs) \<in> set bs" for i using ne by simp
  ultimately show ?thesis using ne by (force simp: in_set_conv_nth)
qed

lemma select_rr_cases:
  assumes "grp_backends g \<noteq> []"
  shows "case fst (select_round_robin lb g) of
      None \<Rightarrow> \<forall>i \<in> set (grp_backends g). \<not> is_healthy lb i
    | Some i \<Rightarrow> i \<in> set (grp_backends g) \<and> is_healthy lb i"
  using rotation_set [OF assms, of "unat (rr_counter g) mod length (grp_backends g)"]
  by (auto simp: select_round_robin_def Let_def rr_scan_eq find_None_iff find_Some_iff split: option.splits)

text \<open>
  Selection is sound and complete for both strategies: a group yields a backend exactly when one of
  its backends is healthy, the backend it yields is a healthy one of the group, and under least
  connections it is the earliest healthy backend with the fewest open connections.
\<close>

theorem group_select_correct:
  "case fst (group_select lb g) of
     None \<Rightarrow> \<forall>i \<in> set (grp_backends g). \<not> is_healthy lb i
   | Some i \<Rightarrow>
       i \<in> set (grp_backends g) \<and> is_healthy lb i \<and>
       (grp_strategy g = LeastConnections \<longrightarrow>
          (\<exists>before later. filter (is_healthy lb) (grp_backends g) = before @ i # later \<and>
             (\<forall>j \<in> set before. be_active (store lb ! i) < be_active (store lb ! j)) \<and>
             (\<forall>j \<in> set later. be_active (store lb ! i) \<le> be_active (store lb ! j))))"
proof (cases "grp_backends g = []")
  case True
  then show ?thesis by (simp add: group_select_def)
next
  case ne: False
  show ?thesis
  proof (cases "grp_strategy g")
    case RoundRobin
    with ne select_rr_cases [OF ne, of lb] show ?thesis by (simp add: group_select_def split: option.splits)
  next
    case LeastConnections
    let ?f = "\<lambda>i. be_active (store lb ! i)" and ?hs = "filter (is_healthy lb) (grp_backends g)"
    show ?thesis
    proof (cases "min_by_key ?f ?hs")
      case None
      with ne LeastConnections show ?thesis
        by (simp add: group_select_def select_least_connections_def filter_empty_conv)
    next
      case (Some i)
      note m = min_by_key_Some [OF Some]
      from m obtain before later where i: "?hs = before @ i # later" "\<forall>j \<in> set before. ?f i < ?f j"
        by (elim conjE exE)
      have later: "\<forall>j \<in> set later. ?f i \<le> ?f j" using m [THEN conjunct2, THEN conjunct1] unfolding i(1) by simp
      have least: "\<exists>before later. ?hs = before @ i # later \<and>
          (\<forall>j \<in> set before. ?f i < ?f j) \<and> (\<forall>j \<in> set later. ?f i \<le> ?f j)"
        by (intro exI conjI) (rule i later)+
      have "fst (group_select lb g) = Some i"
        using Some ne LeastConnections by (simp add: group_select_def select_least_connections_def)
      with m [THEN conjunct1] least show ?thesis by simp
    qed
  qed
qed

definition peer :: "nat \<Rightarrow> socket_addr" where
  "peer n = (IpV4 (word_of_nat n), 80)"

definition sample_lb :: load_balancer where
  "sample_lb = lb_register ''web'' [peer 1, peer 2, peer 3] LeastConnections lb_new"

lemma sample_lb_eq: "sample_lb = \<lparr> store = map backend_new [peer 1, peer 2, peer 3],
   groups = [(''web'', \<lparr> grp_backends = [0, 1, 2], grp_strategy = LeastConnections, rr_counter = 0 \<rparr>)] \<rparr>"
  by (simp add: sample_lb_def lb_register_def lb_new_def group_new_def Let_def upt_rec)

theorem group_select_correct_witness:
  "\<exists>i before later. fst (group_select (track_connection 0 sample_lb) (snd (hd (groups sample_lb)))) = Some i \<and>
     [0, 1, 2] = before @ i # later \<and> i \<noteq> 0"
proof -
  let ?lb = "track_connection 0 sample_lb" and ?g = "snd (hd (groups sample_lb))"
  have "fst (group_select ?lb ?g) = Some 1"
    by (simp add: group_select_def select_least_connections_def is_healthy_def track_connection_def on_backend_def
        sample_lb_eq backend_new_def)
  moreover have "filter (is_healthy ?lb) (grp_backends ?g) = [0, 1, 2]" "grp_strategy ?g = LeastConnections"
    by (simp_all add: is_healthy_def track_connection_def on_backend_def sample_lb_eq backend_new_def)
  ultimately show ?thesis
    using group_select_correct [of ?g ?lb] by auto
qed

section \<open>No starvation\<close>

fun rr_many :: "load_balancer \<Rightarrow> backend_group \<Rightarrow> nat \<Rightarrow> backend_id option list" where
  "rr_many lb g 0 = []"
| "rr_many lb g (Suc n) = (let (r, g') = select_round_robin lb g in r # rr_many lb g' n)"

lemma length_rr_many [simp]: "length (rr_many lb g n) = n"
  by (induction n arbitrary: g) (simp_all add: case_prod_unfold Let_def)

lemma rr_many_nth:
  "k < n \<Longrightarrow> rr_many lb g n ! k = fst (select_round_robin lb (g\<lparr>rr_counter := rr_counter g + word_of_nat k\<rparr>))"
proof (induction n arbitrary: g k)
  case (Suc n)
  then show ?case
    by (cases k) (simp_all add: case_prod_unfold Let_def select_round_robin_def algebra_simps)
qed simp

lemma select_rr_at:
  assumes "grp_backends g \<noteq> []" and "bs = grp_backends g" and "is_healthy lb (bs ! (unat (rr_counter g) mod length bs))"
  shows "fst (select_round_robin lb g) = Some (bs ! (unat (rr_counter g) mod length bs))"
proof -
  obtain m where m: "length bs = Suc m" using assms(1,2) by (cases "length bs") auto
  have up: "[0 ..< length bs] = 0 # [1 ..< length bs]" unfolding m by (simp add: upt_conv_Cons del: upt_Suc)
  show ?thesis
    using assms(3) unfolding select_round_robin_def Let_def assms(2) [symmetric] fst_conv up
    by (simp add: Let_def)
qed

text \<open>
  Round robin starves no one: among as many consecutive selections as the group has backends, each
  healthy backend of the group is selected at least once, as long as the 64-bit position counter does
  not wrap on the way; when all backends are healthy and listed once, each is selected exactly once.
\<close>

theorem round_robin_fair:
  assumes "unat (rr_counter g) + length (grp_backends g) \<le> 2 ^ 64"
    and "i \<in> set (grp_backends g)" and "is_healthy lb i"
  shows "Some i \<in> set (rr_many lb g (length (grp_backends g))) \<and>
    ((\<forall>j \<in> set (grp_backends g). is_healthy lb j) \<and> distinct (grp_backends g) \<longrightarrow>
       count_list (rr_many lb g (length (grp_backends g))) (Some i) = 1)"
proof -
  let ?bs = "grp_backends g" and ?n = "length (grp_backends g)" and ?c = "unat (rr_counter g)"
  have ne: "?bs \<noteq> []" using assms(2) by auto
  have cnt: "unat (rr_counter g + word_of_nat k) = ?c + k" if "k < ?n" for k
    using that assms(1) by (simp add: unat_word_ariths unat_of_nat)
  have at: "rr_many lb g ?n ! k = Some (?bs ! ((?c + k) mod ?n))"
    if "k < ?n" "is_healthy lb (?bs ! ((?c + k) mod ?n))" for k
  proof -
    let ?g = "g\<lparr>rr_counter := rr_counter g + word_of_nat k\<rparr>"
    have c: "unat (rr_counter ?g) = ?c + k" using cnt [OF that(1)] by simp
    have "grp_backends ?g \<noteq> []" "?bs = grp_backends ?g" using ne by simp_all
    from select_rr_at [OF this, of lb] that(2) show ?thesis
      unfolding rr_many_nth [OF that(1)] c by simp
  qed
  have rot: "set (map (\<lambda>k. ?bs ! ((?c + k) mod ?n)) [0 ..< ?n]) = set ?bs" by (rule rotation_set [OF ne])
  with assms(2) obtain k where k: "k < ?n" "?bs ! ((?c + k) mod ?n) = i"
    unfolding rot [symmetric] by auto
  with at [of k] assms(3) have "rr_many lb g ?n ! k = Some i" by simp
  with k(1) have "Some i \<in> set (rr_many lb g ?n)" by (metis length_rr_many nth_mem)
  moreover have "count_list (rr_many lb g ?n) (Some i) = 1"
    if all: "\<forall>j \<in> set ?bs. is_healthy lb j" and d: "distinct ?bs"
  proof -
    have "is_healthy lb (?bs ! ((?c + k) mod ?n))" for k using all ne by simp
    then have eq: "rr_many lb g ?n = map Some (map (\<lambda>k. ?bs ! ((?c + k) mod ?n)) [0 ..< ?n])"
      using at by (intro nth_equalityI) simp_all
    have "card (set (map (\<lambda>k. ?bs ! ((?c + k) mod ?n)) [0 ..< ?n])) = ?n" unfolding rot using d by (rule distinct_card)
    then have "distinct (map (\<lambda>k. ?bs ! ((?c + k) mod ?n)) [0 ..< ?n])" by (intro card_distinct) simp
    then have "distinct (rr_many lb g ?n)" unfolding eq by (subst distinct_map) simp
    with \<open>Some i \<in> set (rr_many lb g ?n)\<close> show ?thesis by (simp add: distinct_count_list)
  qed
  ultimately show ?thesis by blast
qed

definition sample_rr :: backend_group where
  "sample_rr = \<lparr> grp_backends = [0, 1, 2], grp_strategy = RoundRobin, rr_counter = 7 \<rparr>"

theorem round_robin_fair_witness:
  "Some 2 \<in> set (rr_many (set_unhealthy 1 sample_lb) sample_rr 3)"
proof -
  have "is_healthy (set_unhealthy 1 sample_lb) 2"
    by (simp add: is_healthy_def set_unhealthy_def on_backend_def sample_lb_eq backend_new_def)
  moreover have n: "length (grp_backends sample_rr) = 3" and "2 \<in> set (grp_backends sample_rr)"
    by (simp_all add: sample_rr_def)
  moreover have "unat (rr_counter sample_rr) + length (grp_backends sample_rr) \<le> 2 ^ 64"
    unfolding n by (simp add: sample_rr_def)
  ultimately show ?thesis
    using round_robin_fair [of sample_rr 2 "set_unhealthy 1 sample_lb", THEN conjunct1] by simp
qed

lemma group_select_member: "fst (group_select lb g) = Some i \<Longrightarrow> i \<in> set (grp_backends g)"
proof (cases "grp_backends g = []")
  case False
  assume "fst (group_select lb g) = Some i"
  with False select_rr_cases [OF False, of lb] show ?thesis
    by (auto simp: group_select_def select_least_connections_def split: lb_strategy.splits dest!: min_by_key_Some [THEN conjunct1])
qed (simp add: group_select_def)

lemma group_select_healthy: "fst (group_select lb g) = Some i \<Longrightarrow> is_healthy lb i"
proof (cases "grp_backends g = []")
  case False
  assume "fst (group_select lb g) = Some i"
  with False select_rr_cases [OF False, of lb] show ?thesis
    by (auto simp: group_select_def select_least_connections_def split: lb_strategy.splits dest!: min_by_key_Some [THEN conjunct1])
qed (simp add: group_select_def)

lemma group_select_none: "fst (group_select lb g) = None \<Longrightarrow> i \<in> set (grp_backends g) \<Longrightarrow> \<not> is_healthy lb i"
proof (cases "grp_backends g = []")
  case False
  assume "fst (group_select lb g) = None" "i \<in> set (grp_backends g)"
  with False select_rr_cases [OF False, of lb] show ?thesis
    by (auto simp: group_select_def select_least_connections_def filter_empty_conv split: lb_strategy.splits)
qed simp

lemma lb_select_healthy:
  assumes "lb_select service lb = (Some i, lb')"
  shows "\<exists>g. hm_get (groups lb) service = Some g \<and> i \<in> set (grp_backends g) \<and> is_healthy lb i \<and> store lb' = store lb"
proof (cases "hm_get (groups lb) service")
  case (Some g)
  with assms have "fst (group_select lb g) = Some i" "store lb' = store lb"
    by (auto simp: lb_select_def split: prod.splits)
  with group_select_member [of lb g i] group_select_healthy [of lb g i] Some show ?thesis by blast
qed (use assms in \<open>simp add: lb_select_def\<close>)

lemma lb_select_none:
  assumes "lb_select service lb = (None, lb')" "hm_get (groups lb) service = Some g"
  shows "\<forall>i \<in> set (grp_backends g). \<not> is_healthy lb i"
proof -
  from assms have "fst (group_select lb g) = None" by (auto simp: lb_select_def split: prod.splits)
  then show ?thesis by (simp add: group_select_none)
qed

lemma lb_select_store: "lb_select service lb = (r, lb') \<Longrightarrow> store lb' = store lb"
  by (auto simp: lb_select_def split: option.splits prod.splits)

lemma track_drop [simp]: "store (guard_drop i (track_connection i lb)) = store lb"
  by (auto simp: guard_drop_def track_connection_def on_backend_def)

section \<open>Connection counting\<close>

text \<open>
  The balancer under use: \<open>guards\<close> lists the backends of the connection guards that are alive. A connection
  is opened on the backend a selection returned, and any guard may be dropped at any time, also after
  its backend left the group or the whole service was unregistered.
\<close>

type_synonym lb_use = "load_balancer \<times> backend_id list"

inductive lb_step :: "lb_use \<Rightarrow> lb_use \<Rightarrow> bool" where
  step_open: "lb_select service lb = (Some i, lb') \<Longrightarrow> lb_step (lb, guards) (track_connection i lb', i # guards)"
| step_refuse: "lb_select service lb = (None, lb') \<Longrightarrow> lb_step (lb, guards) (lb', guards)"
| step_close: "i \<in> set guards \<Longrightarrow> lb_step (lb, guards) (guard_drop i lb, remove1 i guards)"
| step_register: "lb_step (lb, guards) (lb_register service addrs strategy lb, guards)"
| step_unregister: "lb_step (lb, guards) (lb_unregister service lb, guards)"
| step_update: "lb_step (lb, guards) (lb_update_backends service addrs lb, guards)"
| step_add: "lb_step (lb, guards) (lb_add_backend service addr lb, guards)"
| step_remove: "lb_step (lb, guards) (lb_remove_backend service addr lb, guards)"
| step_mark: "lb_step (lb, guards) (mark_health service addr healthy lb, guards)"
| step_sweep: "lb_step (lb, guards) (health_sweep up lb, guards)"

abbreviation lb_reaches :: "lb_use \<Rightarrow> lb_use \<Rightarrow> bool" where
  "lb_reaches \<equiv> lb_step\<^sup>*\<^sup>*"

definition ids_below :: "nat \<Rightarrow> (string, backend_group) hmap \<Rightarrow> bool" where
  "ids_below n gs \<longleftrightarrow> (\<forall>s g. hm_get gs s = Some g \<longrightarrow> (\<forall>i \<in> set (grp_backends g). i < n))"

definition counted :: "backend list \<Rightarrow> backend_id list \<Rightarrow> bool" where
  "counted st guards \<longleftrightarrow>
     (\<forall>i \<in> set guards. i < length st) \<and> (\<forall>i < length st. be_active (st ! i) = word_of_nat (count_list guards i))"

definition lb_inv :: "lb_use \<Rightarrow> bool" where
  "lb_inv u = (case u of (lb, guards) \<Rightarrow> ids_below (length (store lb)) (groups lb) \<and> counted (store lb) guards)"

lemma ids_below_get: "ids_below n gs \<Longrightarrow> hm_get gs s = Some g \<Longrightarrow> i \<in> set (grp_backends g) \<Longrightarrow> i < n"
  unfolding ids_below_def by blast

lemma ids_below_insert:
  "ids_below n gs \<Longrightarrow> n \<le> m \<Longrightarrow> (\<And>i. i \<in> set (grp_backends g) \<Longrightarrow> i < m) \<Longrightarrow> ids_below m (hm_insert s g gs)"
  unfolding ids_below_def by (auto split: if_splits dest: less_le_trans)

lemma ids_below_remove: "ids_below n gs \<Longrightarrow> ids_below n (hm_remove s gs)"
  unfolding ids_below_def by (auto split: if_splits)

lemma length_on_backend [simp]:
  "length (store (on_backend f i lb)) = length (store lb)" "groups (on_backend f i lb) = groups lb"
  by (simp_all add: on_backend_def)

lemma active_on_backend:
  "(\<And>b. be_active (f b) = be_active b) \<Longrightarrow> map be_active (store (on_backend f i lb)) = map be_active (store lb)"
  by (simp add: on_backend_def map_update list_update_same_conv)

lemma counted_eq: "map be_active st = map be_active st' \<Longrightarrow> counted st guards = counted st' guards"
proof -
  assume eq: "map be_active st = map be_active st'"
  then have n: "length st = length st'" by (rule map_eq_imp_length_eq)
  have "be_active (st ! i) = be_active (st' ! i)" if "i < length st" for i
    using that n arg_cong [OF eq, of "\<lambda>xs. xs ! i"] by simp
  then show ?thesis unfolding counted_def n by auto
qed

lemma lb_inv_frame:
  "lb_inv (lb, guards) \<Longrightarrow> groups lb' = groups lb \<Longrightarrow> map be_active (store lb') = map be_active (store lb) \<Longrightarrow>
   lb_inv (lb', guards)"
  unfolding lb_inv_def using counted_eq [of "store lb'" "store lb"] map_eq_imp_length_eq [of be_active "store lb'" be_active "store lb"]
  by simp

text \<open>The operations on health leave the groups and the connection counts alone.\<close>

definition same_load :: "load_balancer \<Rightarrow> load_balancer \<Rightarrow> bool" where
  "same_load lb lb' \<longleftrightarrow> groups lb' = groups lb \<and> map be_active (store lb') = map be_active (store lb)"

lemma same_load_refl [simp]: "same_load lb lb"
  by (simp add: same_load_def)

lemma same_load_trans: "same_load a b \<Longrightarrow> same_load b c \<Longrightarrow> same_load a c"
  by (simp add: same_load_def)

lemma same_load_health:
  "same_load lb (set_healthy i lb)" "same_load lb (set_unhealthy i lb)"
  "same_load lb (record_failure i lb)" "same_load lb (reset_failures i lb)"
  by (simp_all add: same_load_def set_healthy_def set_unhealthy_def record_failure_def reset_failures_def active_on_backend)

lemma same_load_mark: "same_load lb (mark_health service addr healthy lb)"
  by (auto simp: mark_health_def intro: same_load_trans [OF same_load_health(1) same_load_health(4)]
      same_load_trans [OF same_load_health(2) same_load_health(3)] split: option.split)

lemma same_load_probe: "same_load lb (health_probe ok i lb)"
  by (auto simp: health_probe_def Let_def intro: same_load_trans [OF same_load_health(1) same_load_health(4)]
      same_load_trans [OF same_load_health(3) same_load_health(2)] same_load_health(3))

lemma same_load_sweep: "same_load lb (health_sweep up lb)"
proof -
  have "same_load lb (fold (\<lambda>i. health_probe (up i) i) is lb)" for "is"
  proof (induction "is" arbitrary: lb)
    case (Cons i "is")
    show ?case using same_load_trans [OF same_load_probe Cons.IH] by simp
  qed simp
  then show ?thesis unfolding health_sweep_def .
qed

lemma counted_append_new: "counted st guards \<Longrightarrow> counted (st @ map backend_new addrs) guards"
proof -
  assume c: "counted st guards"
  then have "count_list guards i = 0" if "\<not> i < length st" for i
    using that by (auto simp: counted_def count_list_0_iff)
  with c show ?thesis
    by (auto simp: counted_def nth_append backend_new_def trans_less_add1)
qed

lemma reuse_backends_spec:
  assumes "reuse_backends old addrs st = (is, st')" and "\<forall>i \<in> set old. i < length st"
  shows "\<exists>new. st' = st @ map backend_new new \<and> (\<forall>i \<in> set is. i < length st') \<and> map (\<lambda>i. be_addr (st' ! i)) is = addrs \<and>
    set new \<subseteq> set addrs - (\<lambda>i. be_addr (st ! i)) ` set old \<and>
    list_all2 (\<lambda>addr i. case find (\<lambda>j. be_addr (st ! j) = addr) old of
       Some j \<Rightarrow> i = j | None \<Rightarrow> length st \<le> i \<and> st' ! i = backend_new addr) addrs is"
  using assms
proof (induction old addrs st arbitrary: "is" st' rule: reuse_backends.induct)
  case (1 old st)
  then show ?case by (auto intro: exI [of _ "[]"])
next
  case (2 old addr addrs st)
  show ?case
  proof (cases "find (\<lambda>i. be_addr (st ! i) = addr) old")
    case (Some i)
    obtain is' where r: "reuse_backends old addrs st = (is', st')" and "is": "is = i # is'"
      using 2(3) Some by (auto split: prod.splits)
    have i: "i \<in> set old" "be_addr (st ! i) = addr" using Some by (auto simp: find_Some_iff)
    from 2(2) [OF Some r 2(4)] obtain new where new: "st' = st @ map backend_new new"
      and rest: "\<forall>i \<in> set is'. i < length st'" "map (\<lambda>i. be_addr (st' ! i)) is' = addrs"
        "set new \<subseteq> set addrs - (\<lambda>i. be_addr (st ! i)) ` set old"
        "list_all2 (\<lambda>addr i. case find (\<lambda>j. be_addr (st ! j) = addr) old of
           Some j \<Rightarrow> i = j | None \<Rightarrow> length st \<le> i \<and> st' ! i = backend_new addr) addrs is'" by blast
    have lt: "i < length st" using i(1) 2(4) by blast
    show ?thesis
      by (rule exI [of _ new]) (use new rest i lt Some in \<open>auto simp: "is" nth_append\<close>)
  next
    case None
    let ?st = "st @ [backend_new addr]"
    obtain is' where r: "reuse_backends old addrs ?st = (is', st')" and "is": "is = length st # is'"
      using 2(3) None by (auto split: prod.splits)
    have same: "be_addr (?st ! j) = be_addr (st ! j)" if "j \<in> set old" for j
      using that 2(4) by (simp add: nth_append)
    have find: "find (\<lambda>j. be_addr (?st ! j) = a) old = find (\<lambda>j. be_addr (st ! j) = a) old" for a
      using same by (intro find_cong) auto
    have img: "(\<lambda>i. be_addr (?st ! i)) ` set old = (\<lambda>i. be_addr (st ! i)) ` set old"
      using same by (intro image_cong) auto
    have "\<forall>i \<in> set old. i < length ?st" using 2(4) by auto
    from 2(1) [OF None r this] obtain new where new: "st' = ?st @ map backend_new new"
      and rest: "\<forall>i \<in> set is'. i < length st'" "map (\<lambda>i. be_addr (st' ! i)) is' = addrs"
        "set new \<subseteq> set addrs - (\<lambda>i. be_addr (st ! i)) ` set old"
        "list_all2 (\<lambda>addr i. case find (\<lambda>j. be_addr (st ! j) = addr) old of
           Some j \<Rightarrow> i = j | None \<Rightarrow> length ?st \<le> i \<and> st' ! i = backend_new addr) addrs is'"
      unfolding find img by blast
    have all: "list_all2 (\<lambda>addr i. case find (\<lambda>j. be_addr (st ! j) = addr) old of
           Some j \<Rightarrow> i = j | None \<Rightarrow> length st \<le> i \<and> st' ! i = backend_new addr) addrs is'"
      by (rule list_all2_mono [OF rest(4)]) (simp split: option.splits)
    have at: "st' ! length st = backend_new addr" "length st < length st'" unfolding new by simp_all
    have fresh: "addr \<notin> (\<lambda>i. be_addr (st ! i)) ` set old" using None by (auto simp: find_None_iff)
    show ?thesis
      by (rule exI [of _ "addr # new"]) (use new rest(1-3) all at fresh None in \<open>auto simp: "is" backend_new_def\<close>)
  qed
qed

lemma counted_track: "counted st guards \<Longrightarrow> i < length st \<Longrightarrow>
   counted (st[i := (st ! i)\<lparr>be_active := be_active (st ! i) + 1\<rparr>]) (i # guards)"
  by (auto simp: counted_def nth_list_update)

lemma count_list_remove1: "i \<in> set xs \<Longrightarrow> count_list xs j = count_list (remove1 i xs) j + (if i = j then 1 else 0)"
  by (induction xs) auto

lemma counted_drop: "counted st guards \<Longrightarrow> i \<in> set guards \<Longrightarrow>
   counted (st[i := (st ! i)\<lparr>be_active := be_active (st ! i) - 1\<rparr>]) (remove1 i guards)"
proof -
  assume c: "counted st guards" and i: "i \<in> set guards"
  have "j < length st" if "j \<in> set (remove1 i guards)" for j
    using c subsetD [OF set_remove1_subset that] by (simp add: counted_def)
  moreover have "be_active (st[i := (st ! i)\<lparr>be_active := be_active (st ! i) - 1\<rparr>] ! j) =
      word_of_nat (count_list (remove1 i guards) j)" if "j < length st" for j
    using c that count_list_remove1 [OF i, of j] by (simp add: counted_def nth_list_update)
  ultimately show ?thesis unfolding counted_def by simp
qed

lemma lb_inv_select: "lb_inv (lb, guards) \<Longrightarrow> lb_select service lb = (r, lb') \<Longrightarrow>
   lb_inv (lb', guards) \<and> (case r of None \<Rightarrow> True | Some i \<Rightarrow> i < length (store lb'))"
proof -
  assume inv: "lb_inv (lb, guards)" and sel: "lb_select service lb = (r, lb')"
  show ?thesis
  proof (cases "hm_get (groups lb) service")
    case None
    with sel inv show ?thesis by (auto simp: lb_select_def)
  next
    case (Some g)
    obtain g' where g': "group_select lb g = (r, g')" "lb' = lb\<lparr>groups := hm_insert service g' (groups lb)\<rparr>"
      using sel Some by (auto simp: lb_select_def split: prod.splits)
    have bs: "grp_backends g' = grp_backends g"
      using g'(1) by (auto simp: group_select_def select_round_robin_def Let_def split: if_splits lb_strategy.splits)
    have b: "ids_below (length (store lb)) (groups lb)" using inv by (simp add: lb_inv_def)
    note lt = ids_below_get [OF b Some]
    have "ids_below (length (store lb)) (hm_insert service g' (groups lb))"
      by (rule ids_below_insert [OF b order_refl]) (simp add: bs lt)
    moreover have "case r of None \<Rightarrow> True | Some i \<Rightarrow> i < length (store lb)"
      using group_select_member [of lb g] g'(1) lt by (auto split: option.splits)
    ultimately show ?thesis using inv by (simp add: lb_inv_def g'(2) split: option.splits)
  qed
qed

lemma lb_inv_group:
  assumes "lb_inv (lb, guards)" and "\<And>i. i \<in> set (grp_backends g) \<Longrightarrow> i < length (store lb) + length new"
  shows "lb_inv (lb\<lparr>store := store lb @ map backend_new new, groups := hm_insert service g (groups lb)\<rparr>, guards)"
  using assms counted_append_new [of "store lb" guards new]
    ids_below_insert [of "length (store lb)" "groups lb" "length (store lb) + length new" g service]
  by (simp add: lb_inv_def)

lemma lb_inv_step: "lb_step u u' \<Longrightarrow> lb_inv u \<Longrightarrow> lb_inv u'"
proof (induction rule: lb_step.induct)
  case (step_open service lb i lb' guards)
  then show ?case
    using lb_inv_select [of lb guards service "Some i" lb'] counted_track [of "store lb'" guards i]
    by (simp add: lb_inv_def track_connection_def on_backend_def)
next
  case (step_refuse service lb lb' guards)
  then show ?case using lb_inv_select [of lb guards service None lb'] by simp
next
  case (step_close i guards lb)
  then have "i < length (store lb)" by (simp add: lb_inv_def counted_def)
  with step_close show ?case
    using counted_drop [of "store lb" guards i] by (simp add: lb_inv_def guard_drop_def on_backend_def)
next
  case (step_register lb guards service addrs strategy)
  then show ?case unfolding lb_register_def Let_def by (intro lb_inv_group) simp_all
next
  case (step_unregister lb guards service)
  then show ?case by (simp add: lb_inv_def lb_unregister_def ids_below_remove)
next
  case (step_update lb guards service addrs)
  show ?case
  proof (cases "hm_get (groups lb) service")
    case (Some g)
    obtain "is" st' where r: "reuse_backends (grp_backends g) addrs (store lb) = (is, st')" by fastforce
    have "\<forall>i \<in> set (grp_backends g). i < length (store lb)"
      using step_update ids_below_get [OF _ Some, of "length (store lb)"] by (simp add: lb_inv_def)
    from reuse_backends_spec [OF r this] obtain new where new: "st' = store lb @ map backend_new new"
      and lt: "\<forall>i \<in> set is. i < length st'" by blast
    have "lb_update_backends service addrs lb =
        lb\<lparr>store := store lb @ map backend_new new, groups := hm_insert service (g\<lparr>grp_backends := is\<rparr>) (groups lb)\<rparr>"
      using Some r by (simp add: lb_update_backends_def group_update_backends_def new)
    with lb_inv_group [OF step_update, of "g\<lparr>grp_backends := is\<rparr>" new service] lt show ?thesis
      by (simp add: new)
  qed (simp add: step_update lb_update_backends_def)
next
  case (step_add lb guards service addr)
  show ?case
  proof (cases "hm_get (groups lb) service")
    case (Some g)
    have lt: "i < length (store lb)" if "i \<in> set (grp_backends g)" for i
      by (rule ids_below_get [OF _ Some that]) (use step_add in \<open>simp add: lb_inv_def\<close>)
    have "lb_inv (lb\<lparr>store := store lb @ map backend_new new, groups := hm_insert service g' (groups lb)\<rparr>, guards)"
      if "set (grp_backends g') \<subseteq> set (grp_backends g) \<union> {length (store lb) ..< length (store lb) + length new}" for g' new
      by (rule lb_inv_group [OF step_add]) (use that lt in force)
    from this [of "g\<lparr>grp_backends := grp_backends g @ [length (store lb)]\<rparr>" "[addr]"] this [of g "[]"] show ?thesis
      by (simp add: lb_add_backend_def Some group_add_backend_def)
  qed (simp add: step_add lb_add_backend_def)
next
  case (step_remove lb guards service addr)
  show ?case
  proof (cases "hm_get (groups lb) service")
    case (Some g)
    have "i < length (store lb)" if "i \<in> set (grp_backends g)" for i
      by (rule ids_below_get [OF _ Some that]) (use step_remove in \<open>simp add: lb_inv_def\<close>)
    with lb_inv_group [OF step_remove, of "group_remove_backend addr g (store lb)" "[]" service] show ?thesis
      by (simp add: lb_remove_backend_def Some group_remove_backend_def)
  qed (simp add: step_remove lb_remove_backend_def)
next
  case (step_mark lb guards service addr healthy)
  with same_load_mark [of lb service addr healthy] show ?case by (auto simp: same_load_def intro: lb_inv_frame)
next
  case (step_sweep lb guards up)
  with same_load_sweep [of lb up] show ?case by (auto simp: same_load_def intro: lb_inv_frame)
qed

lemma lb_inv_reaches: "lb_reaches u u' \<Longrightarrow> lb_inv u \<Longrightarrow> lb_inv u'"
  by (induction rule: rtranclp_induct) (auto dest: lb_inv_step)

lemma lb_inv_new: "lb_inv (lb_new, [])"
  by (simp add: lb_inv_def lb_new_def ids_below_def counted_def)

text \<open>
  C15. Connection counts are exact: however registrations, backend changes, selections, health updates and
  the opening and closing of connections interleave, every backend's counter is the number of its live
  guards (modulo the counter's width), so a live guard never finds the counter at zero and a backend
  without guards counts zero, also after it left its group.
\<close>

theorem connections_counted:
  assumes "lb_reaches (lb_new, []) (lb, guards)" and "length guards < 2 ^ 64"
  shows "(\<forall>i \<in> set guards. i < length (store lb) \<and> be_active (store lb ! i) \<noteq> 0) \<and>
    (\<forall>i < length (store lb). unat (be_active (store lb ! i)) = count_list guards i)"
proof -
  have c: "counted (store lb) guards" using lb_inv_reaches [OF assms(1) lb_inv_new] by (simp add: lb_inv_def)
  have eq: "unat (be_active (store lb ! i)) = count_list guards i" if "i < length (store lb)" for i
    using c that assms(2) order_le_less_trans [OF count_le_length [of guards i]]
    by (simp add: counted_def unat_of_nat)
  have "be_active (store lb ! i) \<noteq> 0" if "i \<in> set guards" for i
  proof
    assume "be_active (store lb ! i) = 0"
    with eq [of i] c that have "count_list guards i = 0" by (simp add: counted_def)
    with that show False by (simp add: count_list_0_iff)
  qed
  with eq c show ?thesis by (simp add: counted_def)
qed

theorem connections_counted_witness:
  "\<exists>lb. lb_reaches (lb_new, []) (lb, [0]) \<and> groups lb = [] \<and> unat (be_active (store lb ! 0)) = 1"
proof -
  let ?r = "lb_register ''web'' [peer 7] RoundRobin lb_new"
  have r: "?r = \<lparr> store = [backend_new (peer 7)],
     groups = [(''web'', \<lparr> grp_backends = [0], grp_strategy = RoundRobin, rr_counter = 0 \<rparr>)] \<rparr>"
    by (simp add: lb_register_def lb_new_def group_new_def Let_def)
  have s: "lb_select ''web'' ?r = (Some 0, ?r\<lparr>groups := [(''web'',
     \<lparr> grp_backends = [0], grp_strategy = RoundRobin, rr_counter = 1 \<rparr>)]\<rparr>)" (is "_ = (_, ?s)")
    unfolding r by (simp add: lb_select_def group_select_def select_round_robin_def is_healthy_def backend_new_def)
  let ?u = "lb_unregister ''web'' (track_connection 0 ?s)"
  have "lb_step (lb_new, []) (?r, [])" by (rule step_register)
  moreover have "lb_step (?r, []) (track_connection 0 ?s, [0])" using s by (rule step_open)
  moreover have "lb_step (track_connection 0 ?s, [0]) (?u, [0])" by (rule step_unregister)
  ultimately have reach: "lb_reaches (lb_new, []) (?u, [0])" by (rule converse_rtranclp_into_rtranclp [OF _ converse_rtranclp_into_rtranclp [OF _ r_into_rtranclp]])
  have u: "groups ?u = []" "0 < length (store ?u)"
    by (simp_all add: lb_unregister_def track_connection_def on_backend_def r)
  have "length [0] < (2 ^ 64 :: nat)" by simp
  note connections_counted [OF reach this, THEN conjunct2, rule_format, OF u(2)]
  then have "unat (be_active (store ?u ! 0)) = 1" by (simp only: count_list.simps) simp
  with reach u(1) show ?thesis by (intro exI conjI)
qed

section \<open>Changing the backends of a service\<close>

text \<open>
  Replacing the backends of a service preserves the state of the ones that stay: the group then lists
  the given addresses in the given order; an address the group already had keeps the very same backend,
  with its connections, health and failures; any other address gets a fresh backend; all other backends
  and the other services are untouched.
\<close>

theorem update_backends_keeps_state:
  assumes "lb_reaches (lb_new, []) (lb, guards)" and "hm_get (groups lb) service = Some g"
    and "lb' = lb_update_backends service addrs lb"
  shows "\<exists>is. hm_get (groups lb') service = Some (g\<lparr>grp_backends := is\<rparr>) \<and>
    map (\<lambda>i. be_addr (store lb' ! i)) is = addrs \<and>
    (\<forall>k < length addrs. case find (\<lambda>j. be_addr (store lb ! j) = addrs ! k) (grp_backends g) of
        Some j \<Rightarrow> is ! k = j
      | None \<Rightarrow> length (store lb) \<le> is ! k \<and> store lb' ! (is ! k) = backend_new (addrs ! k)) \<and>
    take (length (store lb)) (store lb') = store lb \<and>
    (\<forall>s. s \<noteq> service \<longrightarrow> hm_get (groups lb') s = hm_get (groups lb) s)"
proof -
  obtain "is" st' where r: "reuse_backends (grp_backends g) addrs (store lb) = (is, st')" by fastforce
  have "\<forall>i \<in> set (grp_backends g). i < length (store lb)"
    using lb_inv_reaches [OF assms(1) lb_inv_new] ids_below_get [OF _ assms(2), of "length (store lb)"]
    by (simp add: lb_inv_def)
  from reuse_backends_spec [OF r this] obtain new where new: "st' = store lb @ map backend_new new"
    and addrs: "map (\<lambda>i. be_addr (st' ! i)) is = addrs"
    and each: "list_all2 (\<lambda>addr i. case find (\<lambda>j. be_addr (store lb ! j) = addr) (grp_backends g) of
       Some j \<Rightarrow> i = j | None \<Rightarrow> length (store lb) \<le> i \<and> st' ! i = backend_new addr) addrs is" by blast
  have lb': "lb' = lb\<lparr>store := st', groups := hm_insert service (g\<lparr>grp_backends := is\<rparr>) (groups lb)\<rparr>"
    using assms(2,3) r by (simp add: lb_update_backends_def group_update_backends_def)
  have st: "store lb' = st'" "take (length (store lb)) st' = store lb" by (simp_all add: lb' new)
  from addrs st(2) list_all2_nthD [OF each] show ?thesis
    unfolding st(1) by (intro exI [of _ "is"]) (simp add: lb')
qed

theorem update_backends_keeps_state_witness:
  "\<exists>is. hm_get (groups (lb_update_backends ''web'' [peer 9, peer 2] sample_lb)) ''web'' =
     Some \<lparr> grp_backends = is, grp_strategy = LeastConnections, rr_counter = 0 \<rparr> \<and> 3 \<le> is ! 0 \<and> is ! 1 = 1"
proof -
  have reach: "lb_reaches (lb_new, []) (sample_lb, [])" unfolding sample_lb_def by (rule r_into_rtranclp, rule step_register)
  have get: "hm_get (groups sample_lb) ''web'' = Some \<lparr> grp_backends = [0, 1, 2], grp_strategy = LeastConnections, rr_counter = 0 \<rparr>"
    by (simp add: sample_lb_eq)
  have find: "find (\<lambda>j. be_addr (store sample_lb ! j) = peer 9) [0, 1, 2] = None"
    "find (\<lambda>j. be_addr (store sample_lb ! j) = peer 2) [0, 1, 2] = Some 1" "length (store sample_lb) = 3"
    by (simp_all add: sample_lb_eq backend_new_def peer_def)
  let ?lb' = "lb_update_backends ''web'' [peer 9, peer 2] sample_lb"
  from update_backends_keeps_state [OF reach get refl, of "[peer 9, peer 2]"] obtain "is" where
    new: "hm_get (groups ?lb') ''web'' =
       Some \<lparr> grp_backends = is, grp_strategy = LeastConnections, rr_counter = 0 \<rparr>"
    and each: "\<forall>k < length [peer 9, peer 2]. case find (\<lambda>j. be_addr (store sample_lb ! j) = [peer 9, peer 2] ! k) [0, 1, 2] of
        Some j \<Rightarrow> is ! k = j | None \<Rightarrow> length (store sample_lb) \<le> is ! k \<and> store ?lb' ! (is ! k) = backend_new ([peer 9, peer 2] ! k)"
    by (elim exE conjE) simp
  have "3 \<le> is ! 0" using each [rule_format, of 0] find(1,3) by simp
  moreover have "is ! 1 = 1" using each [rule_format, of 1] find(2) by simp
  ultimately show ?thesis using new by blast
qed

section \<open>Health\<close>

definition trailing_failures :: "bool list \<Rightarrow> nat" where
  "trailing_failures oks = length (takeWhile Not (rev oks))"

lemma trailing_failures_snoc [simp]:
  "trailing_failures [] = 0" "trailing_failures (oks @ [ok]) = (if ok then 0 else Suc (trailing_failures oks))"
  by (simp_all add: trailing_failures_def)

lemma trailing_failures_le: "trailing_failures oks \<le> length oks"
  using length_takeWhile_le [of Not "rev oks"] by (simp add: trailing_failures_def)

lemma health_probe_at:
  assumes "i < length (store lb)"
  shows "store (health_probe ok i lb) ! i =
    (let b = store lb ! i in
     if ok then b\<lparr>be_health := LbHealthy, be_failures := 0\<rparr>
     else b\<lparr>be_failures := be_failures b + 1,
            be_health := if be_failures b + 1 \<ge> UNHEALTHY_THRESHOLD then LbUnhealthy else be_health b\<rparr>)"
    and "length (store (health_probe ok i lb)) = length (store lb)"
  using assms
  by (simp_all add: health_probe_def set_healthy_def reset_failures_def record_failure_def set_unhealthy_def on_backend_def Let_def)

text \<open>
  A backend goes out of rotation after three failed probes in a row and comes back with the first
  successful one: after any sequence of probes of a fresh backend it is unhealthy exactly when the last
  three or more of them failed, its failure counter is the number of failures since the last success,
  and its connection count is what it was.
\<close>

theorem health_follows_probes:
  assumes "i < length (store lb)" and "is_healthy lb i" and "be_failures (store lb ! i) = 0" and "length oks < 2 ^ 64"
    and "lb' = fold (\<lambda>ok. health_probe ok i) oks lb"
  shows "(is_healthy lb' i \<longleftrightarrow> trailing_failures oks < 3) \<and>
    unat (be_failures (store lb' ! i)) = trailing_failures oks \<and>
    be_active (store lb' ! i) = be_active (store lb ! i)"
proof -
  have "length (store (fold (\<lambda>ok. health_probe ok i) oks lb)) = length (store lb) \<and>
    (is_healthy (fold (\<lambda>ok. health_probe ok i) oks lb) i \<longleftrightarrow> trailing_failures oks < 3) \<and>
    unat (be_failures (store (fold (\<lambda>ok. health_probe ok i) oks lb) ! i)) = trailing_failures oks \<and>
    be_active (store (fold (\<lambda>ok. health_probe ok i) oks lb) ! i) = be_active (store lb ! i)"
    using assms(4)
  proof (induction oks rule: rev_induct)
    case Nil
    then show ?case using assms(1-3) by simp
  next
    case (snoc ok oks)
    let ?lb = "fold (\<lambda>ok. health_probe ok i) oks lb"
    have IH: "length (store ?lb) = length (store lb)" "is_healthy ?lb i \<longleftrightarrow> trailing_failures oks < 3"
      "unat (be_failures (store ?lb ! i)) = trailing_failures oks"
      "be_active (store ?lb ! i) = be_active (store lb ! i)" using snoc by simp_all
    have n: "trailing_failures oks + 1 < 2 ^ 64" using snoc.prems trailing_failures_le [of oks] by simp
    have c: "unat (be_failures (store ?lb ! i) + 1) = trailing_failures oks + 1"
      using IH(3) n by (simp add: unat_word_ariths)
    have t: "UNHEALTHY_THRESHOLD \<le> be_failures (store ?lb ! i) + 1 \<longleftrightarrow> 3 \<le> trailing_failures oks + 1"
      unfolding word_le_nat_alt c UNHEALTHY_THRESHOLD_def by simp
    note at = health_probe_at [of i ?lb ok, unfolded IH(1), OF assms(1)]
    show ?case
    proof (cases ok)
      case True
      with at IH show ?thesis by (simp add: Let_def is_healthy_def)
    next
      case False
      with at IH t c show ?thesis by (auto simp: Let_def is_healthy_def)
    qed
  qed
  then show ?thesis unfolding assms(5) by simp
qed

theorem health_follows_probes_witness:
  "\<not> is_healthy (fold (\<lambda>ok. health_probe ok 1) [True, False, False, False] sample_lb) 1"
proof -
  have "1 < length (store sample_lb)" "is_healthy sample_lb 1" "be_failures (store sample_lb ! 1) = 0"
    by (simp_all add: sample_lb_eq is_healthy_def backend_new_def)
  from health_follows_probes [OF this _ refl, of "[True, False, False, False]"] show ?thesis
    by (simp add: trailing_failures_def del: fold_simps)
qed

end
