(* ===== verification/Ip_Text.thy ===== *)
theory Ip_Text
  imports Prelude
begin

text \<open>
  Texts of IP addresses as the standard library reads and writes them, for the parts of the program that take
  addresses from texts or put them into headers: dotted IPv4 addresses without leading zeros, IPv6 addresses
  with one run of zero groups left out and an IPv4 address at the end, and the compressed form written back.
\<close>

unbundle bit_operations_syntax

section \<open>Reading addresses\<close>

text \<open>
  The parser of the standard library reads from the front of a text: each reader gives the value and the rest, and nothing
  when it does not apply. \<open>read_number\<close> takes all digits at the front and fails when they are too many, out of range or, where
  that is not allowed, start with a zero.
\<close>

definition hex_val :: "char \<Rightarrow> nat option" where
  "hex_val c =
     (let n = of_char c :: nat in
      if 48 \<le> n \<and> n \<le> 57 then Some (n - 48)
      else if 97 \<le> n \<and> n \<le> 102 then Some (n - 87)
      else if 65 \<le> n \<and> n \<le> 70 then Some (n - 55)
      else None)"

definition digit_of :: "nat \<Rightarrow> char \<Rightarrow> nat option" where
  "digit_of radix c = (case hex_val c of Some d \<Rightarrow> if d < radix then Some d else None | None \<Rightarrow> None)"

definition read_number :: "nat \<Rightarrow> nat \<Rightarrow> bool \<Rightarrow> nat \<Rightarrow> string \<Rightarrow> (nat \<times> string) option" where
  "read_number radix max_digits zero_prefix bound s =
     (let ds = takeWhile (\<lambda>c. digit_of radix c \<noteq> None) s;
          n = foldl (\<lambda>acc c. radix * acc + the (digit_of radix c)) 0 ds in
      if ds = [] \<or> length ds > max_digits \<or> n \<ge> bound \<or> \<not> zero_prefix \<and> hd ds = CHR ''0'' \<and> length ds > 1 then None
      else Some (n, drop (length ds) s))"

definition read_char :: "char \<Rightarrow> string \<Rightarrow> string option" where
  "read_char c s = (case s of d # t \<Rightarrow> if d = c then Some t else None | [] \<Rightarrow> None)"

definition read_octet :: "string \<Rightarrow> (nat \<times> string) option" where
  "read_octet s = read_number 10 3 False 256 s"

definition read_ipv4 :: "string \<Rightarrow> (u32 \<times> string) option" where
  "read_ipv4 s0 =
     Option.bind (read_octet s0) (\<lambda>(a, s1). Option.bind (read_char CHR ''.'' s1) (\<lambda>s1.
     Option.bind (read_octet s1) (\<lambda>(b, s2). Option.bind (read_char CHR ''.'' s2) (\<lambda>s2.
     Option.bind (read_octet s2) (\<lambda>(c, s3). Option.bind (read_char CHR ''.'' s3) (\<lambda>s3.
     Option.bind (read_octet s3) (\<lambda>(d, s4). Some (push_bit 24 (word_of_nat a) OR push_bit 16 (word_of_nat b) OR push_bit 8 (word_of_nat c) OR word_of_nat d, s4))))))))"

definition read_sep :: "nat \<Rightarrow> (string \<Rightarrow> ('a \<times> string) option) \<Rightarrow> string \<Rightarrow> ('a \<times> string) option" where
  "read_sep i f s = (if i > 0 then Option.bind (read_char CHR '':'' s) f else f s)"

text \<open>At most \<open>n\<close> groups from place \<open>i\<close> on, the text left, and whether the last two were an embedded IPv4 address.\<close>

fun read_groups :: "nat \<Rightarrow> nat \<Rightarrow> string \<Rightarrow> u16 list \<times> string \<times> bool" where
  "read_groups 0 i s = ([], s, False)"
| "read_groups (Suc n) i s =
     (case (if n > 0 then read_sep i read_ipv4 s else None) of
        Some (v4, t) \<Rightarrow> ([ucast (drop_bit 16 v4), ucast v4], t, True)
      | None \<Rightarrow>
          (case read_sep i (read_number 16 4 True 65536) s of
             Some (g, t) \<Rightarrow> (case read_groups n (Suc i) t of (gs, t', v4) \<Rightarrow> (word_of_nat g # gs, t', v4))
           | None \<Rightarrow> ([], s, False)))"

definition join_groups :: "u16 list \<Rightarrow> u128" where
  "join_groups gs = foldl (\<lambda>acc g. push_bit 16 acc OR ucast g) 0 gs"

definition read_ipv6 :: "string \<Rightarrow> (u128 \<times> string) option" where
  "read_ipv6 s =
     (case read_groups 8 0 s of
        (hs, t, v4) \<Rightarrow>
          if length hs = 8 then Some (join_groups hs, t)
          else if v4 then None
          else Option.bind (read_char CHR '':'' t) (\<lambda>t. Option.bind (read_char CHR '':'' t) (\<lambda>t.
            case read_groups (7 - length hs) 0 t of
              (ts, t', _) \<Rightarrow> Some (join_groups (hs @ replicate (8 - length hs - length ts) 0 @ ts), t'))))"

definition parse_ip :: "string \<Rightarrow> ip_addr option" where
  "parse_ip s =
     (case read_ipv4 s of
        Some (a, rest) \<Rightarrow> if rest = [] then Some (IpV4 a) else None
      | None \<Rightarrow> (case read_ipv6 s of Some (a, rest) \<Rightarrow> if rest = [] then Some (IpV6 a) else None | None \<Rightarrow> None))"

section \<open>Writing addresses\<close>

definition hex_char :: "nat \<Rightarrow> char" where
  "hex_char d = (if d < 10 then char_of (48 + d) else char_of (87 + d))"

function show_hex :: "nat \<Rightarrow> string" where
  "show_hex n = (if n < 16 then [hex_char n] else show_hex (n div 16) @ [hex_char (n mod 16)])"
  by pat_completeness auto
termination by (relation "measure id") auto

declare show_hex.simps [simp del]

definition show_ipv4 :: "u32 \<Rightarrow> string" where
  "show_ipv4 a =
     show_nat (unat (drop_bit 24 a)) @ ''.'' @ show_nat (unat (take_bit 8 (drop_bit 16 a))) @ ''.'' @
     show_nat (unat (take_bit 8 (drop_bit 8 a))) @ ''.'' @ show_nat (unat (take_bit 8 a))"

definition ip_segments :: "u128 \<Rightarrow> u16 list" where
  "ip_segments a = map (\<lambda>i. ucast (drop_bit (112 - 16 * i) a)) [0..<8]"

definition show_groups :: "u16 list \<Rightarrow> string" where
  "show_groups gs = join_strings '':'' (map (\<lambda>g. show_hex (unat g)) gs)"

text \<open>The first longest run of zero groups, as its start and length.\<close>

definition zero_run_at :: "u16 list \<Rightarrow> nat \<Rightarrow> nat" where
  "zero_run_at gs i = length (takeWhile (\<lambda>g. g = 0) (drop i gs))"

definition longest_zero_run :: "u16 list \<Rightarrow> nat \<times> nat" where
  "longest_zero_run gs =
     fold (\<lambda>i (b, l). if zero_run_at gs i > l then (i, zero_run_at gs i) else (b, l)) [0..<length gs] (0, 0)"

definition show_ipv6 :: "u128 \<Rightarrow> string" where
  "show_ipv6 a =
     (let gs = ip_segments a in
      if take 6 gs = [0, 0, 0, 0, 0, 0xFFFF] then ''::ffff:'' @ show_ipv4 (ucast a)
      else case longest_zero_run gs of (b, l) \<Rightarrow>
        if l > 1 then show_groups (take b gs) @ ''::'' @ show_groups (drop (b + l) gs)
        else show_groups gs)"

fun show_ip :: "ip_addr \<Rightarrow> string" where
  "show_ip (IpV4 a) = show_ipv4 a"
| "show_ip (IpV6 a) = show_ipv6 a"

end
