(* ===== verification/Network_Policy.thy ===== *)
theory Network_Policy
  imports Ip_Text
begin

text \<open>
  The access control of the proxy, \<open>crates/zlayer-proxy/src/network_policy.rs\<close>, over the network policies of
  \<open>crates/zlayer-types/src/spec/types.rs\<close>. The lock around the policies is not modelled: one check reads one list.
\<close>

unbundle bit_operations_syntax

section \<open>Policies\<close>

datatype access_action = AccessAllow | AccessDeny

record access_rule =
  ar_service :: string
  ar_deployment :: string
  ar_ports :: "u16 list option"
  ar_action :: access_action

datatype member_kind = MemberUser | MemberGroup | MemberNode | MemberCidr

record network_member =
  nm_name :: string
  nm_kind :: member_kind

record network_policy =
  np_name :: string
  np_description :: "string option"
  np_cidrs :: "string list"
  np_members :: "network_member list"
  np_access_rules :: "access_rule list"

section \<open>Address ranges\<close>

definition checked_shl :: "'a::len word \<Rightarrow> nat \<Rightarrow> 'a word option" where
  "checked_shl w n = (if n < LENGTH('a) then Some (push_bit n w) else None)"

definition prefix_mask :: "nat \<Rightarrow> 'a::len word" where
  "prefix_mask p = (case checked_shl (- 1) (LENGTH('a) - p) of Some m \<Rightarrow> m | None \<Rightarrow> 0)"

fun policy_cidr_contains :: "ip_addr \<Rightarrow> u32 \<Rightarrow> ip_addr \<Rightarrow> bool" where
  "policy_cidr_contains (IpV4 net) prefix_len (IpV4 ip) =
     (let prefix_len = min (unat prefix_len) 32 in
      if prefix_len = 0 then True
      else (net AND prefix_mask prefix_len) = (ip AND prefix_mask prefix_len))"
| "policy_cidr_contains (IpV6 net) prefix_len (IpV6 ip) =
     (let prefix_len = min (unat prefix_len) 128 in
      if prefix_len = 0 then True
      else (net AND prefix_mask prefix_len) = (ip AND prefix_mask prefix_len))"
| "policy_cidr_contains _ prefix_len _ = False"

fun ip_in_cidrs :: "ip_addr \<Rightarrow> string list \<Rightarrow> bool" where
  "ip_in_cidrs ip [] = False"
| "ip_in_cidrs ip (cidr_str # cidrs) =
     (case split_once ''/'' cidr_str of
        Some (net_str, prefix_str) \<Rightarrow>
          (case parse_ip net_str of
             None \<Rightarrow> ip_in_cidrs ip cidrs
           | Some net_addr \<Rightarrow>
               (case parse_uint prefix_str of
                  None \<Rightarrow> ip_in_cidrs ip cidrs
                | Some prefix_len \<Rightarrow>
                    if policy_cidr_contains net_addr prefix_len ip then True else ip_in_cidrs ip cidrs))
      | None \<Rightarrow> ip_in_cidrs ip cidrs)"

section \<open>Access\<close>

definition rule_matches :: "access_rule \<Rightarrow> string \<Rightarrow> string \<Rightarrow> u16 \<Rightarrow> bool" where
  "rule_matches rule service deployment port =
     (let service_match = (ar_service rule = ''*'' \<or> ar_service rule = service);
          deployment_match = (ar_deployment rule = ''*'' \<or> ar_deployment rule = deployment);
          port_match = (case ar_ports rule of None \<Rightarrow> True | Some ports \<Rightarrow> port \<in> set ports)
      in service_match \<and> deployment_match \<and> port_match)"

text \<open>The two nested loops over the rules of the matching networks: whether one of them returns.\<close>

definition any_rule :: "access_action \<Rightarrow> network_policy list \<Rightarrow> string \<Rightarrow> string \<Rightarrow> u16 \<Rightarrow> bool" where
  "any_rule action networks service deployment port =
     list_ex (\<lambda>network. list_ex (\<lambda>rule. rule_matches rule service deployment port \<and> ar_action rule = action)
       (np_access_rules network)) networks"

definition check_access :: "network_policy list \<Rightarrow> ip_addr \<Rightarrow> string \<Rightarrow> string \<Rightarrow> u16 \<Rightarrow> bool" where
  "check_access policies source_ip service deployment port =
     (let matching_networks = filter (\<lambda>p. ip_in_cidrs source_ip (np_cidrs p)) policies in
      if matching_networks = [] then True
      else if any_rule AccessDeny matching_networks service deployment port then False
      else if any_rule AccessAllow matching_networks service deployment port then True
      else False)"

section \<open>Ranges by their leading bits\<close>

lemma and_prefix_mask:
  fixes a b :: "'a::len word"
  assumes "0 < p" "p \<le> LENGTH('a)"
  shows "a AND prefix_mask p = b AND prefix_mask p \<longleftrightarrow> drop_bit (LENGTH('a) - p) a = drop_bit (LENGTH('a) - p) b"
proof -
  let ?n = "LENGTH('a) - p"
  have m: "prefix_mask p = (push_bit ?n (- 1) :: 'a word)" using assms by (simp add: prefix_mask_def checked_shl_def)
  have e: "c AND push_bit ?n (- 1) = push_bit ?n (drop_bit ?n c)" for c :: "'a word"
    by (rule bit_word_eqI) (auto simp: bit_and_iff bit_push_bit_iff bit_drop_bit_eq bit_not_iff bit_mask_iff)
  have "drop_bit ?n (push_bit ?n (drop_bit ?n c)) = drop_bit ?n c" for c :: "'a word"
    by (rule bit_word_eqI) (auto simp: bit_push_bit_iff bit_drop_bit_eq bit_simps dest: bit_imp_le_length)
  then show ?thesis unfolding m e by metis
qed

text \<open>A range as the set of its leading bits: the same family, and the first \<open>prefix_len\<close> bits agree.\<close>

fun in_range :: "ip_addr \<Rightarrow> nat \<Rightarrow> ip_addr \<Rightarrow> bool" where
  "in_range (IpV4 net) p (IpV4 ip) \<longleftrightarrow> drop_bit (32 - min p 32) net = drop_bit (32 - min p 32) ip"
| "in_range (IpV6 net) p (IpV6 ip) \<longleftrightarrow> drop_bit (128 - min p 128) net = drop_bit (128 - min p 128) ip"
| "in_range _ p _ \<longleftrightarrow> False"

lemma drop_all_bits [simp]: "LENGTH('a::len) \<le> n \<Longrightarrow> drop_bit n (w :: 'a word) = 0"
  by (rule bit_word_eqI) (auto simp: bit_drop_bit_eq dest: bit_imp_le_length)

lemma policy_cidr_contains_iff: "policy_cidr_contains net p ip \<longleftrightarrow> in_range net (unat p) ip"
proof (cases "(net, p, ip)" rule: policy_cidr_contains.cases)
  case (1 n q i)
  then show ?thesis using and_prefix_mask [of "min (unat q) 32" n i] by (simp add: Let_def)
next
  case (2 n q i)
  then show ?thesis using and_prefix_mask [of "min (unat q) 128" n i] by (simp add: Let_def)
qed simp_all

text \<open>The ranges of a list of texts: the entries that are an address and a length.\<close>

definition cidr_ranges :: "string list \<Rightarrow> (ip_addr \<times> u32) list" where
  "cidr_ranges cidrs =
     [(net, p). s \<leftarrow> cidrs, (n, q) \<leftarrow> (case split_once ''/'' s of Some x \<Rightarrow> [x] | None \<Rightarrow> []),
        net \<leftarrow> (case parse_ip n of Some x \<Rightarrow> [x] | None \<Rightarrow> []), p \<leftarrow> (case parse_uint q of Some x \<Rightarrow> [x] | None \<Rightarrow> [])]"

lemma ip_in_cidrs_iff: "ip_in_cidrs ip cidrs \<longleftrightarrow> (\<exists>(net, p) \<in> set (cidr_ranges cidrs). in_range net (unat p) ip)"
  by (induction cidrs) (auto simp: cidr_ranges_def policy_cidr_contains_iff split: option.splits)

text \<open>The networks a source belongs to, and the rules of those networks that name a target.\<close>

definition governed :: "network_policy list \<Rightarrow> ip_addr \<Rightarrow> network_policy set" where
  "governed policies ip = {p \<in> set policies. \<exists>(net, n) \<in> set (cidr_ranges (np_cidrs p)). in_range net (unat n) ip}"

definition ruled :: "access_action \<Rightarrow> network_policy set \<Rightarrow> string \<Rightarrow> string \<Rightarrow> u16 \<Rightarrow> bool" where
  "ruled action networks service deployment port \<longleftrightarrow>
     (\<exists>n \<in> networks. \<exists>r \<in> set (np_access_rules n). ar_action r = action \<and> ar_service r \<in> {''*'', service} \<and>
        ar_deployment r \<in> {''*'', deployment} \<and> (\<forall>ports. ar_ports r = Some ports \<longrightarrow> port \<in> set ports))"


lemma any_rule_iff: "any_rule action networks service deployment port \<longleftrightarrow> ruled action (set networks) service deployment port"
  by (auto simp: any_rule_def ruled_def rule_matches_def Bex_set [symmetric] split: option.splits)

text \<open>
  C13. The access decision, as the specification of the checker has it: a source that belongs to no network is let
  through; otherwise it is let through exactly when some rule of one of its networks allows the target and
  none denies it. A source belongs to a network when its leading bits are those of one of the network's ranges;
  entries that are not an address, a slash and a length count for nothing.
\<close>

theorem check_access_exact:
  "check_access policies ip service deployment port \<longleftrightarrow>
     (let networks = governed policies ip in
      networks = {} \<or> ruled AccessAllow networks service deployment port \<and> \<not> ruled AccessDeny networks service deployment port)"
proof -
  have "set (filter (\<lambda>p. ip_in_cidrs ip (np_cidrs p)) policies) = governed policies ip"
    by (simp add: governed_def ip_in_cidrs_iff)
  moreover have "filter (\<lambda>p. ip_in_cidrs ip (np_cidrs p)) policies = [] \<longleftrightarrow> governed policies ip = {}"
    unfolding calculation [symmetric] by (simp only: set_empty)
  ultimately show ?thesis by (simp add: check_access_def any_rule_iff Let_def)
qed

end
