(* ===== verification/Proxy_Request.thy ===== *)
theory Proxy_Request
  imports Routes Load_Balancer Network_Policy
begin

text \<open>
  The request path of the reverse proxy, \<open>crates/zlayer-proxy/src/service.rs\<close>, with the predicates it takes from
  \<open>tunnel.rs\<close>, \<open>trust.rs\<close> and \<open>cf_ip_list.rs\<close>, its header options from \<open>config.rs\<close> and its errors from \<open>error.rs\<close>: from the
  request of a client over the route table, the access checks and the load balancer to the request a backend gets
  and the response the client gets. Bodies are not modelled, and the bytes of an upgraded connection are not.
\<close>

unbundle bit_operations_syntax

section \<open>Requests and responses\<close>

text \<open>
  A header map is the list of its entries, names in lower case, as the \<open>http\<close> crate presents it: \<open>get\<close> gives the first value
  of a name, \<open>insert\<close> leaves a name with one value, \<open>remove\<close> drops all values of a name. A value reads as a text when its bytes
  are visible ASCII or tabs, and a text is a value unless it has control characters.
\<close>

type_synonym headers = "(string \<times> string) list"

definition hdr_get :: "headers \<Rightarrow> string \<Rightarrow> string option" where
  "hdr_get hs n = map_of hs n"

definition hdr_insert :: "string \<Rightarrow> string \<Rightarrow> headers \<Rightarrow> headers" where
  "hdr_insert n v hs = filter (\<lambda>(m, _). m \<noteq> n) hs @ [(n, v)]"

definition hdr_remove :: "string \<Rightarrow> headers \<Rightarrow> headers" where
  "hdr_remove n hs = filter (\<lambda>(m, _). m \<noteq> n) hs"

definition value_to_str :: "string \<Rightarrow> string option" where
  "value_to_str v = (if list_all (\<lambda>c. let b = of_char c :: nat in 32 \<le> b \<and> b < 127 \<or> b = 9) v then Some v else None)"

definition value_parse :: "string \<Rightarrow> string option" where
  "value_parse s = (if list_all (\<lambda>c. let b = of_char c :: nat in 32 \<le> b \<and> b \<noteq> 127 \<or> b = 9) s then Some s else None)"

definition hdr_text :: "headers \<Rightarrow> string \<Rightarrow> string option" where
  "hdr_text hs n = Option.bind (hdr_get hs n) value_to_str"

definition hdr_set :: "string \<Rightarrow> string \<Rightarrow> headers \<Rightarrow> headers" where
  "hdr_set n s hs = (case value_parse s of Some v \<Rightarrow> hdr_insert n v hs | None \<Rightarrow> hs)"

fun split_on :: "char \<Rightarrow> string \<Rightarrow> string list" where
  "split_on c [] = [[]]"
| "split_on c (d # s) = (if d = c then [] # split_on c s else (d # hd (split_on c s)) # tl (split_on c s))"

datatype http_version = HTTP_09 | HTTP_10 | HTTP_11 | HTTP_2 | HTTP_3

record px_request =
  rq_method :: string
  rq_uri_host :: "string option"
  rq_path :: string
  rq_query :: "string option"
  rq_version :: http_version
  rq_headers :: headers

record px_response =
  rs_status :: nat
  rs_headers :: headers
  rs_body :: string

section \<open>Errors\<close>

datatype proxy_error =
    BindFailed socket_addr string
  | BackendConnectionFailed socket_addr string
  | NoHealthyBackends string
  | BackendRequestFailed string
  | RouteNotFound string string
  | Forbidden string
  | InvalidRequest string
  | ProxyTls string
  | ProxyIo string
  | ProxyHyper string
  | ProxyTimeout nat
  | ProxyConfigError string
  | ProxyInternal string

fun proxy_status_code :: "proxy_error \<Rightarrow> nat" where
  "proxy_status_code (RouteNotFound _ _) = 404"
| "proxy_status_code (NoHealthyBackends _) = 503"
| "proxy_status_code (BackendConnectionFailed _ _) = 502"
| "proxy_status_code (BackendRequestFailed _) = 502"
| "proxy_status_code (Forbidden _) = 403"
| "proxy_status_code (InvalidRequest _) = 400"
| "proxy_status_code (ProxyTimeout _) = 504"
| "proxy_status_code _ = 500"

section \<open>Trusted proxies\<close>

text \<open>
  A network of the \<open>ipnet\<close> crate is a value of the type parameter \<open>'net\<close>, and what it contains an argument. The lock around
  the Cloudflare ranges is not modelled.
\<close>

record 'net trusted_proxies =
  tp_user_cidrs :: "'net list"
  tp_cf_cache :: "'net list option"

definition cf_contains :: "('net \<Rightarrow> ip_addr \<Rightarrow> bool) \<Rightarrow> 'net list \<Rightarrow> ip_addr \<Rightarrow> bool" where
  "cf_contains contains ranges ip = list_ex (\<lambda>net. contains net ip) ranges"

definition is_trusted :: "('net \<Rightarrow> ip_addr \<Rightarrow> bool) \<Rightarrow> 'net trusted_proxies \<Rightarrow> ip_addr \<Rightarrow> bool" where
  "is_trusted contains tp peer_ip =
     (if list_ex (\<lambda>net. contains net peer_ip) (tp_user_cidrs tp) then True
      else case tp_cf_cache tp of
             Some cache \<Rightarrow> if cf_contains contains cache peer_ip then True else False
           | None \<Rightarrow> False)"

section \<open>The service\<close>

record header_config =
  hc_x_forwarded_for :: bool
  hc_x_forwarded_proto :: bool
  hc_x_forwarded_host :: bool
  hc_x_real_ip :: bool
  hc_via :: bool
  hc_server_name :: string
  hc_hsts :: bool
  hc_hsts_max_age :: u64
  hc_hsts_subdomains :: bool

definition header_config_default :: header_config where
  "header_config_default =
     \<lparr> hc_x_forwarded_for = True, hc_x_forwarded_proto = True, hc_x_forwarded_host = True, hc_x_real_ip = True,
       hc_via = True, hc_server_name = ''zlayer-proxy'', hc_hsts = True, hc_hsts_max_age = 31536000,
       hc_hsts_subdomains = True \<rparr>"

text \<open>
  The service of one connection: the challenge responses of the certificate manager and the network policies are
  there when the server was built with them.
\<close>

record 'net px_service =
  px_registry :: service_registry
  px_headers :: header_config
  px_remote_addr :: "socket_addr option"
  px_is_tls :: bool
  px_cert_manager :: "(string \<Rightarrow> string option) option"
  px_policies :: "network_policy list option"
  px_trusted :: "'net trusted_proxies"

definition is_overlay_ip :: "ip_addr \<Rightarrow> bool" where
  "is_overlay_ip ip = (case ip of IpV4 v4 \<Rightarrow> drop_bit 24 v4 = 10 \<and> take_bit 8 (drop_bit 16 v4) = 200 | IpV6 _ \<Rightarrow> False)"

section \<open>Headers of the forwarded request\<close>

definition effective_client_ip ::
  "('net \<Rightarrow> ip_addr \<Rightarrow> bool) \<Rightarrow> 'net px_service \<Rightarrow> headers \<Rightarrow> ip_addr option" where
  "effective_client_ip contains svc hs =
     (let peer_is_trusted = (case px_remote_addr svc of Some addr \<Rightarrow> is_trusted contains (px_trusted svc) (fst addr) | None \<Rightarrow> False);
          peer_ip = map_option fst (px_remote_addr svc) in
      if peer_is_trusted then
        let cf_ip = Option.bind (hdr_text hs ''cf-connecting-ip'') (\<lambda>s. parse_ip (trim s));
            xff_leftmost = Option.bind (hdr_text hs ''x-forwarded-for'') (\<lambda>s. parse_ip (trim (hd (split_on CHR '','' s)))) in
        (case cf_ip of Some ip \<Rightarrow> Some ip | None \<Rightarrow> (case xff_leftmost of Some ip \<Rightarrow> Some ip | None \<Rightarrow> peer_ip))
      else peer_ip)"

definition forwarded_for ::
  "('net \<Rightarrow> ip_addr \<Rightarrow> bool) \<Rightarrow> 'net px_service \<Rightarrow> ip_addr option \<Rightarrow> headers \<Rightarrow> headers" where
  "forwarded_for contains svc client hs =
     (case px_remote_addr svc of
        None \<Rightarrow> hs
      | Some addr \<Rightarrow>
          let existing_xff = hdr_text hs ''x-forwarded-for'';
              new_value =
                if is_trusted contains (px_trusted svc) (fst addr) then
                  let real = show_ip (case client of Some ip \<Rightarrow> ip | None \<Rightarrow> fst addr) in
                  (case existing_xff of
                     Some chain \<Rightarrow> if trim chain \<noteq> [] then real @ '', '' @ chain else real
                   | None \<Rightarrow> real)
                else
                  (case existing_xff of
                     Some chain \<Rightarrow> chain @ '', '' @ show_ip (fst addr)
                   | None \<Rightarrow> show_ip (fst addr))
          in hdr_set ''x-forwarded-for'' new_value hs)"

definition forwarded_proto :: "'net px_service \<Rightarrow> headers \<Rightarrow> headers" where
  "forwarded_proto svc hs =
     (if hdr_get hs ''x-forwarded-proto'' = None
      then hdr_set ''x-forwarded-proto'' (if px_is_tls svc then ''https'' else ''http'') hs else hs)"

definition forwarded_host :: "headers \<Rightarrow> headers" where
  "forwarded_host hs =
     (case hdr_get hs ''host'' of
        Some host \<Rightarrow> if hdr_get hs ''x-forwarded-host'' = None then hdr_insert ''x-forwarded-host'' host hs else hs
      | None \<Rightarrow> hs)"

definition real_ip :: "ip_addr option \<Rightarrow> headers \<Rightarrow> headers" where
  "real_ip client hs =
     (case client of
        Some ip \<Rightarrow> if hdr_get hs ''x-real-ip'' = None then hdr_set ''x-real-ip'' (show_ip ip) hs else hs
      | None \<Rightarrow> hs)"

definition via_version :: "http_version \<Rightarrow> string" where
  "via_version v = (case v of HTTP_09 \<Rightarrow> ''0.9'' | HTTP_10 \<Rightarrow> ''1.0'' | HTTP_2 \<Rightarrow> ''2.0'' | HTTP_3 \<Rightarrow> ''3.0'' | _ \<Rightarrow> ''1.1'')"

definition via_header :: "http_version \<Rightarrow> string \<Rightarrow> headers \<Rightarrow> headers" where
  "via_header version server_name hs =
     (let via_value = via_version version @ '' '' @ server_name;
          existing = (case hdr_text hs ''via'' of Some s \<Rightarrow> s @ '', '' @ via_value | None \<Rightarrow> via_value)
      in hdr_set ''via'' existing hs)"

definition add_forwarding_headers ::
  "('net \<Rightarrow> ip_addr \<Rightarrow> bool) \<Rightarrow> 'net px_service \<Rightarrow> http_version \<Rightarrow> headers \<Rightarrow> headers" where
  "add_forwarding_headers contains svc version hs =
     (let config = px_headers svc;
          client = effective_client_ip contains svc hs;
          hs = (if hc_x_forwarded_for config then forwarded_for contains svc client hs else hs);
          hs = (if hc_x_forwarded_proto config then forwarded_proto svc hs else hs);
          hs = (if hc_x_forwarded_host config then forwarded_host hs else hs);
          hs = (if hc_x_real_ip config then real_ip client hs else hs)
      in if hc_via config then via_header version (hc_server_name config) hs else hs)"

definition HOP_BY_HOP :: "string list" where
  "HOP_BY_HOP = [''connection'', ''keep-alive'', ''proxy-authenticate'', ''proxy-authorization'', ''te'', ''trailer'',
     ''transfer-encoding'', ''upgrade'']"

text \<open>On the texts of header values, which are ASCII, \<open>to_lowercase\<close> is the lower-casing of single bytes.\<close>

definition ascii_lowercase :: "string \<Rightarrow> string" where
  "ascii_lowercase s = of_bytes (map ascii_lower (as_bytes s))"

definition connection_tokens :: "headers \<Rightarrow> string list" where
  "connection_tokens hs =
     (case hdr_text hs ''connection'' of
        Some v \<Rightarrow> map (\<lambda>s. ascii_lowercase (trim s)) (split_on CHR '','' v) | None \<Rightarrow> [])"

definition remove_hop_by_hop_headers :: "headers \<Rightarrow> headers" where
  "remove_hop_by_hop_headers hs =
     (let connection_headers = connection_tokens hs;
          hs = fold hdr_remove HOP_BY_HOP hs
      in fold hdr_remove connection_headers hs)"

section \<open>Upgrades\<close>

definition is_upgrade_request :: "headers \<Rightarrow> bool" where
  "is_upgrade_request hs =
     (case hdr_text hs ''connection'' of
        Some v \<Rightarrow> list_ex (\<lambda>t. eq_ignore_ascii_case (trim t) ''upgrade'') (split_on CHR '','' v) | None \<Rightarrow> False)"

definition WEBSOCKET_HEADERS :: "string list" where
  "WEBSOCKET_HEADERS =
     [''sec-websocket-key'', ''sec-websocket-version'', ''sec-websocket-protocol'', ''sec-websocket-extensions'']"

definition copy_header :: "headers \<Rightarrow> string \<Rightarrow> headers \<Rightarrow> headers" where
  "copy_header src n dst = (case hdr_get src n of Some v \<Rightarrow> hdr_insert n v dst | None \<Rightarrow> dst)"

definition copy_upgrade_headers :: "headers \<Rightarrow> headers \<Rightarrow> headers" where
  "copy_upgrade_headers src dst =
     fold (copy_header src) WEBSOCKET_HEADERS (copy_header src ''upgrade'' (copy_header src ''connection'' dst))"

section \<open>One request\<close>

text \<open>
  What the service uses and the sources do not hold: what a network contains, the parser of URIs (the error text of a
  text it refuses), the exchange with the backend, and the milliseconds the request took.
\<close>

record forwarded =
  fw_backend :: socket_addr
  fw_method :: string
  fw_uri :: string
  fw_headers :: headers
  fw_upgrade :: bool

record 'net px_env =
  pe_contains :: "'net \<Rightarrow> ip_addr \<Rightarrow> bool"
  pe_uri_error :: "string \<Rightarrow> string option"
  pe_exchange :: "forwarded \<Rightarrow> (px_response, proxy_error) result"
  pe_elapsed :: nat

definition show_socket_addr :: "socket_addr \<Rightarrow> string" where
  "show_socket_addr a =
     (case fst a of IpV4 _ \<Rightarrow> show_ip (fst a) | IpV6 _ \<Rightarrow> ''['' @ show_ip (fst a) @ '']'') @ '':'' @ show_word (snd a)"

definition px_host :: "px_request \<Rightarrow> string option" where
  "px_host req = (case hdr_text (rq_headers req) ''host'' of Some h \<Rightarrow> Some h | None \<Rightarrow> rq_uri_host req)"

definition acme_response :: "'net px_service \<Rightarrow> string \<Rightarrow> px_response option" where
  "acme_response svc path =
     (case strip_prefix path ''/.well-known/acme-challenge/'' of
        Some token \<Rightarrow>
          if token \<noteq> [] then
            case px_cert_manager svc of
              Some cm \<Rightarrow>
                map_option (\<lambda>auth. \<lparr> rs_status = 200, rs_headers = [(''content-type'', ''text/plain'')], rs_body = auth \<rparr>) (cm token)
            | None \<Rightarrow> None
          else None
      | None \<Rightarrow> None)"

text \<open>The checks before a backend is chosen, the same for both kinds of request: route, exposure, network policy.\<close>

definition px_admit :: "'net px_service \<Rightarrow> string option \<Rightarrow> string \<Rightarrow> (resolved_service, proxy_error) result" where
  "px_admit svc host path =
     and_then (ok_or (resolve (px_registry svc) host path)
         (RouteNotFound (case host of Some h \<Rightarrow> h | None \<Rightarrow> ''<none>'') path)) (\<lambda>resolved.
     and_then (if res_expose resolved = Internal
               then case px_remote_addr svc of
                      Some addr \<Rightarrow> if \<not> is_overlay_ip (fst addr) then Inl (Forbidden ''endpoint is internal-only'') else Inr ()
                    | None \<Rightarrow> Inr ()
               else Inr ()) (\<lambda>_.
     case (px_policies svc, px_remote_addr svc) of
       (Some policies, Some addr) \<Rightarrow>
         if \<not> check_access policies (fst addr) (res_name resolved) ''*'' (res_target_port resolved)
         then Inl (Forbidden (''network policy denied access to service '' @ [CHR 0x27] @ res_name resolved @ [CHR 0x27]))
         else Inr resolved
     | _ \<Rightarrow> Inr resolved))"

definition px_uri :: "socket_addr \<Rightarrow> resolved_service \<Rightarrow> px_request \<Rightarrow> string" where
  "px_uri backend resolved req =
     ''http://'' @ show_socket_addr backend @
     transform_path (res_path_prefix resolved) (rq_path req) (res_strip_prefix resolved) @
     (case rq_query req of Some q \<Rightarrow> ''?'' @ q | None \<Rightarrow> [])"

definition build_forwarded_request ::
  "'net px_env \<Rightarrow> 'net px_service \<Rightarrow> px_request \<Rightarrow> socket_addr \<Rightarrow> resolved_service \<Rightarrow> (forwarded, proxy_error) result" where
  "build_forwarded_request env svc req backend resolved =
     (let new_uri = px_uri backend resolved req in
      case pe_uri_error env new_uri of
        Some e \<Rightarrow> Inl (InvalidRequest (''Invalid URI: '' @ e))
      | None \<Rightarrow>
          Inr \<lparr> fw_backend = backend, fw_method = rq_method req, fw_uri = new_uri,
                fw_headers = remove_hop_by_hop_headers
                  (add_forwarding_headers (pe_contains env) svc (rq_version req) (rq_headers req)),
                fw_upgrade = False \<rparr>)"

text \<open>
  The request of an upgrade is built anew: the headers are inserted one by one, so that of several values of a name
  the last is kept, except for the names copied again afterwards. The version is that of a new request.
\<close>

definition build_upgrade_request ::
  "'net px_env \<Rightarrow> 'net px_service \<Rightarrow> px_request \<Rightarrow> socket_addr \<Rightarrow> resolved_service \<Rightarrow> (forwarded, proxy_error) result" where
  "build_upgrade_request env svc req backend resolved =
     (let new_uri = px_uri backend resolved req in
      case pe_uri_error env new_uri of
        Some e \<Rightarrow> Inl (InvalidRequest (''Invalid URI: '' @ e))
      | None \<Rightarrow>
          let hs = fold (\<lambda>(n, v). hdr_insert n v) (rq_headers req) [];
              hs = copy_upgrade_headers (rq_headers req) hs
          in Inr \<lparr> fw_backend = backend, fw_method = rq_method req, fw_uri = new_uri,
                fw_headers = add_forwarding_headers (pe_contains env) svc HTTP_11 hs, fw_upgrade = True \<rparr>)"

text \<open>
  A request up to the exchange with the backend: it is answered at once, refused, or sent, with the backend whose
  connection guard is then held. The guard is dropped again when the request cannot be built.
\<close>

datatype px_step = Reply px_response | Refuse proxy_error | Send backend_id forwarded

definition px_dispatch ::
  "'net px_env \<Rightarrow> 'net px_service \<Rightarrow> px_request \<Rightarrow> load_balancer \<Rightarrow> px_step \<times> load_balancer" where
  "px_dispatch env svc req lb =
     (let host = px_host req; path = rq_path req in
      case acme_response svc path of
        Some r \<Rightarrow> (Reply r, lb)
      | None \<Rightarrow>
          (case px_admit svc host path of
             Inl e \<Rightarrow> (Refuse e, lb)
           | Inr resolved \<Rightarrow>
               (case lb_select (res_name resolved) lb of
                  (None, lb) \<Rightarrow> (Refuse (NoHealthyBackends (res_name resolved)), lb)
                | (Some i, lb) \<Rightarrow>
                    let backend_addr = be_addr (store lb ! i);
                        lb = track_connection i lb in
                    case (if is_upgrade_request (rq_headers req) then build_upgrade_request env svc req backend_addr resolved
                          else build_forwarded_request env svc req backend_addr resolved) of
                      Inl e \<Rightarrow> (Refuse e, guard_drop i lb)
                    | Inr fw \<Rightarrow> (Send i fw, lb))))"

definition hsts_value :: "header_config \<Rightarrow> string" where
  "hsts_value c =
     (if hc_hsts_subdomains c then ''max-age='' @ show_word (hc_hsts_max_age c) @ ''; includeSubDomains''
      else ''max-age='' @ show_word (hc_hsts_max_age c))"

definition server_timing :: "nat \<Rightarrow> string" where
  "server_timing ms = ''proxy;dur='' @ show_nat ms"

text \<open>What the client gets for the backend's response; a switch of protocols is answered with a new response.\<close>

definition px_finish :: "'net px_env \<Rightarrow> 'net px_service \<Rightarrow> px_request \<Rightarrow> forwarded \<Rightarrow> px_response \<Rightarrow> px_response" where
  "px_finish env svc req fw resp =
     (if fw_upgrade fw \<and> rs_status resp = 101
      then let hs = (case hdr_get (rq_headers req) ''upgrade'' of Some v \<Rightarrow> [(''upgrade'', v)] | None \<Rightarrow> []) @ [(''connection'', ''upgrade'')]
           in \<lparr> rs_status = 101, rs_headers = hdr_set ''server-timing'' (server_timing (pe_elapsed env)) hs, rs_body = [] \<rparr>
      else let hs = (if px_is_tls svc \<and> hc_hsts (px_headers svc)
                     then hdr_set ''strict-transport-security'' (hsts_value (px_headers svc)) (rs_headers resp) else rs_headers resp)
           in resp\<lparr>rs_headers := hdr_set ''server-timing'' (server_timing (pe_elapsed env)) hs\<rparr>)"

definition proxy_request ::
  "'net px_env \<Rightarrow> 'net px_service \<Rightarrow> px_request \<Rightarrow> load_balancer \<Rightarrow> (px_response, proxy_error) result \<times> load_balancer" where
  "proxy_request env svc req lb =
     (case px_dispatch env svc req lb of
        (Reply r, lb) \<Rightarrow> (Inr r, lb)
      | (Refuse e, lb) \<Rightarrow> (Inl e, lb)
      | (Send i fw, lb) \<Rightarrow>
          (case pe_exchange env fw of
             Inl e \<Rightarrow> (Inl e, guard_drop i lb)
           | Inr resp \<Rightarrow> (Inr (px_finish env svc req fw resp), guard_drop i lb)))"

section \<open>Trimming\<close>

definition printable :: "char \<Rightarrow> bool" where
  "printable c \<longleftrightarrow> 33 \<le> (of_char c :: nat) \<and> (of_char c :: nat) < 127"

lemma white_space_edges: "list_all (\<lambda>w. w \<noteq> [] \<and> \<not> printable (hd w) \<and> \<not> printable (last w)) white_space"
  by (simp add: white_space_def of_bytes_def char_of_byte_def printable_def)

lemma trim_front_printable:
  assumes "list_all (\<lambda>w. w \<noteq> [] \<and> \<not> printable (hd w)) ws" "s = [] \<or> printable (hd s)"
  shows "trim_front ws s = s"
proof -
  have "find (\<lambda>w. w \<noteq> [] \<and> starts_with s w) ws = None"
    using assms by (auto simp: find_None_iff list_all_iff starts_with_iff hd_append)
  then show ?thesis by (subst trim_front.simps) simp
qed

lemma trim_printable: "s = [] \<or> printable (hd s) \<and> printable (last s) \<Longrightarrow> trim s = s"
  using white_space_edges trim_front_printable [of white_space s] trim_front_printable [of "map rev white_space" "rev s"]
  by (auto simp: trim_def list_all_iff hd_rev)

section \<open>Header maps\<close>

lemma hdr_get_insert [simp]: "hdr_get (hdr_insert n v hs) m = (if m = n then Some v else hdr_get hs m)"
  by (induction hs) (auto simp: hdr_get_def hdr_insert_def)

lemma hdr_get_remove [simp]: "hdr_get (hdr_remove n hs) m = (if m = n then None else hdr_get hs m)"
  by (induction hs) (auto simp: hdr_get_def hdr_remove_def)

lemma hdr_get_fold_remove: "hdr_get (fold hdr_remove ns hs) m = (if m \<in> set ns then None else hdr_get hs m)"
  by (induction ns arbitrary: hs) auto

lemma hdr_get_set [simp]: "m \<noteq> n \<Longrightarrow> hdr_get (hdr_set n s hs) m = hdr_get hs m"
  by (simp add: hdr_set_def split: option.splits)

lemma hdr_get_None_iff: "hdr_get hs n = None \<longleftrightarrow> n \<notin> fst ` set hs"
  by (simp add: hdr_get_def map_of_eq_None_iff)

lemma hdr_text_insert_neq [simp]: "m \<noteq> n \<Longrightarrow> hdr_text (hdr_insert n v hs) m = hdr_text hs m"
  "m \<noteq> n \<Longrightarrow> hdr_text (hdr_set n v hs) m = hdr_text hs m"
  by (simp_all add: hdr_text_def)

definition forwarding_names :: "string list" where
  "forwarding_names = [''x-forwarded-for'', ''x-forwarded-proto'', ''x-forwarded-host'', ''x-real-ip'', ''via'']"

lemma forwarding_others:
  "m \<noteq> ''x-forwarded-for'' \<Longrightarrow> hdr_get (forwarded_for contains svc client hs) m = hdr_get hs m"
  "m \<noteq> ''x-forwarded-proto'' \<Longrightarrow> hdr_get (forwarded_proto svc hs) m = hdr_get hs m"
  "m \<noteq> ''x-forwarded-host'' \<Longrightarrow> hdr_get (forwarded_host hs) m = hdr_get hs m"
  "m \<noteq> ''x-real-ip'' \<Longrightarrow> hdr_get (real_ip client hs) m = hdr_get hs m"
  "m \<noteq> ''via'' \<Longrightarrow> hdr_get (via_header version server_name hs) m = hdr_get hs m"
  by (simp_all add: forwarded_for_def forwarded_proto_def forwarded_host_def real_ip_def via_header_def Let_def split: option.splits)

lemma add_forwarding_other:
  assumes "m \<notin> set forwarding_names"
  shows "hdr_get (add_forwarding_headers contains svc version hs) m = hdr_get hs m"
proof -
  from assms have m: "m \<noteq> ''x-forwarded-for''" "m \<noteq> ''x-forwarded-proto''" "m \<noteq> ''x-forwarded-host''" "m \<noteq> ''x-real-ip''" "m \<noteq> ''via''"
    unfolding forwarding_names_def by auto
  show ?thesis unfolding add_forwarding_headers_def Let_def by (simp add: forwarding_others m)
qed

lemma connection_tokens_forwarding [simp]:
  "connection_tokens (add_forwarding_headers contains svc version hs) = connection_tokens hs"
  by (simp add: connection_tokens_def hdr_text_def add_forwarding_other forwarding_names_def)

section \<open>Admission\<close>

lemma px_admit_Inr:
  "px_admit svc host path = Inr r \<longleftrightarrow>
     resolve (px_registry svc) host path = Some r \<and>
     (res_expose r = Internal \<longrightarrow> (\<forall>a. px_remote_addr svc = Some a \<longrightarrow> is_overlay_ip (fst a))) \<and>
     (\<forall>policies a. px_policies svc = Some policies \<longrightarrow> px_remote_addr svc = Some a \<longrightarrow>
        check_access policies (fst a) (res_name r) ''*'' (res_target_port r))"
  by (auto simp: px_admit_def ok_or_def and_then_def split: option.splits sum.splits if_splits)

lemma build_request_backend:
  "build_forwarded_request env svc req backend r = Inr fw \<Longrightarrow> fw_backend fw = backend \<and> \<not> fw_upgrade fw"
  "build_upgrade_request env svc req backend r = Inr fw \<Longrightarrow> fw_backend fw = backend \<and> fw_upgrade fw"
  by (auto simp: build_forwarded_request_def build_upgrade_request_def Let_def split: option.splits)

lemma px_dispatch_Send:
  assumes "px_dispatch env svc req lb = (Send i fw, lb')"
  shows "\<exists>r lb1. px_admit svc (px_host req) (rq_path req) = Inr r \<and> lb_select (res_name r) lb = (Some i, lb1) \<and>
     (if is_upgrade_request (rq_headers req) then build_upgrade_request env svc req (be_addr (store lb1 ! i)) r
      else build_forwarded_request env svc req (be_addr (store lb1 ! i)) r) = Inr fw \<and> lb' = track_connection i lb1"
  using assms by (auto simp: px_dispatch_def Let_def split: option.splits sum.splits prod.splits if_splits)

lemma px_dispatch_unhealthy:
  assumes "px_dispatch env svc req lb = (Refuse (NoHealthyBackends k), lb')"
  shows "\<exists>r. px_admit svc (px_host req) (rq_path req) = Inr r \<and> lb_select k lb = (None, lb') \<and> k = res_name r"
proof (cases "px_admit svc (px_host req) (rq_path req)")
  case (Inl e)
  then have "e \<noteq> NoHealthyBackends k" by (auto simp: px_admit_def ok_or_def and_then_def split: option.splits sum.splits if_splits)
  with Inl assms show ?thesis by (auto simp: px_dispatch_def Let_def split: option.splits)
next
  case (Inr r)
  have "build_forwarded_request env svc req b r \<noteq> Inl (NoHealthyBackends k)" "build_upgrade_request env svc req b r \<noteq> Inl (NoHealthyBackends k)" for b
    by (auto simp: build_forwarded_request_def build_upgrade_request_def Let_def split: option.splits)
  with Inr assms show ?thesis
    by (auto simp: px_dispatch_def Let_def split: option.splits prod.splits sum.splits if_splits)
qed

text \<open>
  C2. What reaches a backend: a request is sent on only when the first matching route of the registry resolves it, an
  internal endpoint is asked for from the overlay network, and the network policies let the source through; and
  the backend it is sent to is a healthy one of the balancer's group of that route. This holds for plain
  requests and for upgrades. (Where the address of the peer is not known, neither check is made.)
\<close>

theorem sent_only_if_admitted:
  assumes "px_dispatch env svc req lb = (Send i fw, lb')"
  shows "\<exists>r g. resolve (px_registry svc) (px_host req) (rq_path req) = Some r \<and>
     (\<forall>a. px_remote_addr svc = Some a \<longrightarrow>
        (res_expose r = Internal \<longrightarrow> is_overlay_ip (fst a)) \<and>
        (\<forall>policies. px_policies svc = Some policies \<longrightarrow>
           check_access policies (fst a) (res_name r) ''*'' (res_target_port r))) \<and>
     hm_get (groups lb) (res_name r) = Some g \<and> i \<in> set (grp_backends g) \<and> is_healthy lb i \<and>
     fw_backend fw = be_addr (store lb ! i) \<and> fw_upgrade fw = is_upgrade_request (rq_headers req)"
proof -
  from px_dispatch_Send [OF assms] obtain r lb1 where
    r: "px_admit svc (px_host req) (rq_path req) = Inr r" and s: "lb_select (res_name r) lb = (Some i, lb1)"
    and b: "(if is_upgrade_request (rq_headers req) then build_upgrade_request env svc req (be_addr (store lb1 ! i)) r
      else build_forwarded_request env svc req (be_addr (store lb1 ! i)) r) = Inr fw" by blast
  from lb_select_healthy [OF s] obtain g where
    g: "hm_get (groups lb) (res_name r) = Some g" "i \<in> set (grp_backends g)" "is_healthy lb i" "store lb1 = store lb" by blast
  have "fw_backend fw = be_addr (store lb ! i) \<and> fw_upgrade fw = is_upgrade_request (rq_headers req)"
    using b build_request_backend g(4) by (simp split: if_splits)
  with g r [unfolded px_admit_Inr] show ?thesis by (intro exI [of _ r] exI [of _ g]) simp
qed

text \<open>
  C20. No request leaves a connection counted: whatever way a request ends (answered, refused, failed at the backend
  or completed), every backend of the balancer is afterwards as it was before, its count of connections included.
\<close>

theorem proxy_request_releases: "store (snd (proxy_request env svc req lb)) = store lb"
proof (cases "px_dispatch env svc req lb")
  case (Pair st lb')
  have "store lb' = store lb" if "\<forall>i fw. st \<noteq> Send i fw"
    using Pair that by (auto simp: px_dispatch_def Let_def dest: lb_select_store split: option.splits sum.splits prod.splits if_splits)
  moreover have "store (guard_drop i lb') = store lb" if "st = Send i fw" for i fw
    using px_dispatch_Send [of env svc req lb i fw lb'] Pair that by (auto dest: lb_select_store)
  ultimately show ?thesis using Pair by (auto simp: proxy_request_def split: px_step.splits sum.splits)
qed

section \<open>Forwarded headers\<close>

lemma remove_hop_by_hop_get:
  "hdr_get (remove_hop_by_hop_headers hs) n =
     (if n \<in> set HOP_BY_HOP \<or> n \<in> set (connection_tokens hs) then None else hdr_get hs n)"
  by (simp add: remove_hop_by_hop_headers_def Let_def hdr_get_fold_remove)

lemma forwarded_headers_eq:
  "build_forwarded_request env svc req backend r = Inr fw \<Longrightarrow>
     fw_headers fw = remove_hop_by_hop_headers (add_forwarding_headers (pe_contains env) svc (rq_version req) (rq_headers req))"
  by (auto simp: build_forwarded_request_def Let_def split: option.splits)

text \<open>
  C37. The headers of a forwarded request: the hop-by-hop headers and the headers the client names in its \<open>Connection\<close>
  header are gone, and every other header, the five the proxy itself maintains excepted, has the value it came with.
\<close>

theorem forwarded_headers_exact:
  assumes "build_forwarded_request env svc req backend r = Inr fw" "n \<notin> set forwarding_names"
  shows "hdr_get (fw_headers fw) n =
     (if n \<in> set HOP_BY_HOP \<union> set (connection_tokens (rq_headers req)) then None else hdr_get (rq_headers req) n)"
  unfolding forwarded_headers_eq [OF assms(1)] by (simp add: remove_hop_by_hop_get add_forwarding_other [OF assms(2)])

definition visible :: "char \<Rightarrow> bool" where
  "visible c \<longleftrightarrow> 32 \<le> (of_char c :: nat) \<and> (of_char c :: nat) < 127"

lemma visible_digits: "list_all visible (show_nat n)"
  using show_nat_digits by (fastforce simp: list_all_iff visible_def is_digit_def)

lemma visible_hex: "list_all visible (show_hex n)"
proof (induction n rule: show_hex.induct)
  case (1 n)
  have "visible (hex_char d)" if "d < 16" for d using that by (auto simp: visible_def hex_char_def)
  with 1 show ?case by (subst show_hex.simps) simp
qed

lemma visible_groups: "list_all visible (show_groups gs)"
  unfolding show_groups_def
  by (induction gs rule: induct_list012) (auto simp: visible_hex, simp add: visible_def)

lemma visible_ip: "list_all visible (show_ip ip)"
proof -
  have v4: "list_all visible (show_ipv4 a)" for a by (simp add: show_ipv4_def visible_digits) (simp add: visible_def)
  moreover have "list_all visible (show_ipv6 a)" for a
    using v4 visible_groups by (simp add: show_ipv6_def Let_def split: prod.splits) (simp add: visible_def)
  ultimately show ?thesis by (cases ip) simp_all
qed

lemma value_of_visible: "list_all visible s \<Longrightarrow> value_parse s = Some s \<and> value_to_str s = Some s"
  by (auto simp: value_parse_def value_to_str_def visible_def list_all_iff Let_def)

lemma value_of_text: "value_to_str s = Some t \<Longrightarrow> t = s \<and> value_parse s = Some s"
  by (fastforce simp: value_parse_def value_to_str_def list_all_iff Let_def split: if_splits)

lemma value_parse_append: "value_parse s = Some s \<Longrightarrow> value_parse t = Some t \<Longrightarrow> value_parse (s @ t) = Some (s @ t)"
  by (simp add: value_parse_def split: if_splits)

lemma value_parse_Some [simp]: "value_parse s \<noteq> None \<Longrightarrow> value_parse s = Some s"
  by (simp add: value_parse_def split: if_splits)

lemma hdr_set_visible [simp]: "value_parse s = Some s \<Longrightarrow> hdr_get (hdr_set n s hs) n = Some s"
  by (simp add: hdr_set_def)

lemma add_forwarding_xff:
  assumes "hc_x_forwarded_for (px_headers svc)"
  shows "hdr_get (add_forwarding_headers contains svc version hs) ''x-forwarded-for'' =
     hdr_get (forwarded_for contains svc (effective_client_ip contains svc hs) hs) ''x-forwarded-for''"
  unfolding add_forwarding_headers_def Let_def using assms by (simp add: forwarding_others)

text \<open>
  A client cannot hide behind the header it sends: behind a peer that is not trusted, the forwarded \<open>X-Forwarded-For\<close>
  ends with the address of that peer, after what the client had put there. The one exception is that the client
  names the header in its \<open>Connection\<close> header; then the backend gets no \<open>X-Forwarded-For\<close> at all.
\<close>

theorem untrusted_peer_appended:
  assumes "build_forwarded_request env svc req backend r = Inr fw" "hc_x_forwarded_for (px_headers svc)"
    "px_remote_addr svc = Some a" "\<not> is_trusted (pe_contains env) (px_trusted svc) (fst a)"
  shows "hdr_get (fw_headers fw) ''x-forwarded-for'' =
     (if ''x-forwarded-for'' \<in> set (connection_tokens (rq_headers req)) then None
      else Some ((case hdr_text (rq_headers req) ''x-forwarded-for'' of Some chain \<Rightarrow> chain @ '', '' | None \<Rightarrow> []) @ show_ip (fst a)))"
proof -
  let ?hs = "rq_headers req" and ?n = "''x-forwarded-for''"
  have ip: "value_parse (show_ip (fst a)) = Some (show_ip (fst a))" using value_of_visible [OF visible_ip] by simp
  have sep: "value_parse '', '' = Some '', ''" by (simp add: value_parse_def)
  have chain: "value_parse c = Some c" if "hdr_text ?hs ?n = Some c" for c
    using that value_of_text by (auto simp: hdr_text_def bind_eq_Some_conv)
  have "hdr_get (forwarded_for (pe_contains env) svc client ?hs) ?n =
      Some ((case hdr_text ?hs ?n of Some c \<Rightarrow> c @ '', '' | None \<Rightarrow> []) @ show_ip (fst a))" for client
    using assms(3,4) ip value_parse_append [OF chain value_parse_append [OF sep ip]]
    by (simp add: forwarded_for_def Let_def split: option.splits)
  moreover have "?n \<notin> set HOP_BY_HOP" by (simp add: HOP_BY_HOP_def)
  ultimately show ?thesis
    unfolding forwarded_headers_eq [OF assms(1)] by (simp add: remove_hop_by_hop_get add_forwarding_xff [OF assms(2)])
qed

lemma client_real_ip_kept:
  assumes "build_forwarded_request env svc req backend r = Inr fw" "hdr_get (rq_headers req) ''x-real-ip'' = Some v"
    "''x-real-ip'' \<notin> set (connection_tokens (rq_headers req))"
  shows "hdr_get (fw_headers fw) ''x-real-ip'' = Some v"
proof -
  have "real_ip client hs = hs" if "hdr_get hs ''x-real-ip'' = Some v" for client hs
    using that by (simp add: real_ip_def split: option.splits)
  then have "hdr_get (add_forwarding_headers (pe_contains env) svc (rq_version req) (rq_headers req)) ''x-real-ip'' = Some v"
    unfolding add_forwarding_headers_def Let_def using assms(2) by (simp add: forwarding_others)
  with assms(3) show ?thesis unfolding forwarded_headers_eq [OF assms(1)]
    by (simp add: remove_hop_by_hop_get) (simp add: HOP_BY_HOP_def)
qed

section \<open>Policies at the proxy\<close>

lemma rule_by_name:
  "CHR ''#'' \<notin> set (ar_service rule) \<Longrightarrow> ar_service rule \<noteq> ''*'' \<Longrightarrow> \<not> rule_matches rule (endpoint_lb_key s e) d port"
  by (auto simp: rule_matches_def endpoint_lb_key_def)

definition wildcard_rules :: "network_policy \<Rightarrow> network_policy" where
  "wildcard_rules p = p\<lparr>np_access_rules := filter (\<lambda>r. ar_service r = ''*'' \<or> CHR ''#'' \<in> set (ar_service r)) (np_access_rules p)\<rparr>"

lemma any_rule_wildcard:
  "any_rule action (map wildcard_rules ns) (endpoint_lb_key s e) d port = any_rule action ns (endpoint_lb_key s e) d port"
  by (induction ns) (auto simp: any_rule_def wildcard_rules_def list_ex_iff dest: rule_by_name)

lemma check_access_wildcard:
  "check_access (map wildcard_rules policies) ip (endpoint_lb_key s e) d port = check_access policies ip (endpoint_lb_key s e) d port"
  by (simp add: check_access_def Let_def filter_map o_def any_rule_wildcard [of _ "filter P policies" for P, simplified filter_map o_def] wildcard_rules_def)

lemma resolve_from_endpoints:
  "resolve (map (\<lambda>(s, e). from_endpoint s e) eps) host path = Some r \<Longrightarrow> \<exists>s e. res_name r = endpoint_lb_key s e"
proof (induction eps)
  case (Cons x eps)
  have "\<exists>s e. res_name (rt_resolved (from_endpoint (fst x) (snd x))) = endpoint_lb_key s e"
    by (auto simp: from_endpoint_def Let_def)
  with Cons show ?case by (auto split: if_splits prod.splits)
qed simp

text \<open>
  C38. The proxy asks for access under the name of the balancer group of the endpoint, which is the service name, a hash and the
  endpoint name. For the routes of an endpoint, the rules that name a service as the specification does, without a
  hash, never count: the decision is that of the policies with those rules taken out, so that a rule denying one
  service by name denies nothing.
\<close>

theorem named_rules_ignored:
  "px_admit (svc\<lparr>px_registry := map (\<lambda>(s, e). from_endpoint s e) eps, px_policies := Some policies\<rparr>) host path =
   px_admit (svc\<lparr>px_registry := map (\<lambda>(s, e). from_endpoint s e) eps, px_policies := Some (map wildcard_rules policies)\<rparr>) host path"
proof (cases "resolve (map (\<lambda>(s, e). from_endpoint s e) eps) host path")
  case (Some r)
  then obtain s e where r: "res_name r = endpoint_lb_key s e" by (auto dest: resolve_from_endpoints)
  show ?thesis using Some by (simp add: px_admit_def ok_or_def r check_access_wildcard split: option.splits)
qed (simp add: px_admit_def ok_or_def)

section \<open>A sample proxy\<close>

text \<open>
  One service with an internal endpoint, one backend, and a network policy; an untrusted client of the overlay
  network that names a header in its \<open>Connection\<close> header. A network of the sample is an address.
\<close>

definition internal_endpoint :: endpoint_spec where
  "internal_endpoint = \<lparr> ep_name = ''web'', ep_protocol = Http, ep_port = 80, ep_target_port = Some 8080, ep_path = None,
     ep_host = None, ep_expose = Internal, ep_stream = None, ep_target_role = None, ep_tunnel = None \<rparr>"

definition sample_policies :: "network_policy list" where
  "sample_policies = [\<lparr> np_name = ''corp'', np_description = None, np_cidrs = [''10.200.0.0/16''], np_members = [],
     np_access_rules = [\<lparr> ar_service = ''*'', ar_deployment = ''*'', ar_ports = Some [8080], ar_action = AccessAllow \<rparr>,
                        \<lparr> ar_service = ''api'', ar_deployment = ''*'', ar_ports = None, ar_action = AccessDeny \<rparr>] \<rparr>]"

definition sample_svc :: "ip_addr px_service" where
  "sample_svc = \<lparr> px_registry = [from_endpoint ''api'' internal_endpoint], px_headers = header_config_default,
     px_remote_addr = Some (IpV4 0x0AC80005, 40000), px_is_tls = False, px_cert_manager = None,
     px_policies = Some sample_policies, px_trusted = \<lparr> tp_user_cidrs = [IpV4 0x7F000001], tp_cf_cache = None \<rparr> \<rparr>"

definition sample_px_env :: "ip_addr px_env" where
  "sample_px_env = \<lparr> pe_contains = (=), pe_uri_error = (\<lambda>_. None),
     pe_exchange = (\<lambda>_. Inr \<lparr> rs_status = 200, rs_headers = [], rs_body = ''ok'' \<rparr>), pe_elapsed = 3 \<rparr>"

definition sample_req :: px_request where
  "sample_req = \<lparr> rq_method = ''GET'', rq_uri_host = None, rq_path = ''/'', rq_query = None, rq_version = HTTP_11,
     rq_headers = [(''host'', ''api''), (''connection'', ''close,X-Debug''), (''x-debug'', ''1''), (''accept'', ''a'')] \<rparr>"

definition sample_px_lb :: load_balancer where
  "sample_px_lb = lb_register ''api#web'' [(IpV4 0x0AC80009, 8080)] RoundRobin lb_new"

lemma sample_resolve:
  "resolve (px_registry sample_svc) (px_host sample_req) (rq_path sample_req) = Some (rt_resolved (from_endpoint ''api'' internal_endpoint))"
  by (simp add: sample_svc_def sample_req_def route_matches_def path_matches_def from_endpoint_def internal_endpoint_def Let_def)

lemmas parse_ip_defs = parse_ip_def read_ipv4_def read_octet_def read_char_def read_number_def digit_of_def hex_val_def Let_def

lemma sample_range: "cidr_ranges [''10.200.0.0/16''] = [(IpV4 0x0AC80000, 16)]"
proof -
  have "parse_ip ''10.200.0.0'' = Some (IpV4 0x0AC80000)" by (simp add: parse_ip_defs)
  moreover have "parse_uint ''16'' = Some (16 :: u32)" by (simp add: parse_uint_def is_digit_def read_nat_def digit_val_def)
  ultimately show ?thesis by (simp add: cidr_ranges_def split_once_char starts_with_def)
qed

lemma sample_access: "check_access sample_policies (IpV4 0x0AC80005) ''api#web'' ''*'' 8080"
  by (simp add: check_access_def sample_policies_def ip_in_cidrs_iff sample_range any_rule_def rule_matches_def)

lemma sample_admit: "px_admit sample_svc (px_host sample_req) (rq_path sample_req) = Inr (rt_resolved (from_endpoint ''api'' internal_endpoint))"
  unfolding px_admit_Inr sample_resolve
  using sample_access
  by (simp add: sample_svc_def from_endpoint_def internal_endpoint_def endpoint_lb_key_def endpoint_target_port_def is_overlay_ip_def Let_def)

lemma sample_select: "\<exists>lb. lb_select ''api#web'' sample_px_lb = (Some 0, lb)"
  by (simp add: lb_select_def sample_px_lb_def lb_register_def lb_new_def group_new_def group_select_def select_round_robin_def
      is_healthy_def backend_new_def Let_def)

lemma sample_connection: "connection_tokens (rq_headers sample_req) = [''close'', ''x-debug'']" "\<not> is_upgrade_request (rq_headers sample_req)"
proof -
  have v: "hdr_text (rq_headers sample_req) ''connection'' = Some ''close,X-Debug''"
    by (simp add: sample_req_def hdr_text_def hdr_get_def value_to_str_def)
  have t: "trim ''close'' = ''close''" "trim ''X-Debug'' = ''X-Debug''" by (simp_all add: trim_printable printable_def)
  have "ascii_lowercase ''close'' = ''close''" "ascii_lowercase ''X-Debug'' = ''x-debug''" by code_simp+
  then show "connection_tokens (rq_headers sample_req) = [''close'', ''x-debug'']" by (simp add: connection_tokens_def v t)
  have "\<not> eq_ignore_ascii_case ''close'' ''upgrade''" "\<not> eq_ignore_ascii_case ''X-Debug'' ''upgrade''"
    by (simp_all add: eq_ignore_ascii_case_def as_bytes_def byte_of_char_def ascii_lower_def)
  then show "\<not> is_upgrade_request (rq_headers sample_req)" by (simp add: is_upgrade_request_def v t)
qed

lemma sample_untrusted: "\<not> is_trusted (pe_contains sample_px_env) (px_trusted sample_svc) (IpV4 0x0AC80005)"
  by (simp add: is_trusted_def sample_px_env_def sample_svc_def)

lemma sample_address: "show_ip (IpV4 0x0AC80005) = ''10.200.0.5''"
  by (simp add: show_ipv4_def show_nat.simps digit_char_def char_of_def bit_Suc_0_iff)

lemma sample_build: "\<exists>fw. build_forwarded_request sample_px_env sample_svc sample_req backend r = Inr fw"
  by (simp add: build_forwarded_request_def sample_px_env_def Let_def)

lemma sample_sent: "\<exists>fw lb. px_dispatch sample_px_env sample_svc sample_req sample_px_lb = (Send 0 fw, lb)"
proof -
  have a: "acme_response sample_svc (rq_path sample_req) = None" by (simp add: acme_response_def sample_req_def strip_prefix_def starts_with_def)
  have n: "res_name (rt_resolved (from_endpoint ''api'' internal_endpoint)) = ''api#web''"
    by (simp add: from_endpoint_def internal_endpoint_def endpoint_lb_key_def Let_def)
  from sample_select obtain lb where lb: "lb_select ''api#web'' sample_px_lb = (Some 0, lb)" ..
  from sample_build obtain fw where
    "build_forwarded_request sample_px_env sample_svc sample_req (be_addr (store lb ! 0)) (rt_resolved (from_endpoint ''api'' internal_endpoint)) = Inr fw" ..
  then show ?thesis using sample_connection(2) by (simp add: px_dispatch_def a sample_admit n lb Let_def)
qed

theorem sent_only_if_admitted_witness:
  "\<exists>fw lb' g. px_dispatch sample_px_env sample_svc sample_req sample_px_lb = (Send 0 fw, lb') \<and>
     hm_get (groups sample_px_lb) ''api#web'' = Some g \<and> 0 \<in> set (grp_backends g) \<and> is_healthy sample_px_lb 0 \<and>
     check_access sample_policies (IpV4 0x0AC80005) ''api#web'' ''*'' 8080 \<and> is_overlay_ip (IpV4 0x0AC80005) \<and>
     fw_backend fw = be_addr (store sample_px_lb ! 0) \<and> \<not> fw_upgrade fw"
proof -
  from sample_sent obtain fw lb' where sent: "px_dispatch sample_px_env sample_svc sample_req sample_px_lb = (Send 0 fw, lb')" by blast
  from sent_only_if_admitted [OF sent] obtain r g where
    r: "resolve (px_registry sample_svc) (px_host sample_req) (rq_path sample_req) = Some r"
    and g: "hm_get (groups sample_px_lb) (res_name r) = Some g" "0 \<in> set (grp_backends g)" "is_healthy sample_px_lb 0"
      "fw_backend fw = be_addr (store sample_px_lb ! 0)" "fw_upgrade fw = is_upgrade_request (rq_headers sample_req)"
    and a: "\<forall>a. px_remote_addr sample_svc = Some a \<longrightarrow>
        (res_expose r = Internal \<longrightarrow> is_overlay_ip (fst a)) \<and>
        (\<forall>policies. px_policies sample_svc = Some policies \<longrightarrow>
           check_access policies (fst a) (res_name r) ''*'' (res_target_port r))" by blast
  have r: "r = rt_resolved (from_endpoint ''api'' internal_endpoint)" using r sample_resolve by simp
  have n: "res_name r = ''api#web''" "res_expose r = Internal" "res_target_port r = 8080"
    by (simp_all add: r from_endpoint_def internal_endpoint_def endpoint_lb_key_def endpoint_target_port_def Let_def)
  have "px_remote_addr sample_svc = Some (IpV4 0x0AC80005, 40000)" "px_policies sample_svc = Some sample_policies"
    by (simp_all add: sample_svc_def)
  with a n have "is_overlay_ip (IpV4 0x0AC80005)" "check_access sample_policies (IpV4 0x0AC80005) ''api#web'' ''*'' 8080" by auto
  with sent g n sample_connection(2) show ?thesis by auto
qed

theorem forwarded_headers_exact_witness:
  "\<exists>fw. build_forwarded_request sample_px_env sample_svc sample_req (peer 1) (rt_resolved (from_endpoint ''api'' internal_endpoint)) = Inr fw \<and>
     hdr_get (fw_headers fw) ''connection'' = None \<and> hdr_get (fw_headers fw) ''x-debug'' = None \<and>
     hdr_get (fw_headers fw) ''accept'' = Some ''a''"
proof -
  from sample_build obtain fw where
    b: "build_forwarded_request sample_px_env sample_svc sample_req (peer 1) (rt_resolved (from_endpoint ''api'' internal_endpoint)) = Inr fw" ..
  note h = forwarded_headers_exact [OF b]
  have "hdr_get (fw_headers fw) ''connection'' = None" using h [of "''connection''"] by (simp add: HOP_BY_HOP_def forwarding_names_def)
  moreover have "hdr_get (fw_headers fw) ''x-debug'' = None" using h [of "''x-debug''"] by (simp add: sample_connection forwarding_names_def)
  moreover have "hdr_get (fw_headers fw) ''accept'' = Some ''a''"
    using h [of "''accept''"] sample_connection(1) by (simp add: HOP_BY_HOP_def forwarding_names_def sample_req_def hdr_get_def)
  ultimately show ?thesis using b by blast
qed

theorem untrusted_peer_appended_witness:
  "\<exists>fw. build_forwarded_request sample_px_env sample_svc sample_req (peer 1) (rt_resolved (from_endpoint ''api'' internal_endpoint)) = Inr fw \<and>
     hdr_get (fw_headers fw) ''x-forwarded-for'' = Some ''10.200.0.5''"
proof -
  from sample_build obtain fw where
    b: "build_forwarded_request sample_px_env sample_svc sample_req (peer 1) (rt_resolved (from_endpoint ''api'' internal_endpoint)) = Inr fw" ..
  have c: "hc_x_forwarded_for (px_headers sample_svc)" "px_remote_addr sample_svc = Some (IpV4 0x0AC80005, 40000)"
    by (simp_all add: sample_svc_def header_config_default_def)
  have x: "hdr_text (rq_headers sample_req) ''x-forwarded-for'' = None" by (simp add: sample_req_def hdr_text_def hdr_get_def)
  have "hdr_get (fw_headers fw) ''x-forwarded-for'' = Some (show_ip (IpV4 0x0AC80005))"
    using untrusted_peer_appended [OF b c(1) c(2)] sample_untrusted by (simp add: sample_connection x)
  with b sample_address show ?thesis by auto
qed

end
