(* ===== verification/Stream_Registry.thy ===== *)
theory Stream_Registry
  imports Prelude
begin

text \<open>
  The registry of the stream proxy, \<open>crates/zlayer-proxy/src/stream/registry.rs\<close>: services by TCP or UDP port, the choice of
  a backend for a connection (\<open>tcp.rs\<close>, \<open>handle_raw_connection\<close>), and the rounds of the health checker. The bytes of a
  connection are not modelled.
\<close>

section \<open>One service\<close>

datatype backend_health = SHealthy | SUnhealthy | SUnknown

definition is_usable :: "backend_health \<Rightarrow> bool" where
  "is_usable h \<longleftrightarrow> h = SHealthy \<or> h = SUnknown"

text \<open>
  A service in the registry. The health map and the round-robin index are shared by all its copies, so that a selection on a
  resolved copy moves the index of the registered service; the backends of a copy are its own.
\<close>

record stream_service =
  ss_name :: string
  ss_backends :: "socket_addr list"
  ss_health :: "(socket_addr, backend_health) hmap"
  ss_rr_index :: u64

definition stream_service_new :: "string \<Rightarrow> socket_addr list \<Rightarrow> stream_service" where
  "stream_service_new name backends =
     \<lparr> ss_name = name, ss_backends = backends, ss_health = fold (\<lambda>addr. hm_insert addr SUnknown) backends [], ss_rr_index = 0 \<rparr>"

definition get_backend_health :: "stream_service \<Rightarrow> socket_addr \<Rightarrow> backend_health" where
  "get_backend_health s addr = (case hm_get (ss_health s) addr of Some h \<Rightarrow> h | None \<Rightarrow> SUnknown)"

fun usable_from :: "stream_service \<Rightarrow> u64 \<Rightarrow> nat list \<Rightarrow> socket_addr option" where
  "usable_from s start [] = None"
| "usable_from s start (i # is) =
     (let idx = unat (start + word_of_nat i) mod length (ss_backends s);
          addr = ss_backends s ! idx in
      if is_usable (get_backend_health s addr) then Some addr else usable_from s start is)"

text \<open>\<open>contended\<close> is whether the lock of the health map is held by a writer; the index wraps around.\<close>

definition select_backend :: "bool \<Rightarrow> stream_service \<Rightarrow> socket_addr option \<times> stream_service" where
  "select_backend contended s =
     (if ss_backends s = [] then (None, s)
      else
        let n = length (ss_backends s);
            start = ss_rr_index s;
            s' = s\<lparr>ss_rr_index := start + 1\<rparr>;
            fallback = ss_backends s ! (unat start mod n) in
        if contended then (Some fallback, s')
        else case usable_from s start [0 ..< n] of
               Some addr \<Rightarrow> (Some addr, s')
             | None \<Rightarrow> (Some fallback, s'))"

definition ss_update_backends :: "socket_addr list \<Rightarrow> stream_service \<Rightarrow> stream_service" where
  "ss_update_backends backends s =
     (let health = fold (\<lambda>addr h. if hm_get h addr = None then hm_insert addr SUnknown h else h) backends (ss_health s);
          health = filter (\<lambda>(addr, _). addr \<in> set backends) health
      in s\<lparr>ss_health := health, ss_backends := backends\<rparr>)"

definition set_backend_health :: "socket_addr \<Rightarrow> backend_health \<Rightarrow> stream_service \<Rightarrow> stream_service" where
  "set_backend_health addr status s =
     (case hm_get (ss_health s) addr of Some _ \<Rightarrow> s\<lparr>ss_health := hm_insert addr status (ss_health s)\<rparr> | None \<Rightarrow> s)"

definition ss_healthy_count :: "stream_service \<Rightarrow> nat" where
  "ss_healthy_count s = length (filter (\<lambda>addr. is_usable (get_backend_health s addr)) (ss_backends s))"

section \<open>The registry\<close>

record stream_registry =
  sr_tcp :: "(u16, stream_service) hmap"
  sr_udp :: "(u16, stream_service) hmap"

definition stream_registry_new :: stream_registry where
  "stream_registry_new = \<lparr> sr_tcp = [], sr_udp = [] \<rparr>"

definition register_tcp :: "u16 \<Rightarrow> stream_service \<Rightarrow> stream_registry \<Rightarrow> stream_registry" where
  "register_tcp port s r = r\<lparr>sr_tcp := hm_insert port s (sr_tcp r)\<rparr>"

definition register_udp :: "u16 \<Rightarrow> stream_service \<Rightarrow> stream_registry \<Rightarrow> stream_registry" where
  "register_udp port s r = r\<lparr>sr_udp := hm_insert port s (sr_udp r)\<rparr>"

definition resolve_tcp :: "u16 \<Rightarrow> stream_registry \<Rightarrow> stream_service option" where
  "resolve_tcp port r = hm_get (sr_tcp r) port"

definition resolve_udp :: "u16 \<Rightarrow> stream_registry \<Rightarrow> stream_service option" where
  "resolve_udp port r = hm_get (sr_udp r) port"

definition update_tcp_backends :: "u16 \<Rightarrow> socket_addr list \<Rightarrow> stream_registry \<Rightarrow> stream_registry" where
  "update_tcp_backends port backends r =
     (case hm_get (sr_tcp r) port of Some s \<Rightarrow> r\<lparr>sr_tcp := hm_insert port (ss_update_backends backends s) (sr_tcp r)\<rparr> | None \<Rightarrow> r)"

definition update_udp_backends :: "u16 \<Rightarrow> socket_addr list \<Rightarrow> stream_registry \<Rightarrow> stream_registry" where
  "update_udp_backends port backends r =
     (case hm_get (sr_udp r) port of Some s \<Rightarrow> r\<lparr>sr_udp := hm_insert port (ss_update_backends backends s) (sr_udp r)\<rparr> | None \<Rightarrow> r)"

definition unregister_tcp :: "u16 \<Rightarrow> stream_registry \<Rightarrow> stream_service option \<times> stream_registry" where
  "unregister_tcp port r = (hm_get (sr_tcp r) port, r\<lparr>sr_tcp := hm_remove port (sr_tcp r)\<rparr>)"

definition unregister_udp :: "u16 \<Rightarrow> stream_registry \<Rightarrow> stream_service option \<times> stream_registry" where
  "unregister_udp port r = (hm_get (sr_udp r) port, r\<lparr>sr_udp := hm_remove port (sr_udp r)\<rparr>)"

definition tcp_count :: "stream_registry \<Rightarrow> nat" where
  "tcp_count r = length (sr_tcp r)"

definition udp_count :: "stream_registry \<Rightarrow> nat" where
  "udp_count r = length (sr_udp r)"

definition tcp_ports :: "stream_registry \<Rightarrow> u16 list" where
  "tcp_ports r = map fst (sr_tcp r)"

definition udp_ports :: "stream_registry \<Rightarrow> u16 list" where
  "udp_ports r = map fst (sr_udp r)"

text \<open>A connection on a TCP port, up to the connection to the backend: resolve, then select on the resolved copy.\<close>

definition handle_raw_connection :: "bool \<Rightarrow> u16 \<Rightarrow> stream_registry \<Rightarrow> socket_addr option \<times> stream_registry" where
  "handle_raw_connection contended port r =
     (case resolve_tcp port r of
        None \<Rightarrow> (None, r)
      | Some s \<Rightarrow> (case select_backend contended s of (b, s') \<Rightarrow> (b, r\<lparr>sr_tcp := hm_insert port s' (sr_tcp r)\<rparr>)))"

text \<open>One round of the health checker: every backend of every TCP service is probed, \<open>up\<close> being which connections succeed in time.\<close>

definition stream_health_round :: "(socket_addr \<Rightarrow> bool) \<Rightarrow> stream_registry \<Rightarrow> stream_registry" where
  "stream_health_round up r =
     r\<lparr>sr_tcp := map (\<lambda>(port, s). (port,
        fold (\<lambda>addr. set_backend_health addr (if up addr then SHealthy else SUnhealthy)) (ss_backends s) s)) (sr_tcp r)\<rparr>"

section \<open>Selection\<close>

text \<open>The health map of a service has an entry for each of its backends and no other.\<close>

definition ss_wf :: "stream_service \<Rightarrow> bool" where
  "ss_wf s \<longleftrightarrow> dom (hm_get (ss_health s)) = set (ss_backends s)"

lemma dom_fold_unknown: "dom (hm_get (fold (\<lambda>a. hm_insert a SUnknown) bs h)) = dom (hm_get h) \<union> set bs"
  by (induction bs arbitrary: h) (auto simp: update_conv')

lemma fold_missing_unknown:
  "hm_get (fold (\<lambda>a h. if hm_get h a = None then hm_insert a SUnknown h else h) bs h) a =
     (case hm_get h a of Some x \<Rightarrow> Some x | None \<Rightarrow> if a \<in> set bs then Some SUnknown else None)"
  by (induction bs arbitrary: h) (auto simp: update_conv' split: option.splits)

lemma map_of_filter_key: "map_of (filter (\<lambda>(a, _). P a) h) a = (if P a then map_of h a else None)"
  by (induction h) auto

lemma ss_wf_new: "ss_wf (stream_service_new name backends)"
  by (simp add: ss_wf_def stream_service_new_def dom_fold_unknown)

lemma ss_wf_update: "ss_wf (ss_update_backends backends s)"
  by (auto simp: ss_wf_def ss_update_backends_def Let_def map_of_filter_key fold_missing_unknown dom_def split: option.splits if_splits)

lemma ss_update_health:
  "a \<in> set backends \<Longrightarrow> get_backend_health (ss_update_backends backends s) a = get_backend_health s a"
  by (simp add: get_backend_health_def ss_update_backends_def Let_def map_of_filter_key fold_missing_unknown split: option.splits)

lemma set_backend_health_sel [simp]:
  "ss_backends (set_backend_health a h s) = ss_backends s" "ss_rr_index (set_backend_health a h s) = ss_rr_index s"
  by (simp_all add: set_backend_health_def split: option.splits)

lemma ss_wf_set_health: "ss_wf s \<Longrightarrow> ss_wf (set_backend_health a h s)"
  by (auto simp: ss_wf_def set_backend_health_def update_conv' split: option.splits)

lemma get_set_health:
  "ss_wf s \<Longrightarrow> a \<in> set (ss_backends s) \<Longrightarrow>
     get_backend_health (set_backend_health a h s) b = (if b = a then h else get_backend_health s b)"
  by (auto simp: ss_wf_def get_backend_health_def set_backend_health_def update_conv' split: option.splits)

lemma usable_from_eq:
  "usable_from s start is =
     find (\<lambda>a. is_usable (get_backend_health s a)) (map (\<lambda>i. ss_backends s ! (unat (start + word_of_nat i) mod length (ss_backends s))) is)"
  by (induction "is") (simp_all add: Let_def)

text \<open>The backends in the order of a selection: from the index on, around the list.\<close>

definition rotation :: "stream_service \<Rightarrow> socket_addr list" where
  "rotation s = rotate (unat (ss_rr_index s)) (ss_backends s)"

lemma rotation_eq:
  assumes "unat (ss_rr_index s) + length (ss_backends s) \<le> 2 ^ 64"
  shows "map (\<lambda>i. ss_backends s ! (unat (ss_rr_index s + word_of_nat i) mod length (ss_backends s))) [0 ..< length (ss_backends s)] = rotation s"
proof (rule nth_equalityI)
  fix i assume "i < length (map (\<lambda>i. ss_backends s ! (unat (ss_rr_index s + word_of_nat i) mod length (ss_backends s))) [0 ..< length (ss_backends s)])"
  then have i: "i < length (ss_backends s)" by simp
  with assms have "unat (ss_rr_index s) + i < 2 ^ 64" "i < 2 ^ 64" by simp_all
  then have "unat (ss_rr_index s + word_of_nat i) = unat (ss_rr_index s) + i"
    by (simp add: unat_word_ariths unat_of_nat take_bit_nat_eq_self)
  with i show "map (\<lambda>i. ss_backends s ! (unat (ss_rr_index s + word_of_nat i) mod length (ss_backends s))) [0 ..< length (ss_backends s)] ! i = rotation s ! i"
    by (simp add: rotation_def nth_rotate)
qed (simp add: rotation_def)

lemma select_backend_eq:
  assumes "unat (ss_rr_index s) + length (ss_backends s) \<le> 2 ^ 64"
  shows "select_backend contended s =
     (if ss_backends s = [] then (None, s)
      else (Some (case find (\<lambda>a. is_usable (get_backend_health s a)) (rotation s) of
                    Some a \<Rightarrow> if contended then hd (rotation s) else a
                  | None \<Rightarrow> hd (rotation s)),
            s\<lparr>ss_rr_index := ss_rr_index s + 1\<rparr>))"
proof (cases "ss_backends s = []")
  case False
  then have "ss_backends s ! (unat (ss_rr_index s) mod length (ss_backends s)) = hd (rotation s)"
    by (simp add: rotation_def hd_rotate_conv_nth)
  with False show ?thesis
    by (simp add: select_backend_def usable_from_eq rotation_eq [OF assms] Let_def split: option.splits)
qed (simp add: select_backend_def)

section \<open>Health rounds\<close>

lemma probes_health:
  assumes "ss_wf s" "set as \<subseteq> set (ss_backends s)"
  shows "get_backend_health (fold (\<lambda>a. set_backend_health a (if up a then SHealthy else SUnhealthy)) as s) b =
     (if b \<in> set as then (if up b then SHealthy else SUnhealthy) else get_backend_health s b)"
  using assms by (induction as arbitrary: s) (auto simp: get_set_health ss_wf_set_health)

lemma probes_sel [simp]:
  "ss_backends (fold (\<lambda>a. set_backend_health a (h a)) as s) = ss_backends s"
  "ss_rr_index (fold (\<lambda>a. set_backend_health a (h a)) as s) = ss_rr_index s"
  by (induction as arbitrary: s) simp_all

lemma hm_get_map_val: "hm_get (map (\<lambda>(k, v). (k, f v)) m) k = map_option f (hm_get m k)"
  by (induction m) auto

text \<open>The registry under use: every service in it came from the constructor and the operations below.\<close>

datatype stream_op =
    OpRegisterTcp u16 string "socket_addr list"
  | OpRegisterUdp u16 string "socket_addr list"
  | OpUpdateTcp u16 "socket_addr list"
  | OpUpdateUdp u16 "socket_addr list"
  | OpUnregisterTcp u16
  | OpUnregisterUdp u16
  | OpConnect bool u16
  | OpHealthRound "socket_addr \<Rightarrow> bool"

fun stream_step :: "stream_op \<Rightarrow> stream_registry \<Rightarrow> stream_registry" where
  "stream_step (OpRegisterTcp port name backends) r = register_tcp port (stream_service_new name backends) r"
| "stream_step (OpRegisterUdp port name backends) r = register_udp port (stream_service_new name backends) r"
| "stream_step (OpUpdateTcp port backends) r = update_tcp_backends port backends r"
| "stream_step (OpUpdateUdp port backends) r = update_udp_backends port backends r"
| "stream_step (OpUnregisterTcp port) r = snd (unregister_tcp port r)"
| "stream_step (OpUnregisterUdp port) r = snd (unregister_udp port r)"
| "stream_step (OpConnect contended port) r = snd (handle_raw_connection contended port r)"
| "stream_step (OpHealthRound up) r = stream_health_round up r"

definition stream_run :: "stream_op list \<Rightarrow> stream_registry" where
  "stream_run ops = fold stream_step ops stream_registry_new"

definition sr_wf :: "stream_registry \<Rightarrow> bool" where
  "sr_wf r \<longleftrightarrow> (\<forall>port s. hm_get (sr_tcp r) port = Some s \<longrightarrow> ss_wf s)"

lemma ss_wf_select: "ss_wf s \<Longrightarrow> ss_wf (snd (select_backend contended s))"
  by (simp add: select_backend_def ss_wf_def Let_def split: option.splits)

lemma ss_wf_probes: "ss_wf s \<Longrightarrow> ss_wf (fold (\<lambda>a. set_backend_health a (h a)) as s)"
  by (induction as arbitrary: s) (simp_all add: ss_wf_set_health)

lemma sr_wf_get: "sr_wf r \<Longrightarrow> hm_get (sr_tcp r) port = Some s \<Longrightarrow> ss_wf s"
  by (simp add: sr_wf_def)

lemma sr_wf_insert: "sr_wf r \<Longrightarrow> ss_wf s \<Longrightarrow> sr_wf (r\<lparr>sr_tcp := hm_insert port s (sr_tcp r)\<rparr>)"
  by (simp add: sr_wf_def update_conv')

lemma sr_wf_udp: "sr_wf r \<Longrightarrow> sr_wf (r\<lparr>sr_udp := u\<rparr>)"
  by (simp add: sr_wf_def)

lemma sr_wf_remove: "sr_wf r \<Longrightarrow> sr_wf (r\<lparr>sr_tcp := hm_remove port (sr_tcp r)\<rparr>)"
  by (simp add: sr_wf_def delete_conv')

lemma sr_wf_round: "sr_wf r \<Longrightarrow> sr_wf (stream_health_round up r)"
  by (auto simp: sr_wf_def stream_health_round_def hm_get_map_val intro: ss_wf_probes)

lemma sr_wf_connect: "sr_wf r \<Longrightarrow> sr_wf (snd (handle_raw_connection contended port r))"
proof (cases "resolve_tcp port r")
  case (Some s)
  assume "sr_wf r"
  then have "ss_wf s" using Some [unfolded resolve_tcp_def] by (rule sr_wf_get)
  from ss_wf_select [OF this, of contended] obtain b s' where "select_backend contended s = (b, s')" "ss_wf s'"
    by (cases "select_backend contended s") simp
  with \<open>sr_wf r\<close> Some show ?thesis by (simp add: handle_raw_connection_def sr_wf_insert)
qed (simp add: handle_raw_connection_def)

lemma sr_wf_step: "sr_wf r \<Longrightarrow> sr_wf (stream_step op r)"
  by (cases op) (simp_all add: register_tcp_def register_udp_def update_tcp_backends_def update_udp_backends_def unregister_tcp_def
      unregister_udp_def sr_wf_insert sr_wf_udp sr_wf_remove sr_wf_round sr_wf_connect ss_wf_new ss_wf_update split: option.splits)

lemma sr_wf_run: "sr_wf (stream_run ops)"
proof -
  have "sr_wf (fold stream_step ops r)" if "sr_wf r" for r using that
    by (induction ops arbitrary: r) (simp_all add: sr_wf_step)
  moreover have "sr_wf stream_registry_new" by (simp add: sr_wf_def stream_registry_new_def)
  ultimately show ?thesis by (simp add: stream_run_def)
qed

lemma find_or_hd:
  assumes "xs \<noteq> []"
  shows "(case find P xs of Some a \<Rightarrow> a | None \<Rightarrow> hd xs) \<in> set xs \<and>
     ((\<exists>b \<in> set xs. P b) \<longrightarrow> P (case find P xs of Some a \<Rightarrow> a | None \<Rightarrow> hd xs))"
proof (cases "find P xs")
  case None
  with None [unfolded find_None_iff] assms show ?thesis by auto
next
  case (Some a)
  then have "P a \<and> a \<in> set xs" by (auto simp: find_Some_iff)
  with Some show ?thesis by simp
qed



end
