(* ===== verification/Proxy_Manager.thy ===== *)
theory Proxy_Manager
  imports Proxy_Request Stream_Registry
begin

text \<open>
  The manager of the agent's proxies, \<open>crates/zlayer-agent/src/proxy_manager.rs\<close>: it keeps the route table, the load balancer,
  the listening servers and the ports published on the loopback in step with the services of a deployment. A
  server's task, its shutdown and the wait for open connections when the manager stops are not modelled.
\<close>

section \<open>State\<close>

record service_tracking =
  st_endpoint_names :: "string list"
  st_tcp_ports :: "u16 list"
  st_udp_ports :: "u16 list"
  st_http_ports :: "u16 list"

record proxy_server =
  ps_addr :: socket_addr
  ps_tls :: bool

text \<open>
  The manager's state. A server or a listener is known by its port; the tasks behind them are not modelled. Whether
  there is a certificate manager is all that is used of it.
\<close>

record proxy_manager =
  pm_registry :: service_registry
  pm_lb :: load_balancer
  pm_servers :: "(u16, proxy_server) hmap"
  pm_services :: "(string, service_tracking) hmap"
  pm_streams :: "stream_registry option"
  pm_cert_manager :: bool
  pm_tcp_listeners :: "u16 set"
  pm_udp_listeners :: "u16 set"
  pm_loopback :: stream_registry
  pm_loopback_tcp :: "u16 set"
  pm_loopback_udp :: "u16 set"

definition pm_new :: "bool \<Rightarrow> stream_registry option \<Rightarrow> proxy_manager" where
  "pm_new cert_manager streams =
     \<lparr> pm_registry = routes_new, pm_lb = lb_new, pm_servers = [], pm_services = [], pm_streams = streams,
       pm_cert_manager = cert_manager, pm_tcp_listeners = {}, pm_udp_listeners = {}, pm_loopback = stream_registry_new,
       pm_loopback_tcp = {}, pm_loopback_udp = {} \<rparr>"

definition LOCALHOST :: ip_addr where
  "LOCALHOST = IpV4 0x7F000001"

definition UNSPECIFIED :: ip_addr where
  "UNSPECIFIED = IpV4 0"

section \<open>Listeners\<close>

definition listen_on :: "u16 \<Rightarrow> ip_addr \<Rightarrow> proxy_manager \<Rightarrow> proxy_manager" where
  "listen_on port bind_ip pm =
     (if hm_get (pm_servers pm) port \<noteq> None then pm
      else pm\<lparr>pm_servers := hm_insert port \<lparr> ps_addr = (bind_ip, port), ps_tls = False \<rparr> (pm_servers pm)\<rparr>)"

definition listen_on_tls :: "u16 \<Rightarrow> ip_addr \<Rightarrow> proxy_manager \<Rightarrow> proxy_manager" where
  "listen_on_tls port bind_ip pm =
     (if hm_get (pm_servers pm) port \<noteq> None then pm
      else if \<not> pm_cert_manager pm then pm
      else pm\<lparr>pm_servers := hm_insert port \<lparr> ps_addr = (bind_ip, port), ps_tls = True \<rparr> (pm_servers pm)\<rparr>)"

definition pm_stop :: "proxy_manager \<Rightarrow> proxy_manager" where
  "pm_stop pm = pm\<lparr>pm_servers := []\<rparr>"

definition unbind :: "u16 \<Rightarrow> proxy_manager \<Rightarrow> proxy_manager" where
  "unbind port pm = pm\<lparr>pm_servers := hm_remove port (pm_servers pm)\<rparr>"

text \<open>\<open>bind\<close> says which addresses the operating system lets a socket of the kind be bound to.\<close>

definition ensure_tcp_listener :: "(socket_addr \<Rightarrow> bool) \<Rightarrow> u16 \<Rightarrow> ip_addr \<Rightarrow> proxy_manager \<Rightarrow> proxy_manager" where
  "ensure_tcp_listener bind port bind_ip pm =
     (if port \<in> pm_tcp_listeners pm then pm
      else case pm_streams pm of
             None \<Rightarrow> pm
           | Some _ \<Rightarrow> if bind (bind_ip, port) then pm\<lparr>pm_tcp_listeners := insert port (pm_tcp_listeners pm)\<rparr> else pm)"

definition ensure_udp_listener :: "(socket_addr \<Rightarrow> bool) \<Rightarrow> u16 \<Rightarrow> ip_addr \<Rightarrow> proxy_manager \<Rightarrow> proxy_manager" where
  "ensure_udp_listener bind port bind_ip pm =
     (if port \<in> pm_udp_listeners pm then pm
      else case pm_streams pm of
             None \<Rightarrow> pm
           | Some _ \<Rightarrow> if bind (bind_ip, port) then pm\<lparr>pm_udp_listeners := insert port (pm_udp_listeners pm)\<rparr> else pm)"

definition bind_ip_for :: "endpoint_spec \<Rightarrow> ip_addr option \<Rightarrow> ip_addr" where
  "bind_ip_for endpoint overlay_ip =
     (case ep_expose endpoint of
        Public \<Rightarrow> UNSPECIFIED
      | Internal \<Rightarrow> (case overlay_ip of Some ip \<Rightarrow> ip | None \<Rightarrow> LOCALHOST))"

definition ensure_ports_for_service ::
  "(socket_addr \<Rightarrow> bool) \<Rightarrow> (socket_addr \<Rightarrow> bool) \<Rightarrow> endpoint_spec list \<Rightarrow> ip_addr option \<Rightarrow> proxy_manager \<Rightarrow> proxy_manager" where
  "ensure_ports_for_service tcp_bind udp_bind endpoints overlay_ip =
     fold (\<lambda>endpoint.
       let bind_ip = bind_ip_for endpoint overlay_ip in
       case ep_protocol endpoint of
         Https \<Rightarrow> listen_on_tls (ep_port endpoint) bind_ip
       | Http \<Rightarrow> listen_on (ep_port endpoint) bind_ip
       | Websocket \<Rightarrow> listen_on (ep_port endpoint) bind_ip
       | ProtoTcp \<Rightarrow> ensure_tcp_listener tcp_bind (ep_port endpoint) bind_ip
       | ProtoUdp \<Rightarrow> ensure_udp_listener udp_bind (ep_port endpoint) bind_ip) endpoints"

section \<open>Ports on the node's loopback\<close>

definition accumulate :: "socket_addr \<Rightarrow> stream_service \<Rightarrow> socket_addr list" where
  "accumulate backend existing =
     (if backend \<in> set (ss_backends existing) then ss_backends existing else ss_backends existing @ [backend])"

definition publish_loopback_tcp ::
  "(socket_addr \<Rightarrow> bool) \<Rightarrow> string \<Rightarrow> u16 \<Rightarrow> socket_addr \<Rightarrow> proxy_manager \<Rightarrow> proxy_manager" where
  "publish_loopback_tcp bind service_name publish_port backend pm =
     (let registry = (case resolve_tcp publish_port (pm_loopback pm) of
            Some existing \<Rightarrow> update_tcp_backends publish_port (accumulate backend existing) (pm_loopback pm)
          | None \<Rightarrow> register_tcp publish_port (stream_service_new service_name [backend]) (pm_loopback pm));
          pm = pm\<lparr>pm_loopback := registry\<rparr> in
      if publish_port \<in> pm_loopback_tcp pm then pm
      else if bind (LOCALHOST, publish_port) then pm\<lparr>pm_loopback_tcp := insert publish_port (pm_loopback_tcp pm)\<rparr>
      else pm)"

definition publish_loopback_udp ::
  "(socket_addr \<Rightarrow> bool) \<Rightarrow> string \<Rightarrow> u16 \<Rightarrow> socket_addr \<Rightarrow> proxy_manager \<Rightarrow> proxy_manager" where
  "publish_loopback_udp bind service_name publish_port backend pm =
     (let registry = (case resolve_udp publish_port (pm_loopback pm) of
            Some existing \<Rightarrow> update_udp_backends publish_port (accumulate backend existing) (pm_loopback pm)
          | None \<Rightarrow> register_udp publish_port (stream_service_new service_name [backend]) (pm_loopback pm));
          pm = pm\<lparr>pm_loopback := registry\<rparr> in
      if publish_port \<in> pm_loopback_udp pm then pm
      else if bind (LOCALHOST, publish_port) then pm\<lparr>pm_loopback_udp := insert publish_port (pm_loopback_udp pm)\<rparr>
      else pm)"

definition loopback_backend :: "endpoint_spec \<Rightarrow> ip_addr \<Rightarrow> u16 option \<Rightarrow> socket_addr" where
  "loopback_backend endpoint container_ip port_override =
     (container_ip, case port_override of Some p \<Rightarrow> p | None \<Rightarrow> endpoint_target_port endpoint)"

definition publish_loopback_for_container ::
  "(socket_addr \<Rightarrow> bool) \<Rightarrow> (socket_addr \<Rightarrow> bool) \<Rightarrow> string \<Rightarrow> endpoint_spec list \<Rightarrow> ip_addr \<Rightarrow> u16 option \<Rightarrow>
     proxy_manager \<Rightarrow> proxy_manager" where
  "publish_loopback_for_container tcp_bind udp_bind service_name endpoints container_ip port_override =
     fold (\<lambda>endpoint.
       if ep_expose endpoint = Public then id
       else let backend = loopback_backend endpoint container_ip port_override in
            if ep_protocol endpoint = ProtoUdp then publish_loopback_udp udp_bind service_name (ep_port endpoint) backend
            else publish_loopback_tcp tcp_bind service_name (ep_port endpoint) backend) endpoints"

definition unpublish_loopback_tcp :: "u16 \<Rightarrow> socket_addr \<Rightarrow> proxy_manager \<Rightarrow> proxy_manager" where
  "unpublish_loopback_tcp publish_port backend pm =
     (case resolve_tcp publish_port (pm_loopback pm) of
        None \<Rightarrow> pm
      | Some existing \<Rightarrow>
          let remaining = filter (\<lambda>b. b \<noteq> backend) (ss_backends existing) in
          if remaining = []
          then pm\<lparr>pm_loopback := snd (unregister_tcp publish_port (pm_loopback pm)),
                  pm_loopback_tcp := pm_loopback_tcp pm - {publish_port}\<rparr>
          else pm\<lparr>pm_loopback := update_tcp_backends publish_port remaining (pm_loopback pm)\<rparr>)"

definition unpublish_loopback_udp :: "u16 \<Rightarrow> socket_addr \<Rightarrow> proxy_manager \<Rightarrow> proxy_manager" where
  "unpublish_loopback_udp publish_port backend pm =
     (case resolve_udp publish_port (pm_loopback pm) of
        None \<Rightarrow> pm
      | Some existing \<Rightarrow>
          let remaining = filter (\<lambda>b. b \<noteq> backend) (ss_backends existing) in
          if remaining = []
          then pm\<lparr>pm_loopback := snd (unregister_udp publish_port (pm_loopback pm)),
                  pm_loopback_udp := pm_loopback_udp pm - {publish_port}\<rparr>
          else pm\<lparr>pm_loopback := update_udp_backends publish_port remaining (pm_loopback pm)\<rparr>)"

definition unpublish_loopback_for_container ::
  "endpoint_spec list \<Rightarrow> ip_addr \<Rightarrow> u16 option \<Rightarrow> proxy_manager \<Rightarrow> proxy_manager" where
  "unpublish_loopback_for_container endpoints container_ip port_override =
     fold (\<lambda>endpoint.
       if ep_expose endpoint = Public then id
       else let backend = loopback_backend endpoint container_ip port_override in
            if ep_protocol endpoint = ProtoUdp then unpublish_loopback_udp (ep_port endpoint) backend
            else unpublish_loopback_tcp (ep_port endpoint) backend) endpoints"

section \<open>Services\<close>

definition is_l7 :: "protocol \<Rightarrow> bool" where
  "is_l7 p \<longleftrightarrow> p = Http \<or> p = Https \<or> p = Websocket"

definition add_endpoint_route :: "string \<Rightarrow> endpoint_spec \<Rightarrow> proxy_manager \<Rightarrow> proxy_manager" where
  "add_endpoint_route name endpoint pm =
     (if is_l7 (ep_protocol endpoint)
      then pm\<lparr>pm_registry := routes_register (from_endpoint name endpoint) (pm_registry pm),
              pm_lb := lb_register (endpoint_lb_key name (ep_name endpoint)) [] RoundRobin (pm_lb pm)\<rparr>
      else pm)"

definition tracking_of :: "endpoint_spec list \<Rightarrow> service_tracking" where
  "tracking_of endpoints =
     \<lparr> st_endpoint_names = map ep_name endpoints,
       st_tcp_ports = map ep_port (filter (\<lambda>e. ep_protocol e = ProtoTcp) endpoints),
       st_udp_ports = map ep_port (filter (\<lambda>e. ep_protocol e = ProtoUdp) endpoints),
       st_http_ports = map ep_port (filter (\<lambda>e. is_l7 (ep_protocol e)) endpoints) \<rparr>"

definition pm_add_service :: "string \<Rightarrow> endpoint_spec list \<Rightarrow> proxy_manager \<Rightarrow> proxy_manager" where
  "pm_add_service name endpoints pm =
     (let pm = fold (add_endpoint_route name) endpoints pm;
          pm = pm\<lparr>pm_lb := lb_register name [] RoundRobin (pm_lb pm)\<rparr>
      in pm\<lparr>pm_services := hm_insert name (tracking_of endpoints) (pm_services pm)\<rparr>)"

definition on_endpoint_groups :: "(string \<Rightarrow> load_balancer \<Rightarrow> load_balancer) \<Rightarrow> string \<Rightarrow> string list \<Rightarrow> load_balancer \<Rightarrow> load_balancer" where
  "on_endpoint_groups f service names = fold (\<lambda>endpoint_name. f (endpoint_lb_key service endpoint_name)) names"

definition drop_streams :: "service_tracking \<Rightarrow> stream_registry \<Rightarrow> stream_registry" where
  "drop_streams t r =
     fold (\<lambda>port r. snd (unregister_udp port r)) (st_udp_ports t) (fold (\<lambda>port r. snd (unregister_tcp port r)) (st_tcp_ports t) r)"

definition pm_remove_service :: "string \<Rightarrow> proxy_manager \<Rightarrow> proxy_manager" where
  "pm_remove_service name pm =
     (case hm_get (pm_services pm) name of
        None \<Rightarrow> pm
      | Some tracking \<Rightarrow>
          let services = hm_remove name (pm_services pm);
              ports_still_in_use = concat (map (\<lambda>(_, t). st_http_ports t) services)
          in pm\<lparr>pm_services := services,
                pm_registry := unregister_service name (pm_registry pm),
                pm_lb := on_endpoint_groups lb_unregister name (st_endpoint_names tracking) (lb_unregister name (pm_lb pm)),
                pm_streams := map_option (drop_streams tracking) (pm_streams pm),
                pm_tcp_listeners := pm_tcp_listeners pm - set (st_tcp_ports tracking),
                pm_udp_listeners := pm_udp_listeners pm - set (st_udp_ports tracking),
                pm_servers := fold (\<lambda>port servers. if port \<in> set ports_still_in_use then servers else hm_remove port servers)
                  (st_http_ports tracking) (pm_servers pm)\<rparr>)"

definition tracked_names :: "string \<Rightarrow> proxy_manager \<Rightarrow> string list" where
  "tracked_names service pm = (case hm_get (pm_services pm) service of Some t \<Rightarrow> st_endpoint_names t | None \<Rightarrow> [])"

definition pm_add_backend :: "string \<Rightarrow> socket_addr \<Rightarrow> proxy_manager \<Rightarrow> proxy_manager" where
  "pm_add_backend service addr pm =
     pm\<lparr>pm_registry := route_add_backend service addr (pm_registry pm),
        pm_lb := on_endpoint_groups (\<lambda>k. lb_add_backend k addr) service (tracked_names service pm) (lb_add_backend service addr (pm_lb pm))\<rparr>"

definition pm_remove_backend :: "string \<Rightarrow> socket_addr \<Rightarrow> proxy_manager \<Rightarrow> proxy_manager" where
  "pm_remove_backend service addr pm =
     pm\<lparr>pm_registry := route_remove_backend service addr (pm_registry pm),
        pm_lb := on_endpoint_groups (\<lambda>k. lb_remove_backend k addr) service (tracked_names service pm) (lb_remove_backend service addr (pm_lb pm))\<rparr>"

definition update_backend_health :: "string \<Rightarrow> socket_addr \<Rightarrow> bool \<Rightarrow> proxy_manager \<Rightarrow> proxy_manager" where
  "update_backend_health service addr healthy pm =
     pm\<lparr>pm_lb := on_endpoint_groups (\<lambda>k. mark_health k addr healthy) service (tracked_names service pm) (mark_health service addr healthy (pm_lb pm))\<rparr>"

definition pm_update_backends :: "string \<Rightarrow> socket_addr list \<Rightarrow> proxy_manager \<Rightarrow> proxy_manager" where
  "pm_update_backends service addrs pm =
     pm\<lparr>pm_registry := route_update_backends service addrs (pm_registry pm),
        pm_lb := on_endpoint_groups (\<lambda>k. lb_update_backends k addrs) service (tracked_names service pm) (lb_update_backends service addrs (pm_lb pm))\<rparr>"

definition update_endpoint_backends :: "string \<Rightarrow> string \<Rightarrow> socket_addr list \<Rightarrow> proxy_manager \<Rightarrow> proxy_manager" where
  "update_endpoint_backends service endpoint_name addrs pm =
     pm\<lparr>pm_registry := update_backends_for_endpoint service endpoint_name addrs (pm_registry pm),
        pm_lb := lb_update_backends (endpoint_lb_key service endpoint_name) addrs (pm_lb pm)\<rparr>"

definition pm_list_services :: "proxy_manager \<Rightarrow> string list" where
  "pm_list_services pm = map fst (pm_services pm)"

definition has_service :: "string \<Rightarrow> proxy_manager \<Rightarrow> bool" where
  "has_service name pm \<longleftrightarrow> hm_get (pm_services pm) name \<noteq> None"

section \<open>Keys of the balancer\<close>

lemma endpoint_lb_key_inject:
  "CHR ''#'' \<notin> set s \<Longrightarrow> CHR ''#'' \<notin> set t \<Longrightarrow> endpoint_lb_key s e = endpoint_lb_key t f \<longleftrightarrow> s = t \<and> e = f"
  by (auto simp: endpoint_lb_key_def dest: arg_cong [of _ _ "split_once ''#''"])

lemma endpoint_lb_key_neq: "CHR ''#'' \<notin> set name \<Longrightarrow> endpoint_lb_key s e \<noteq> name"
  by (auto simp: endpoint_lb_key_def)

definition has_group :: "load_balancer \<Rightarrow> string \<Rightarrow> bool" where
  "has_group lb k \<longleftrightarrow> hm_get (groups lb) k \<noteq> None"

lemma has_group_simps [simp]:
  "has_group (lb_register k' addrs st lb) k \<longleftrightarrow> k = k' \<or> has_group lb k"
  "has_group (lb_unregister k' lb) k \<longleftrightarrow> k \<noteq> k' \<and> has_group lb k"
  "has_group (lb_update_backends k' addrs lb) k \<longleftrightarrow> has_group lb k"
  "has_group (lb_add_backend k' a lb) k \<longleftrightarrow> has_group lb k"
  "has_group (lb_remove_backend k' a lb) k \<longleftrightarrow> has_group lb k"
  "has_group (mark_health k' a h lb) k \<longleftrightarrow> has_group lb k"
  by (auto simp: has_group_def lb_register_def lb_unregister_def lb_update_backends_def lb_add_backend_def lb_remove_backend_def
      mark_health_def reset_failures_def set_healthy_def set_unhealthy_def record_failure_def on_backend_def update_conv' delete_conv' Let_def
      split: option.splits prod.splits if_splits)

lemma has_group_on_endpoints:
  assumes "\<And>k lb. has_group (f k lb) x \<longleftrightarrow> has_group lb x"
  shows "has_group (on_endpoint_groups f s names lb) x \<longleftrightarrow> has_group lb x"
  unfolding on_endpoint_groups_def using assms by (induction names arbitrary: lb) simp_all

lemma has_group_unregister_all:
  "has_group (on_endpoint_groups lb_unregister s names lb) x \<longleftrightarrow> x \<notin> endpoint_lb_key s ` set names \<and> has_group lb x"
  unfolding on_endpoint_groups_def by (induction names arbitrary: lb) auto

section \<open>The manager under use\<close>

text \<open>
  The operations of the manager, and the manager with traffic: proxies select backends and hold connection guards
  (\<open>guards\<close> as in the balancer's own development), and the balancer's health checker sweeps.
\<close>

datatype pm_op =
    PmAddService string "endpoint_spec list"
  | PmRemoveService string
  | PmAddBackend string socket_addr
  | PmRemoveBackend string socket_addr
  | PmHealth string socket_addr bool
  | PmUpdateBackends string "socket_addr list"
  | PmUpdateEndpoint string string "socket_addr list"
  | PmEnsurePorts "socket_addr \<Rightarrow> bool" "socket_addr \<Rightarrow> bool" "endpoint_spec list" "ip_addr option"
  | PmPublish "socket_addr \<Rightarrow> bool" "socket_addr \<Rightarrow> bool" string "endpoint_spec list" ip_addr "u16 option"
  | PmUnpublish "endpoint_spec list" ip_addr "u16 option"
  | PmUnbind u16
  | PmStop

fun pm_do :: "pm_op \<Rightarrow> proxy_manager \<Rightarrow> proxy_manager" where
  "pm_do (PmAddService name endpoints) = pm_add_service name endpoints"
| "pm_do (PmRemoveService name) = pm_remove_service name"
| "pm_do (PmAddBackend service addr) = pm_add_backend service addr"
| "pm_do (PmRemoveBackend service addr) = pm_remove_backend service addr"
| "pm_do (PmHealth service addr healthy) = update_backend_health service addr healthy"
| "pm_do (PmUpdateBackends service addrs) = pm_update_backends service addrs"
| "pm_do (PmUpdateEndpoint service endpoint addrs) = update_endpoint_backends service endpoint addrs"
| "pm_do (PmEnsurePorts tb ub endpoints overlay_ip) = ensure_ports_for_service tb ub endpoints overlay_ip"
| "pm_do (PmPublish tb ub service endpoints ip port) = publish_loopback_for_container tb ub service endpoints ip port"
| "pm_do (PmUnpublish endpoints ip port) = unpublish_loopback_for_container endpoints ip port"
| "pm_do (PmUnbind port) = unbind port"
| "pm_do PmStop = pm_stop"

text \<open>Service names have no hash, which separates them from endpoint names in the balancer's keys.\<close>

fun pm_op_ok :: "pm_op \<Rightarrow> bool" where
  "pm_op_ok (PmAddService name _) \<longleftrightarrow> CHR ''#'' \<notin> set name"
| "pm_op_ok (PmRemoveService name) \<longleftrightarrow> CHR ''#'' \<notin> set name"
| "pm_op_ok _ \<longleftrightarrow> True"

type_synonym pm_use = "proxy_manager \<times> backend_id list"

inductive pm_step :: "pm_use \<Rightarrow> pm_use \<Rightarrow> bool" where
  pm_manage: "pm_op_ok op \<Longrightarrow> pm_step (pm, guards) (pm_do op pm, guards)"
| pm_open: "lb_select key (pm_lb pm) = (Some i, lb) \<Longrightarrow> pm_step (pm, guards) (pm\<lparr>pm_lb := track_connection i lb\<rparr>, i # guards)"
| pm_refuse: "lb_select key (pm_lb pm) = (None, lb) \<Longrightarrow> pm_step (pm, guards) (pm\<lparr>pm_lb := lb\<rparr>, guards)"
| pm_close: "i \<in> set guards \<Longrightarrow> pm_step (pm, guards) (pm\<lparr>pm_lb := guard_drop i (pm_lb pm)\<rparr>, remove1 i guards)"
| pm_sweep: "pm_step (pm, guards) (pm\<lparr>pm_lb := health_sweep up (pm_lb pm)\<rparr>, guards)"

inductive pm_reaches :: "pm_use \<Rightarrow> bool" where
  reaches_new: "pm_reaches (pm_new cert_manager streams, [])"
| reaches_step: "pm_reaches u \<Longrightarrow> pm_step u u' \<Longrightarrow> pm_reaches u'"

text \<open>Every route belongs to a service without a hash in its name, and the balancer has the group its name asks for.\<close>

definition route_ok :: "load_balancer \<Rightarrow> route_entry \<Rightarrow> bool" where
  "route_ok lb r \<longleftrightarrow> CHR ''#'' \<notin> set (rt_service r) \<and>
     res_name (rt_resolved r) = endpoint_lb_key (rt_service r) (rt_endpoint r) \<and> has_group lb (res_name (rt_resolved r))"

definition pm_inv :: "pm_use \<Rightarrow> bool" where
  "pm_inv u \<longleftrightarrow> (\<forall>r \<in> set (pm_registry (fst u)). route_ok (pm_lb (fst u)) r) \<and> lb_inv (pm_lb (fst u), snd u)"

lemma lb_inv_ops:
  assumes "lb_inv (lb, gs)"
  shows "lb_inv (lb_register k addrs st lb, gs)" "lb_inv (lb_unregister k lb, gs)" "lb_inv (lb_update_backends k addrs lb, gs)"
    "lb_inv (lb_add_backend k a lb, gs)" "lb_inv (lb_remove_backend k a lb, gs)" "lb_inv (mark_health k a h lb, gs)"
    "lb_inv (health_sweep up lb, gs)"
  using assms by (auto intro: lb_inv_step lb_step.intros)

lemma lb_inv_on_endpoints:
  assumes "\<And>k lb. lb_inv (lb, gs) \<Longrightarrow> lb_inv (f k lb, gs)" "lb_inv (lb, gs)"
  shows "lb_inv (on_endpoint_groups f s names lb, gs)"
  unfolding on_endpoint_groups_def using assms(2) by (induction names arbitrary: lb) (simp_all add: assms(1))

lemma route_ok_set_backends [simp]: "route_ok lb (set_backends b r) \<longleftrightarrow> route_ok lb r"
  by (simp add: route_ok_def set_backends_def)

lemma route_ok_groups: "(\<And>k. has_group lb k \<Longrightarrow> has_group lb' k) \<Longrightarrow> route_ok lb r \<Longrightarrow> route_ok lb' r"
  by (auto simp: route_ok_def)

lemma route_ok_from_endpoint:
  "CHR ''#'' \<notin> set name \<Longrightarrow> has_group lb (endpoint_lb_key name (ep_name e)) \<Longrightarrow> route_ok lb (from_endpoint name e)"
  by (simp add: route_ok_def from_endpoint_def Let_def)

lemma routes_update_ok:
  assumes "\<forall>r \<in> set rs. route_ok lb r"
  shows "\<forall>r \<in> set (route_update_backends s addrs rs). route_ok lb r"
    "\<forall>r \<in> set (update_backends_for_endpoint s e addrs rs). route_ok lb r"
    "\<forall>r \<in> set (route_add_backend s a rs). route_ok lb r"
    "\<forall>r \<in> set (route_remove_backend s a rs). route_ok lb r"
  using assms by (auto simp: route_update_backends_def update_backends_for_endpoint_def route_add_backend_def route_remove_backend_def)

lemma set_routes_register [simp]: "set (routes_register e rs) = insert e (set rs)"
  by (simp add: routes_register_def Let_def, subst append_take_drop_id [of _ rs, symmetric], subst set_append) auto

lemma pm_inv_add_route:
  assumes "pm_inv (pm, gs)" "CHR ''#'' \<notin> set name"
  shows "pm_inv (add_endpoint_route name e pm, gs)"
  using assms by (auto simp: pm_inv_def add_endpoint_route_def lb_inv_ops route_ok_from_endpoint intro: route_ok_groups)

lemma pm_inv_lb:
  assumes "pm_inv (pm, gs)" "\<And>k. has_group (pm_lb pm) k \<Longrightarrow> has_group lb k" "lb_inv (lb, gs')"
  shows "pm_inv (pm\<lparr>pm_lb := lb\<rparr>, gs')"
  using assms by (auto simp: pm_inv_def intro: route_ok_groups)

lemma pm_inv_add_service:
  assumes "pm_inv (pm, gs)" "CHR ''#'' \<notin> set name"
  shows "pm_inv (pm_add_service name endpoints pm, gs)"
proof -
  have "pm_inv (fold (add_endpoint_route name) endpoints pm, gs)"
    using assms by (induction endpoints arbitrary: pm) (simp_all add: pm_inv_add_route)
  moreover from this have "lb_inv (pm_lb (fold (add_endpoint_route name) endpoints pm), gs)" by (simp add: pm_inv_def)
  ultimately have "pm_inv ((fold (add_endpoint_route name) endpoints pm)
      \<lparr>pm_lb := lb_register name [] RoundRobin (pm_lb (fold (add_endpoint_route name) endpoints pm))\<rparr>, gs)"
    by (intro pm_inv_lb) (simp_all add: lb_inv_ops)
  then show ?thesis by (simp add: pm_add_service_def Let_def pm_inv_def)
qed

lemma pm_inv_remove_service:
  assumes inv: "pm_inv (pm, gs)" and name: "CHR ''#'' \<notin> set name"
  shows "pm_inv (pm_remove_service name pm, gs)"
proof (cases "hm_get (pm_services pm) name")
  case (Some t)
  let ?lb = "on_endpoint_groups lb_unregister name (st_endpoint_names t) (lb_unregister name (pm_lb pm))"
  have "route_ok ?lb r" if "r \<in> set (unregister_service name (pm_registry pm))" for r
  proof -
    from that inv have "route_ok (pm_lb pm) r" "rt_service r \<noteq> name" by (auto simp: unregister_service_def pm_inv_def)
    then show ?thesis using name by (auto simp: route_ok_def has_group_unregister_all endpoint_lb_key_inject endpoint_lb_key_neq)
  qed
  moreover have "lb_inv (?lb, gs)" using inv by (intro lb_inv_on_endpoints) (simp_all add: lb_inv_ops pm_inv_def)
  ultimately show ?thesis using Some by (simp add: pm_remove_service_def pm_inv_def Let_def)
qed (simp add: pm_remove_service_def inv)

lemma pm_inv_backends:
  assumes "pm_inv (pm, gs)"
  shows "pm_inv (pm_add_backend s a pm, gs)" "pm_inv (pm_remove_backend s a pm, gs)" "pm_inv (update_backend_health s a h pm, gs)"
    "pm_inv (pm_update_backends s addrs pm, gs)" "pm_inv (update_endpoint_backends s e addrs pm, gs)"
proof -
  have r: "\<forall>r \<in> set (pm_registry pm). route_ok (pm_lb pm) r" and l: "lb_inv (pm_lb pm, gs)" using assms by (simp_all add: pm_inv_def)
  have ok: "\<forall>r \<in> set rs. route_ok lb r"
    if "\<forall>r \<in> set rs. route_ok (pm_lb pm) r" "\<And>k. has_group lb k \<longleftrightarrow> has_group (pm_lb pm) k" for rs lb
    using that by (auto intro: route_ok_groups)
  note r' = routes_update_ok [OF r]
  show "pm_inv (pm_add_backend s a pm, gs)"
    using ok [OF r'(3)] l by (simp add: pm_inv_def pm_add_backend_def has_group_on_endpoints lb_inv_on_endpoints lb_inv_ops)
  show "pm_inv (pm_remove_backend s a pm, gs)"
    using ok [OF r'(4)] l by (simp add: pm_inv_def pm_remove_backend_def has_group_on_endpoints lb_inv_on_endpoints lb_inv_ops)
  show "pm_inv (update_backend_health s a h pm, gs)"
    using ok [OF r] l by (simp add: pm_inv_def update_backend_health_def has_group_on_endpoints lb_inv_on_endpoints lb_inv_ops)
  show "pm_inv (pm_update_backends s addrs pm, gs)"
    using ok [OF r'(1)] l by (simp add: pm_inv_def pm_update_backends_def has_group_on_endpoints lb_inv_on_endpoints lb_inv_ops)
  show "pm_inv (update_endpoint_backends s e addrs pm, gs)"
    using ok [OF r'(2)] l by (simp add: pm_inv_def update_endpoint_backends_def lb_inv_ops)
qed

text \<open>Listeners and the loopback leave routes, groups and services alone.\<close>

definition same_routing :: "proxy_manager \<Rightarrow> proxy_manager \<Rightarrow> bool" where
  "same_routing pm pm' \<longleftrightarrow> pm_registry pm' = pm_registry pm \<and> pm_lb pm' = pm_lb pm \<and> pm_services pm' = pm_services pm"

lemma same_routing_fold: "(\<And>x pm. same_routing pm (f x pm)) \<Longrightarrow> same_routing pm (fold f xs pm)"
proof (induction xs arbitrary: pm)
  case (Cons x xs)
  from Cons.prems have "same_routing pm (f x pm)" .
  moreover from Cons.IH [OF Cons.prems] have "same_routing (f x pm) (fold f xs (f x pm))" .
  ultimately show ?case by (simp add: same_routing_def)
qed (simp add: same_routing_def)

lemma same_routing_listeners:
  "same_routing pm (listen_on port ip pm)" "same_routing pm (listen_on_tls port ip pm)"
  "same_routing pm (ensure_tcp_listener b port ip pm)" "same_routing pm (ensure_udp_listener b port ip pm)"
  "same_routing pm (publish_loopback_tcp b s port a pm)" "same_routing pm (publish_loopback_udp b s port a pm)"
  "same_routing pm (unpublish_loopback_tcp port a pm)" "same_routing pm (unpublish_loopback_udp port a pm)"
  "same_routing pm (unbind port pm)" "same_routing pm (pm_stop pm)" "same_routing pm (id pm)"
  by (auto simp: same_routing_def listen_on_def listen_on_tls_def ensure_tcp_listener_def ensure_udp_listener_def
      publish_loopback_tcp_def publish_loopback_udp_def unpublish_loopback_tcp_def unpublish_loopback_udp_def unbind_def pm_stop_def Let_def
      split: option.splits)

lemma same_routing_containers:
  "same_routing pm (ensure_ports_for_service tb ub es ip pm)"
  "same_routing pm (publish_loopback_for_container tb ub s es cip port pm)"
  "same_routing pm (unpublish_loopback_for_container es cip port pm)"
  unfolding ensure_ports_for_service_def publish_loopback_for_container_def unpublish_loopback_for_container_def Let_def
  by (rule same_routing_fold, auto simp: same_routing_listeners simp del: id_apply split: protocol.splits)+

lemma pm_inv_same: "pm_inv (pm, gs) \<Longrightarrow> same_routing pm pm' \<Longrightarrow> pm_inv (pm', gs)"
  by (simp add: pm_inv_def same_routing_def)

lemma pm_inv_do: "pm_inv (pm, gs) \<Longrightarrow> pm_op_ok op \<Longrightarrow> pm_inv (pm_do op pm, gs)"
  by (cases op) (auto intro: pm_inv_add_service pm_inv_remove_service pm_inv_backends pm_inv_same same_routing_listeners same_routing_containers)

lemma groups_traffic:
  "lb_select key lb = (r, lb') \<Longrightarrow> has_group lb' k \<longleftrightarrow> has_group lb k" "has_group (track_connection i lb) k \<longleftrightarrow> has_group lb k"
  "has_group (guard_drop i lb) k \<longleftrightarrow> has_group lb k"
  by (auto simp: has_group_def lb_select_def track_connection_def guard_drop_def update_conv' split: option.splits prod.splits if_splits)

lemma has_group_sweep: "has_group (health_sweep up lb) k \<longleftrightarrow> has_group lb k"
  using same_load_sweep [of lb up] by (simp add: same_load_def has_group_def)

lemma pm_inv_step: "pm_step u u' \<Longrightarrow> pm_inv u \<Longrightarrow> pm_inv u'"
proof (induction rule: pm_step.induct)
  case (pm_open key pm i lb gs)
  then have "lb_inv (track_connection i lb, i # gs)" by (auto simp: pm_inv_def intro: lb_inv_step step_open)
  with pm_open show ?case by (intro pm_inv_lb [OF pm_open(2)]) (simp_all add: groups_traffic)
next
  case (pm_refuse key pm lb gs)
  then have "lb_inv (lb, gs)" by (auto simp: pm_inv_def intro: lb_inv_step step_refuse)
  with pm_refuse show ?case by (intro pm_inv_lb [OF pm_refuse(2)]) (simp_all add: groups_traffic)
next
  case (pm_close i gs pm)
  then have "lb_inv (guard_drop i (pm_lb pm), remove1 i gs)" by (auto simp: pm_inv_def intro: lb_inv_step step_close)
  with pm_close show ?case by (intro pm_inv_lb [OF pm_close(2)]) (simp_all add: groups_traffic)
next
  case (pm_sweep pm gs up)
  then have "lb_inv (health_sweep up (pm_lb pm), gs)" by (simp add: pm_inv_def lb_inv_ops)
  with pm_sweep show ?case by (intro pm_inv_lb [OF pm_sweep]) (simp_all add: has_group_sweep)
qed (simp add: pm_inv_do)

lemma pm_inv_reaches: "pm_reaches u \<Longrightarrow> pm_inv u"
proof (induction rule: pm_reaches.induct)
  case (reaches_new cert_manager streams)
  then show ?case by (simp add: pm_inv_def pm_new_def routes_new_def lb_inv_new)
next
  case (reaches_step u u')
  then show ?case by (blast intro: pm_inv_step)
qed

section \<open>Requests through a managed proxy\<close>

lemma resolve_mem: "resolve rs host path = Some r \<Longrightarrow> \<exists>e \<in> set rs. r = rt_resolved e \<and> route_matches e host path"
  by (induction rs) (auto split: if_splits)

lemma resolved_group:
  assumes "pm_inv (pm, gs)" "resolve (pm_registry pm) host path = Some r"
  shows "\<exists>g. hm_get (groups (pm_lb pm)) (res_name r) = Some g"
  using resolve_mem [OF assms(2)] assms(1) by (auto simp: pm_inv_def route_ok_def has_group_def)

text \<open>
  C4. The route table and the balancer never get out of step: with a manager in any state it can reach, under traffic, a
  request that has passed the checks is refused for want of a backend only when the balancer has the group of its
  endpoint and every backend in that group is marked unhealthy (or there is none).
\<close>

theorem refused_only_if_unhealthy:
  assumes "pm_reaches (pm, guards)" "px_registry svc = pm_registry pm"
    and "px_dispatch env svc req (pm_lb pm) = (Refuse (NoHealthyBackends k), lb')"
  shows "\<exists>e g. e \<in> set (pm_registry pm) \<and> route_matches e (px_host req) (rq_path req) \<and>
     k = endpoint_lb_key (rt_service e) (rt_endpoint e) \<and> hm_get (groups (pm_lb pm)) k = Some g \<and>
     (\<forall>i \<in> set (grp_backends g). \<not> is_healthy (pm_lb pm) i)"
proof -
  have inv: "pm_inv (pm, guards)" by (rule pm_inv_reaches [OF assms(1)])
  from px_dispatch_unhealthy [OF assms(3)] obtain r where
    r: "px_admit svc (px_host req) (rq_path req) = Inr r" and s: "lb_select k (pm_lb pm) = (None, lb')" and k: "k = res_name r" by blast
  from r assms(2) have res: "resolve (pm_registry pm) (px_host req) (rq_path req) = Some r" by (simp add: px_admit_Inr)
  from resolve_mem [OF res] obtain e where e: "e \<in> set (pm_registry pm)" "r = rt_resolved e" "route_matches e (px_host req) (rq_path req)" by blast
  from resolved_group [OF inv res] obtain g where g: "hm_get (groups (pm_lb pm)) k = Some g" unfolding k by blast
  have "k = endpoint_lb_key (rt_service e) (rt_endpoint e)" using inv e k by (auto simp: pm_inv_def route_ok_def)
  with e g lb_select_none [OF s g] show ?thesis by blast
qed

lemma updated_group:
  assumes "lb_inv (lb, gs)" "hm_get (groups (lb_update_backends k addrs lb)) k = Some g'" "i \<in> set (grp_backends g')"
  shows "be_addr (store (lb_update_backends k addrs lb) ! i) \<in> set addrs"
proof (cases "hm_get (groups lb) k")
  case (Some g)
  obtain "is" st' where r: "reuse_backends (grp_backends g) addrs (store lb) = (is, st')" by fastforce
  have "\<forall>i \<in> set (grp_backends g). i < length (store lb)"
    using assms(1) Some ids_below_get [of "length (store lb)" "groups lb" k g] by (auto simp: lb_inv_def)
  from reuse_backends_spec [OF r this] have "map (\<lambda>i. be_addr (st' ! i)) is = addrs" by blast
  moreover have "i \<in> set is" using assms(2,3) Some r by (auto simp: lb_update_backends_def group_update_backends_def update_conv')
  ultimately have "be_addr (st' ! i) \<in> set addrs" by force
  then show ?thesis using Some r by (simp add: lb_update_backends_def group_update_backends_def)
qed (use assms in \<open>simp add: lb_update_backends_def\<close>)

text \<open>
  C24. An update of an endpoint's backends takes effect for requests: after the agent has given the manager the list of
  backends of an endpoint, every request that is routed to that endpoint and sent on goes to an address of that
  list, whatever the registry, the groups and the health marks were before.
\<close>

theorem updated_endpoint_targets:
  assumes "pm_reaches (pm, guards)" "pm' = update_endpoint_backends s e addrs pm"
    and "px_registry svc = pm_registry pm'" "px_dispatch env svc req (pm_lb pm') = (Send i fw, lb')"
    and "find (\<lambda>r. route_matches r (px_host req) (rq_path req)) (pm_registry pm') = Some r"
    and "rt_service r = s" "rt_endpoint r = e"
  shows "fw_backend fw \<in> set addrs"
proof -
  let ?k = "endpoint_lb_key s e"
  have inv: "pm_inv (pm, guards)" and inv': "pm_inv (pm', guards)"
    using pm_inv_reaches [OF assms(1)] assms(2) by (simp_all add: pm_inv_backends)
  from px_dispatch_Send [OF assms(4)] obtain q lb1 where
    q: "px_admit svc (px_host req) (rq_path req) = Inr q" and sel: "lb_select (res_name q) (pm_lb pm') = (Some i, lb1)"
    and b: "(if is_upgrade_request (rq_headers req) then build_upgrade_request env svc req (be_addr (store lb1 ! i)) q
      else build_forwarded_request env svc req (be_addr (store lb1 ! i)) q) = Inr fw" by blast
  have "q = rt_resolved r" using q assms(3,5) by (simp add: px_admit_Inr resolve_filter)
  moreover have "r \<in> set (pm_registry pm')" using assms(5) by (auto simp: find_Some_iff)
  ultimately have k: "res_name q = ?k" using inv' assms(6,7) by (auto simp: pm_inv_def route_ok_def)
  from lb_select_healthy [OF sel] obtain g where g: "hm_get (groups (pm_lb pm')) ?k = Some g" "i \<in> set (grp_backends g)" "store lb1 = store (pm_lb pm')"
    unfolding k by blast
  have "be_addr (store (pm_lb pm') ! i) \<in> set addrs"
    using updated_group [of "pm_lb pm" guards ?k addrs g i] g inv assms(2) by (simp add: pm_inv_def update_endpoint_backends_def)
  moreover have "fw_backend fw = be_addr (store (pm_lb pm') ! i)" using b [unfolded g(3)] by (auto dest: build_request_backend split: if_splits)
  ultimately show ?thesis by simp
qed

section \<open>Removal\<close>

lemma lb_unregister_get: "hm_get (groups (lb_unregister k' lb)) k = (if k = k' then None else hm_get (groups lb) k)"
  by (simp add: lb_unregister_def delete_conv')

lemma unregister_all_get:
  "hm_get (groups (on_endpoint_groups lb_unregister s names lb)) k = (if k \<in> endpoint_lb_key s ` set names then None else hm_get (groups lb) k)"
  unfolding on_endpoint_groups_def by (induction names arbitrary: lb) (auto simp: lb_unregister_get)

lemma fold_remove_ports:
  "hm_get (fold (\<lambda>port servers. if P port then servers else hm_remove port servers) ports servers) p =
     (if p \<in> set ports \<and> \<not> P p then None else hm_get servers p)"
  by (induction ports arbitrary: servers) (auto simp: delete_conv')

text \<open>
  Removing a service takes away its routes, its groups in the balancer and the servers of the ports no other service
  uses, and nothing else: the routes of other services stay as they are and in their order, and so do their groups
  and the servers of every other port.
\<close>

theorem remove_service_exact:
  assumes "hm_get (pm_services pm) name = Some t" "CHR ''#'' \<notin> set name" "pm' = pm_remove_service name pm"
  shows "pm_registry pm' = filter (\<lambda>r. rt_service r \<noteq> name) (pm_registry pm) \<and>
     hm_get (groups (pm_lb pm')) name = None \<and>
     (\<forall>s e. CHR ''#'' \<notin> set s \<longrightarrow> hm_get (groups (pm_lb pm')) (endpoint_lb_key s e) =
        (if s = name \<and> e \<in> set (st_endpoint_names t) then None else hm_get (groups (pm_lb pm)) (endpoint_lb_key s e))) \<and>
     (\<forall>port. hm_get (pm_servers pm') port =
        (if port \<in> set (st_http_ports t) \<and> (\<nexists>s u. s \<noteq> name \<and> (s, u) \<in> set (pm_services pm) \<and> port \<in> set (st_http_ports u))
         then None else hm_get (pm_servers pm) port))"
proof -
  have lb: "pm_lb pm' = on_endpoint_groups lb_unregister name (st_endpoint_names t) (lb_unregister name (pm_lb pm))"
    using assms(1,3) by (simp add: pm_remove_service_def Let_def)
  have "port \<in> set (concat (map (\<lambda>(_, t). st_http_ports t) (hm_remove name (pm_services pm)))) \<longleftrightarrow>
      (\<exists>s u. s \<noteq> name \<and> (s, u) \<in> set (pm_services pm) \<and> port \<in> set (st_http_ports u))" for port
    by (force simp: AList.delete_eq)
  then have "hm_get (pm_servers pm') port =
        (if port \<in> set (st_http_ports t) \<and> (\<nexists>s u. s \<noteq> name \<and> (s, u) \<in> set (pm_services pm) \<and> port \<in> set (st_http_ports u))
         then None else hm_get (pm_servers pm) port)" for port
    using assms(1,3) by (simp add: pm_remove_service_def Let_def fold_remove_ports del: set_concat)
  moreover have "hm_get (groups (pm_lb pm')) (endpoint_lb_key s e) =
        (if s = name \<and> e \<in> set (st_endpoint_names t) then None else hm_get (groups (pm_lb pm)) (endpoint_lb_key s e))"
    if "CHR ''#'' \<notin> set s" for s e
    using that assms(2) by (auto simp: lb unregister_all_get lb_unregister_get endpoint_lb_key_inject endpoint_lb_key_neq)
  moreover have "hm_get (groups (pm_lb pm')) name = None" by (simp add: lb unregister_all_get lb_unregister_get)
  moreover have "pm_registry pm' = filter (\<lambda>r. rt_service r \<noteq> name) (pm_registry pm)"
    using assms(1,3) by (simp add: pm_remove_service_def unregister_service_def Let_def)
  ultimately show ?thesis by blast
qed

text \<open>Adding a service again, with another specification, keeps every route of the earlier one.\<close>

lemma readded_service_keeps_routes: "set (pm_registry pm) \<subseteq> set (pm_registry (pm_add_service name endpoints pm))"
proof -
  have "set (pm_registry pm) \<subseteq> set (pm_registry (fold (add_endpoint_route name) endpoints pm))"
  proof (induction endpoints arbitrary: pm)
    case (Cons e es)
    have "set (pm_registry pm) \<subseteq> set (pm_registry (add_endpoint_route name e pm))" by (auto simp: add_endpoint_route_def)
    with Cons [of "add_endpoint_route name e pm"] show ?case by simp
  qed simp
  then show ?thesis by (simp add: pm_add_service_def Let_def)
qed

text \<open>The first endpoint to claim a port decides where it is bound, whatever the exposure of a later one.\<close>

lemma shared_port_keeps_bind:
  assumes "hm_get (pm_servers pm) (ep_port endpoint) = Some server"
  shows "hm_get (pm_servers (ensure_ports_for_service tb ub [endpoint] overlay_ip pm)) (ep_port endpoint) = Some server"
  using assms by (simp add: ensure_ports_for_service_def listen_on_def listen_on_tls_def ensure_tcp_listener_def ensure_udp_listener_def Let_def
      split: protocol.splits option.splits)

section \<open>A sample manager\<close>

definition sample_pm :: proxy_manager where
  "sample_pm = pm_add_service ''api'' [internal_endpoint] (pm_new False None)"

definition sample_addr :: socket_addr where
  "sample_addr = (IpV4 0x0AC80009, 8080)"

lemma sample_pm_reaches: "pm_reaches (sample_pm, [])"
proof -
  have "pm_step (pm_new False None, []) (pm_do (PmAddService ''api'' [internal_endpoint]) (pm_new False None), [])" by (rule pm_manage) simp
  then show ?thesis unfolding sample_pm_def using reaches_step [OF reaches_new] by simp
qed

lemma sample_pm_eq:
  "pm_registry sample_pm = [from_endpoint ''api'' internal_endpoint]"
  "store (pm_lb sample_pm) = []" "hm_get (groups (pm_lb sample_pm)) ''api#web'' = Some (group_new RoundRobin)"
  "pm_services sample_pm = [(''api'', tracking_of [internal_endpoint])]"
  by (simp_all add: sample_pm_def pm_add_service_def add_endpoint_route_def pm_new_def routes_new_def routes_register_def lb_new_def
      lb_register_def internal_endpoint_def is_l7_def endpoint_lb_key_def group_new_def update_conv' Let_def)

lemma sample_not_acme: "acme_response (svc :: ip_addr px_service) (rq_path sample_req) = None"
  by (simp add: acme_response_def sample_req_def strip_prefix_def starts_with_def)

lemma sample_res_name: "res_name (rt_resolved (from_endpoint ''api'' internal_endpoint)) = ''api#web''"
  by (simp add: from_endpoint_def internal_endpoint_def endpoint_lb_key_def Let_def)

theorem refused_only_if_unhealthy_witness:
  "\<exists>lb g. px_dispatch sample_px_env sample_svc sample_req (pm_lb sample_pm) = (Refuse (NoHealthyBackends ''api#web''), lb) \<and>
     hm_get (groups (pm_lb sample_pm)) ''api#web'' = Some g \<and> list_all (\<lambda>i. \<not> is_healthy (pm_lb sample_pm) i) (grp_backends g)"
proof -
  obtain lb where "lb_select ''api#web'' (pm_lb sample_pm) = (None, lb)"
    by (simp add: lb_select_def sample_pm_eq group_select_def group_new_def)
  then have d: "px_dispatch sample_px_env sample_svc sample_req (pm_lb sample_pm) = (Refuse (NoHealthyBackends ''api#web''), lb)"
    by (simp add: px_dispatch_def sample_not_acme sample_admit sample_res_name Let_def)
  have r: "px_registry sample_svc = pm_registry sample_pm" by (simp add: sample_svc_def sample_pm_eq)
  from refused_only_if_unhealthy [OF sample_pm_reaches r d] d show ?thesis by (auto simp: list_all_iff)
qed

theorem updated_endpoint_targets_witness:
  "\<exists>i fw lb. px_dispatch sample_px_env (sample_svc\<lparr>px_registry := pm_registry (update_endpoint_backends ''api'' ''web'' [sample_addr] sample_pm)\<rparr>)
     sample_req (pm_lb (update_endpoint_backends ''api'' ''web'' [sample_addr] sample_pm)) = (Send i fw, lb) \<and> fw_backend fw = sample_addr"
proof -
  let ?pm = "update_endpoint_backends ''api'' ''web'' [sample_addr] sample_pm"
  let ?r = "set_backends [sample_addr] (from_endpoint ''api'' internal_endpoint)"
  let ?svc = "sample_svc\<lparr>px_registry := pm_registry ?pm\<rparr>"
  have reg: "pm_registry ?pm = [?r]"
    by (simp add: update_endpoint_backends_def update_backends_for_endpoint_def sample_pm_eq from_endpoint_def internal_endpoint_def Let_def)
  have m: "route_matches ?r (px_host sample_req) (rq_path sample_req)"
    by (simp add: set_backends_def route_matches_def path_matches_def sample_req_def from_endpoint_def internal_endpoint_def Let_def)
  have admit: "px_admit ?svc (px_host sample_req) (rq_path sample_req) = Inr (rt_resolved ?r)"
    unfolding px_admit_Inr using sample_access m
    by (simp add: reg sample_svc_def set_backends_def from_endpoint_def internal_endpoint_def endpoint_lb_key_def endpoint_target_port_def
        is_overlay_ip_def Let_def)
  have n: "res_name (rt_resolved ?r) = ''api#web''" by (simp add: set_backends_def sample_res_name)
  obtain lb where sel: "lb_select ''api#web'' (pm_lb ?pm) = (Some 0, lb)"
    by (simp add: update_endpoint_backends_def endpoint_lb_key_def lb_update_backends_def group_update_backends_def sample_pm_eq lb_select_def
        group_new_def group_select_def select_round_robin_def is_healthy_def backend_new_def update_conv' Let_def)
  obtain fw where "build_forwarded_request sample_px_env ?svc sample_req (be_addr (store lb ! 0)) (rt_resolved ?r) = Inr fw"
    by (simp add: build_forwarded_request_def sample_px_env_def Let_def)
  then have d: "px_dispatch sample_px_env ?svc sample_req (pm_lb ?pm) = (Send 0 fw, track_connection 0 lb)"
    using sample_connection(2) by (simp add: px_dispatch_def sample_not_acme admit n sel Let_def)
  have "find (\<lambda>r. route_matches r (px_host sample_req) (rq_path sample_req)) (pm_registry ?pm) = Some ?r" by (simp add: reg m)
  from updated_endpoint_targets [OF sample_pm_reaches refl _ d this] have "fw_backend fw = sample_addr"
    by (simp add: set_backends_def from_endpoint_def internal_endpoint_def Let_def)
  with d show ?thesis by blast
qed

theorem remove_service_exact_witness:
  "pm_registry (pm_remove_service ''api'' sample_pm) = [] \<and> hm_get (groups (pm_lb (pm_remove_service ''api'' sample_pm))) ''api#web'' = None"
proof -
  have t: "hm_get (pm_services sample_pm) ''api'' = Some (tracking_of [internal_endpoint])" by (simp add: sample_pm_eq)
  have "endpoint_lb_key ''api'' ''web'' = ''api#web''" "''web'' \<in> set (st_endpoint_names (tracking_of [internal_endpoint]))"
    by (simp_all add: endpoint_lb_key_def tracking_of_def internal_endpoint_def)
  moreover have "rt_service (from_endpoint ''api'' internal_endpoint) = ''api''" by (simp add: from_endpoint_def Let_def)
  ultimately show ?thesis
    using remove_service_exact [OF t _ refl, THEN conjunct1] remove_service_exact [OF t _ refl, THEN conjunct2, THEN conjunct2, THEN conjunct1, rule_format, of "''api''" "''web''"]
    by (simp add: sample_pm_eq)
qed

end
