(* ===== verification/Spec2Isabelle.thy ===== *)
theory Spec2Isabelle
  imports Tunnel_Registry Cluster_State Dependency_Wait Placement_Gpus Scheduler Spec_Validation Proxy_Manager
begin

text \<open>
  A verification library for ZLayer, a container orchestrator in Rust (\<open>src/crates\<close>). ZLayer runs an agent on
  every node, which starts containers in dependency order; a scheduler that keeps the state of the cluster in
  a replicated log; an encrypted overlay network with address allocators; a reverse proxy that routes requests
  to healthy backends; and tunnels that expose services behind other networks. The library models the parts of
  these whose behaviour is a function of their inputs, and proves what makes them correct.

  \<^bold>\<open>How the source is represented.\<close> Structs are records, enums datatypes, and integers words of the source's
  width wherever wrapping can matter; lengths, indices and durations are natural numbers. A \<open>Result\<close> is a sum with
  the error on the left, a panic an error value. A \<open>String\<close> is its UTF-8 bytes. A hash map the code iterates over
  is an association list with distinct keys and no assumption on the order; other maps are functions. State behind
  locks is passed explicitly, and each operation runs as a whole, as it does under its lock; backends shared
  between groups and open connections live in an explicit store. Time, random identifiers and the outside world
  are arguments. The crates the code uses for addresses (\<open>ipnet\<close>) and identifiers (\<open>uuid\<close>) are records of
  functions, with what the code relies on as the named hypotheses \<open>ipnet_ok\<close> and \<open>uuid_ok\<close>; \<open>cidr_api\<close> is a concrete
  instance of the first, used by the witnesses. Floating-point arithmetic is a record of operations too; its exact
  instance over the rationals, \<open>rat_ops\<close>, is used by the witnesses. So are the parsers of YAML, cron expressions, durations and
  JSON, the provider of secrets, and the exchange with a backend or an agent, about which nothing is assumed.

  \<^bold>\<open>The theories\<close>, each with the source it models, in the order they build on each other:
  \<^item> \<open>Prelude\<close>: results, saturating arithmetic, byte strings, big-endian and decimal rendering, the string methods of
    the standard library, stable sorting, association lists.
  \<^item> \<open>Tunnel_Protocol\<close> (\<open>zlayer-tunnel/src/protocol.rs\<close>): the binary messages. Encoding then decoding gives the
    message back exactly when its fields fit, streams of frames decode one by one, and truncated frames are
    reported as incomplete.
  \<^item> \<open>Pool_Contract\<close>, \<open>Tunnel_Registry\<close> (\<open>zlayer-tunnel/src/server/registry.rs\<close>): the port pool, as a locale of what a
    pool promises and its interpretation, and the registry of tunnels and their services: ports route to exactly
    the services that hold them, through any interleaving of registration, removal and cleanup.
  \<^item> \<open>Ip_Networks\<close>, \<open>Ip_Allocator\<close> (\<open>zlayer-overlay/src/allocator.rs\<close>): network arithmetic and the address allocator:
    addresses are given out once, the lowest free one first, and the persisted state restores the allocator.
  \<^item> \<open>Slice_Contract\<close>, \<open>Slice_Allocators\<close> (the same file): slices of the cluster network per node and per service and node,
    two interpretations of one locale of keyed allocators: slices are disjoint, assignment fails only when all are
    taken, and snapshots restore.
  \<^item> \<open>Secrets_State\<close> (\<open>zlayer-secrets/src/raft_sm.rs\<close>): the replicated secrets state: revoked tokens stay revoked.
  \<^item> \<open>Cluster_State\<close> (\<open>zlayer-scheduler/src/raft.rs\<close>): the state machine of the cluster log, every request of it: replicas
    agree up to the clocks they read, the scale history is a window, leases move forward, deregistration is complete,
    overlay endpoints refine a table.
  \<^item> \<open>Floats\<close>, \<open>Autoscaler\<close> (\<open>zlayer-scheduler/src/autoscaler.rs\<close>, \<open>metrics.rs\<close>, the loop of \<open>lib.rs\<close>): metrics, moving averages and
    decisions: adaptive services move one replica at a time within their bounds and wait out the cooldown, and fixed
    services settle.
  \<^item> \<open>Placement_State\<close>, \<open>Placement\<close>, \<open>Placement_Gpus\<close>, \<open>Placement_Policies\<close> (\<open>zlayer-scheduler/src/placement.rs\<close>): the data, filters,
    scores, reservations and rollback of placement: isolated services get distinct nodes, memory and GPUs are accounted
    for exactly, gangs are placed entirely or not at all, spreading is balanced, and only ready nodes that satisfy the
    constraints are used.
  \<^item> \<open>Scheduler\<close> (\<open>zlayer-scheduler/src/lib.rs\<close>): the scheduler of a cluster, over the loop, placement and the cluster state:
    it refines the loop, reschedules the services of a dead node on ready nodes, and does not return when two nodes
    refuse a service in turn.
  \<^item> \<open>Load_Balancer\<close> (\<open>zlayer-proxy/src/lb.rs\<close>): backends, groups and selection: selection is sound and complete, round
    robin starves no one, connection counts are exact under any interleaving (an inductive step relation), and
    health follows the last probes.
  \<^item> \<open>Routes\<close> (\<open>zlayer-proxy/src/routes.rs\<close>): matching, path rewriting and the route table, which refines the table in
    registration order by longest prefix.
  \<^item> \<open>Ip_Text\<close> (the standard library): reading and writing IP addresses.
  \<^item> \<open>Network_Policy\<close> (\<open>zlayer-proxy/src/network_policy.rs\<close>): the access decision, equal to its specification: no network, or
    some rule allows and none denies.
  \<^item> \<open>Proxy_Request\<close> (\<open>zlayer-proxy/src/service.rs\<close>, \<open>trust.rs\<close>, \<open>tunnel.rs\<close>, \<open>error.rs\<close>): a request through the proxy, over the route
    table, the policies and the balancer: what reaches a backend was admitted, no request leaves a connection counted,
    and which headers are forwarded.
  \<^item> \<open>Stream_Registry\<close> (\<open>zlayer-proxy/src/stream/registry.rs\<close>, \<open>tcp.rs\<close>): services on TCP and UDP ports: connections go to
    backends that answered the health checker.
  \<^item> \<open>Proxy_Manager\<close> (\<open>zlayer-agent/src/proxy_manager.rs\<close>): the manager that keeps routes, balancer, servers and loopback ports
    in step with the services, under traffic (an inductive step relation): requests are refused only for want of a
    healthy backend, updates take effect, and removal is exact.
  \<^item> \<open>Agent_Types\<close> (\<open>zlayer-agent/src/error.rs\<close>, \<open>runtime.rs\<close>, \<open>health.rs\<close>): container identifiers and which of their names
    read back.
  \<^item> \<open>Startup_Contract\<close>, \<open>Dependency_Graph\<close> (\<open>zlayer-agent/src/dependency.rs\<close>): the graph of service dependencies; building it
    succeeds exactly for well-formed acyclic services, its errors name real faults, its order respects every
    dependency, and its reachability query is exact. The locale is what the deployment relies on.
  \<^item> \<open>Dependency_Wait\<close> (the same file and \<open>service.rs\<close>): conditions, waiting and deployment: waiting ends, and a service
    starts only after its dependencies.
  \<^item> \<open>Secret_Refs\<close> (\<open>zlayer-types/src/secrets/types.rs\<close>, \<open>zlayer-agent/src/env.rs\<close>): references to secrets, which round-trip through
    their text, and the resolution of the environment of a container.
  \<^item> \<open>Spec_Validation\<close> (\<open>zlayer-types/src/spec\<close>): loading a deployment yields exactly the well-formed ones; their graph is built
    exactly when it has no cycle, and their secrets are kept apart.
  \<^item> This theory: the cluster log and the subnet registry together.

  \<^bold>\<open>Termination and bounds.\<close> The loops of the code are total functions with a termination proof (probing for a free
  slice, depth-first search, Kahn's algorithm, the reachability search) or structural recursion. Three may run forever
  on some input. Two of them are partial functions whose result \<open>None\<close> means so: walking back along parents, shown to return
  inside the search, and polling a condition, shown to return as long as the clock advances. The third is the dispatch of
  a service to nodes, which calls itself through the search for other nodes and takes the depth as fuel; depth one is shown to be enough as
  long as no node refuses, and no depth when two nodes refuse in turn.
  Counters of 64 bits wrap in the model; theorems that need it assume that a count stays below the width.

  \<^bold>\<open>What is not modelled.\<close> Input and output, sockets, timers and concurrency below the level of whole operations;
  cryptography, serialization formats other than the tunnel protocol, and storage engines; the consensus protocol
  itself (the library \<open>openraft\<close>), of which the state machines here are the applied side and a proposal one that is applied or
  fails; the bytes of proxied bodies, upgraded connections and streams, and UDP sessions; certificates; the dispatch of work to
  leased workers; container runtimes, image building and registries, the HTTP interfaces, the command line and the web and
  desktop interfaces. These are dominated by calls to the operating system, to other programs and to other crates, so that a model would have
  to make up what they do.
\<close>

section \<open>Service subnets of the cluster\<close>

text \<open>The calls of the service subnet registry that a request of the cluster log makes.\<close>

fun subnet_ops :: "'f request \<Rightarrow> (string \<times> string) slice_op list" where
  "subnet_ops (AssignServiceSubnet name i) = [Assign (name, show_word i)]"
| "subnet_ops (ReleaseServiceSubnet name i) = [Drop (name, show_word i)]"
| "subnet_ops _ = []"

lemma apply_subnets:
  "service_subnets (snd (cluster_apply api clk req st)) = subnet_run api (subnet_ops req) (service_subnets st)"
  by (cases req) (simp_all add: slice_run_def apply_secrets_def apply_record_scale_event_def apply_register_node_def
      Let_def split: option.splits sum.splits prod.splits)

lemma run_subnets:
  "service_subnets (snd (cluster_run api entries st)) =
     subnet_run api (concat (map (subnet_ops \<circ> snd) entries)) (service_subnets st)"
  by (induction entries arbitrary: st)
    (simp_all add: cluster_run_Cons apply_subnets slice_run_def del: cluster_run.simps(2))

text \<open>
  C3. Across the whole cluster no two services on nodes share addresses: after any log of requests applied to a
  fresh cluster state, with any clocks, the subnets held by different pairs of a service and a node are
  disjoint, inside the default cluster network, and of the default slice size.
\<close>

theorem cluster_subnets_disjoint:
  fixes i j :: node_id
  assumes "ipnet_ok api" and "cluster_state_new api = Inr st" and "st' = snd (cluster_run api entries st)"
    and "net_parse api DEFAULT_SERVICE_SUBNET_CLUSTER_CIDR = Some cidr"
    and "subnet_get (service_subnets st') (s, show_word i) = Some a"
    and "subnet_get (service_subnets st') (t, show_word j) = Some b" and "(s, i) \<noteq> (t, j)"
  shows "\<not> (net_contains api a ip \<and> net_contains api b ip) \<and>
    (net_contains api a ip \<longrightarrow> net_contains api cidr ip) \<and>
    net_prefix_len api a = DEFAULT_SERVICE_SUBNET_SLICE_PREFIX"
proof -
  have new: "service_subnets_new api cidr DEFAULT_SERVICE_SUBNET_SLICE_PREFIX = Inr (service_subnets st)"
    using assms(2,4) by (auto simp: cluster_state_new_def default_service_subnet_registry_def split: sum.splits)
  have bits: "unat DEFAULT_SERVICE_SUBNET_SLICE_PREFIX - unat (net_prefix_len api cidr) < 64"
    by (simp add: DEFAULT_SERVICE_SUBNET_SLICE_PREFIX_def)
  note fresh = subnet_new_apart [OF assms(1) new bits]
  have ne: "(s, show_word i) \<noteq> (t, show_word j)" using assms(7) by (auto simp: word_unat_eq_iff)
  have "a \<in> slices api cidr DEFAULT_SERVICE_SUBNET_SLICE_PREFIX \<and> b \<in> slices api cidr DEFAULT_SERVICE_SUBNET_SLICE_PREFIX \<and> a \<noteq> b"
    using ssl.run_distinct_slots [OF fresh(1), of _ "(s, show_word i)" a "(t, show_word j)" b, OF _ _ ne]
      assms(5,6) by (simp add: assms(3) run_subnets fresh(2,3))
  with slices_apart [OF fresh(5), of a b ip] slicesE [OF fresh(5), of a] show ?thesis by simp
qed

lemma default_num: "num_slices cidr_api (V4 (180879360, 16)) 28 = 4096"
  by (simp add: num_slices_def cidr_api_def cidr_prefix_def Let_def word_le_nat_alt)

lemma default_slice:
  "slice_at_index cidr_api (V4 (180879360, 16)) 28 3176 = Inr (V4 (180930176, 28))"
  "slice_at_index cidr_api (V4 (180879360, 16)) 28 2061 = Inr (V4 (180912336, 28))"
  by (simp_all add: slice_at_index_def cidr_api_def cidr_new_def cidr_network_def mask_to_def
      cidr_addr_def cidr_prefix_def block_size_def)

lemma default_hash: "hash_service_node ''a'' ''1'' mod 4096 = 3176" "hash_service_node ''b'' ''1'' mod 4096 = 2061"
  by (simp_all add: hash_service_node_def fnv_bytes_def FNV_OFFSET_def FNV_PRIME_def as_bytes_def byte_of_char_def)

lemma default_probe:
  "probe cidr_api (V4 (180879360, 16)) 28 [] 4096 3176 0 = Inr (V4 (180930176, 28))"
  "probe cidr_api (V4 (180879360, 16)) 28 [V4 (180930176, 28)] 4096 2061 0 = Inr (V4 (180912336, 28))"
  by (simp_all add: probe.simps default_slice)

lemma show_one: "show_word (1 :: u64) = ''1''"
  by (simp add: show_nat.simps digit_char_def char_of_def bit_0)

definition subnet_log :: "(clock \<times> int request) list" where
  "subnet_log = [(clock0, AssignServiceSubnet ''a'' 1), (clock0, AssignServiceSubnet ''b'' 1)]"

abbreviation subnet_cluster :: "(int, 32 cidr, 128 cidr) cluster_state" where
  "subnet_cluster \<equiv> snd (cluster_run cidr_api subnet_log (sample_cluster\<lparr>service_subnets := default_subnets\<rparr>))"

lemma subnet_cluster_get:
  "subnet_get (service_subnets subnet_cluster) (''a'', ''1'') = Some (V4 (180930176, 28))"
  "subnet_get (service_subnets subnet_cluster) (''b'', ''1'') = Some (V4 (180912336, 28))"
proof -
  let ?one = "default_subnets\<lparr>ssr_assignments := [((''a'', ''1''), V4 (180930176, 28))]\<rparr>"
  have one: "subnet_assign cidr_api (''a'', ''1'') default_subnets = Inr (V4 (180930176, 28), ?one)"
    by (simp add: subnet_assign_def default_subnets_def default_num default_hash default_probe Let_def)
  have two: "subnet_assign cidr_api (''b'', ''1'') ?one = Inr (V4 (180912336, 28),
      ?one\<lparr>ssr_assignments := [((''a'', ''1''), V4 (180930176, 28)), ((''b'', ''1''), V4 (180912336, 28))]\<rparr>)"
    by (simp add: subnet_assign_def default_subnets_def default_num default_hash default_probe Let_def)
  from show_one have "service_subnets subnet_cluster =
      default_subnets\<lparr>ssr_assignments := [((''a'', ''1''), V4 (180930176, 28)), ((''b'', ''1''), V4 (180912336, 28))]\<rparr>"
    by (simp add: run_subnets subnet_log_def slice_run_def one two)
  then show "subnet_get (service_subnets subnet_cluster) (''a'', ''1'') = Some (V4 (180930176, 28))"
    "subnet_get (service_subnets subnet_cluster) (''b'', ''1'') = Some (V4 (180912336, 28))"
    by (simp_all add: subnet_get_def)
qed

theorem cluster_subnets_disjoint_witness:
  "subnet_get (service_subnets subnet_cluster) (''a'', show_word (1 :: node_id)) = Some (V4 (180930176, 28)) \<and>
   subnet_get (service_subnets subnet_cluster) (''b'', show_word (1 :: node_id)) = Some (V4 (180912336, 28)) \<and>
   \<not> (net_contains cidr_api (V4 (180930176, 28)) (IpV4 180930177) \<and> net_contains cidr_api (V4 (180912336, 28)) (IpV4 180930177))"
proof -
  have parse: "net_parse cidr_api DEFAULT_SERVICE_SUBNET_CLUSTER_CIDR = Some (V4 (180879360, 16))"
    by (simp add: cidr_api_def DEFAULT_SERVICE_SUBNET_CLUSTER_CIDR_def default_cidr_parse)
  have "(''a'', 1 :: node_id) \<noteq> (''b'', 1)" by simp
  from cluster_subnets_disjoint [OF cidr_api_ok cluster_new_cidr_api refl parse, of subnet_log "''a''" 1 _ "''b''" 1, unfolded show_one,
      OF subnet_cluster_get this] subnet_cluster_get
  show ?thesis unfolding show_one by blast
qed

end
